(* ===== verification/Prelude.thy ===== *)
theory Prelude
  imports Main "HOL-Library.Word"
begin

text \<open>
  What every component of the model shares: the outcome of a Rust call that may return an
  error or panic, checked machine arithmetic, byte-string literals and the search functions
  of Rust's iterators.

  The unsigned integers whose width matters are words (\<open>u8\<close>, \<open>u16\<close>) or natural numbers
  with Rust's overflow check written out (\<open>u32\<close>, \<open>usize\<close>: an overflow or underflow panics,
  as the code's debug profile does). \<open>i64\<close> is a 64-bit word read as two's complement.
\<close>

named_theorems no_panic "calls that return to their caller, under their preconditions"

section \<open>Machine integers\<close>

type_synonym u8 = "8 word"
type_synonym u16 = "16 word"
type_synonym i64 = "64 word"

section \<open>Outcomes of a call\<close>

text \<open>
  \<open>Ok\<close> and \<open>Err\<close> are the two variants of Rust's \<open>Result\<close>. \<open>Crash\<close> is a call that does not
  return to its caller: a panic, by the kind of check that failed, or \<open>UndefinedBehaviour\<close>, an
  \<open>unsafe\<close> access to memory that was never written or lies outside its array.
\<close>

datatype fault =
    AssertFailed
  | IndexOutOfBounds
  | ArithmeticOverflow
  | ExpectFailed
  | UnwrapFailed
  | UnreachableReached
  | UndefinedBehaviour

datatype ('a, 'e) outcome = Ok 'a | Err 'e | Crash fault

text \<open>
  A call that returns a plain value, not a \<open>Result\<close>, but may panic: it never yields \<open>Err\<close>.
\<close>

type_synonym 'a panics = "('a, unit) outcome"

text \<open>The \<open>?\<close> operator and sequencing: an error or a panic skips the rest.\<close>

fun and_then :: "('a, 'e) outcome \<Rightarrow> ('a \<Rightarrow> ('b, 'e) outcome) \<Rightarrow> ('b, 'e) outcome" where
  "and_then (Ok x) f = f x"
| "and_then (Err e) f = Err e"
| "and_then (Crash p) f = Crash p"

lemma and_then_cong [fundef_cong]:
  "m = m' \<Longrightarrow> (\<And>x. m' = Ok x \<Longrightarrow> f x = g x) \<Longrightarrow> and_then m f = and_then m' g"
  by (cases m') simp_all

lemma and_then_eq_Ok_iff:
  "and_then m f = Ok y \<longleftrightarrow> (\<exists>x. m = Ok x \<and> f x = Ok y)"
  by (cases m) simp_all

lemma and_then_eq_Crash_iff:
  "and_then m f = Crash p \<longleftrightarrow> m = Crash p \<or> (\<exists>x. m = Ok x \<and> f x = Crash p)"
  by (cases m) simp_all

lemma case_list_eq_Ok_iff:
  "(case xs of [] \<Rightarrow> Err e | x # xs' \<Rightarrow> f x xs') = Ok y \<longleftrightarrow>
    (\<exists>x xs'. xs = x # xs' \<and> f x xs' = Ok y)"
  by (cases xs) simp_all

lemma and_then_assoc:
  "and_then (and_then m f) g = and_then m (\<lambda>x. and_then (f x) g)"
  by (cases m) simp_all

definition ok_or :: "'a option \<Rightarrow> 'e \<Rightarrow> ('a, 'e) outcome" where
  "ok_or x e = (case x of Some v \<Rightarrow> Ok v | None \<Rightarrow> Err e)"

definition expect :: "'a option \<Rightarrow> ('a, 'e) outcome" where
  "expect x = (case x of Some v \<Rightarrow> Ok v | None \<Rightarrow> Crash ExpectFailed)"

definition unwrap :: "('a, 'f) outcome \<Rightarrow> ('a, 'e) outcome" where
  "unwrap m = (case m of Ok v \<Rightarrow> Ok v | Err _ \<Rightarrow> Crash UnwrapFailed | Crash p \<Rightarrow> Crash p)"

definition assert :: "bool \<Rightarrow> (unit, 'e) outcome" where
  "assert b = (if b then Ok () else Crash AssertFailed)"

lemma ok_or_simps [simp]:
  "ok_or (Some v) e = Ok v"
  "ok_or None e = Err e"
  "ok_or x e \<noteq> Crash p"
  by (simp_all add: ok_or_def split: option.splits)

lemma expect_simps [simp]:
  "expect (Some v) = Ok v"
  "expect None = Crash ExpectFailed"
  by (simp_all add: expect_def)

lemma unwrap_simps [simp]:
  "unwrap (Ok v) = Ok v"
  "unwrap (Err e) = Crash UnwrapFailed"
  "unwrap (Crash p) = Crash p"
  by (simp_all add: unwrap_def)

lemma assert_simps [simp]:
  "b \<Longrightarrow> assert b = Ok ()"
  "\<not> b \<Longrightarrow> assert b = Crash AssertFailed"
  by (simp_all add: assert_def)

text \<open>The predicate "the call panics or is undefined", and the value of a call that returned.\<close>

fun crashes :: "('a, 'e) outcome \<Rightarrow> bool" where
  "crashes (Crash _) = True"
| "crashes _ = False"

lemma crashes_iff: "crashes m \<longleftrightarrow> (\<exists>p. m = Crash p)"
  by (cases m) simp_all

lemma crashes_and_then:
  "crashes (and_then m f) \<longleftrightarrow> crashes m \<or> (\<exists>x. m = Ok x \<and> crashes (f x))"
  by (cases m) simp_all

section \<open>Checked arithmetic\<close>

text \<open>
  \<open>usize\<close> and \<open>u32\<close> values are natural numbers below \<open>2 ^ 64\<close> and \<open>2 ^ 32\<close>; \<open>+\<close> and \<open>-\<close> panic
  where Rust's checked operators do.
\<close>

definition usize_add :: "nat \<Rightarrow> nat \<Rightarrow> (nat, 'e) outcome" where
  "usize_add a b = (if int (a + b) < 2 ^ 64 then Ok (a + b) else Crash ArithmeticOverflow)"

definition usize_sub :: "nat \<Rightarrow> nat \<Rightarrow> (nat, 'e) outcome" where
  "usize_sub a b = (if b \<le> a then Ok (a - b) else Crash ArithmeticOverflow)"

definition u32_add :: "nat \<Rightarrow> nat \<Rightarrow> (nat, 'e) outcome" where
  "u32_add a b = (if int (a + b) < 2 ^ 32 then Ok (a + b) else Crash ArithmeticOverflow)"

definition u32_sub :: "nat \<Rightarrow> nat \<Rightarrow> (nat, 'e) outcome" where
  "u32_sub a b = (if b \<le> a then Ok (a - b) else Crash ArithmeticOverflow)"

lemma checked_sub_simps [simp]:
  "b \<le> a \<Longrightarrow> usize_sub a b = Ok (a - b)"
  "b \<le> a \<Longrightarrow> u32_sub a b = Ok (a - b)"
  by (simp_all add: usize_sub_def u32_sub_def)

lemma checked_add_simps [simp]:
  "a + b < 2 ^ 64 \<Longrightarrow> usize_add a b = Ok (a + b)"
  "a + b < 2 ^ 32 \<Longrightarrow> u32_add a b = Ok (a + b)"
  by (simp_all add: usize_add_def u32_add_def)

text \<open>\<open>i64::checked_mul\<close>, \<open>checked_add\<close>, \<open>checked_sub\<close>: \<open>None\<close> when the exact result does not fit.\<close>

definition in_i64 :: "int \<Rightarrow> bool" where
  "in_i64 x \<longleftrightarrow> - (2 ^ 63) \<le> x \<and> x < 2 ^ 63"

definition checked_mul :: "i64 \<Rightarrow> i64 \<Rightarrow> i64 option" where
  "checked_mul a b = (if in_i64 (sint a * sint b) then Some (a * b) else None)"

definition checked_add :: "i64 \<Rightarrow> i64 \<Rightarrow> i64 option" where
  "checked_add a b = (if in_i64 (sint a + sint b) then Some (a + b) else None)"

definition checked_sub :: "i64 \<Rightarrow> i64 \<Rightarrow> i64 option" where
  "checked_sub a b = (if in_i64 (sint a - sint b) then Some (a - b) else None)"

lemma sint_of_int_i64: "in_i64 x \<Longrightarrow> sint (word_of_int x :: i64) = x"
  by (simp add: in_i64_def sint_sbintrunc' signed_take_bit_int_eq_self)

lemma in_i64_sint [simp]: "in_i64 (sint (w :: i64))"
  using sint_range_size [of w] by (simp add: in_i64_def word_size)

lemma checked_i64_of_int:
  assumes "in_i64 x" "in_i64 y"
  shows "checked_mul (word_of_int x) (word_of_int y) =
      (if in_i64 (x * y) then Some (word_of_int (x * y)) else None)"
    and "checked_add (word_of_int x) (word_of_int y) =
      (if in_i64 (x + y) then Some (word_of_int (x + y)) else None)"
    and "checked_sub (word_of_int x) (word_of_int y) =
      (if in_i64 (x - y) then Some (word_of_int (x - y)) else None)"
  using assms
  by (simp_all add: checked_mul_def checked_add_def checked_sub_def sint_of_int_i64
      wi_hom_syms)

section \<open>Slices\<close>

text \<open>Indexing and slicing panic out of range.\<close>

definition index_at :: "'a list \<Rightarrow> nat \<Rightarrow> ('a, 'e) outcome" where
  "index_at xs i = (if i < length xs then Ok (xs ! i) else Crash IndexOutOfBounds)"

definition slice_from :: "'a list \<Rightarrow> nat \<Rightarrow> ('a list, 'e) outcome" where
  "slice_from xs i = (if i \<le> length xs then Ok (drop i xs) else Crash IndexOutOfBounds)"

definition slice_to :: "'a list \<Rightarrow> nat \<Rightarrow> ('a list, 'e) outcome" where
  "slice_to xs n = (if n \<le> length xs then Ok (take n xs) else Crash IndexOutOfBounds)"

lemma slice_simps [simp]:
  "i < length xs \<Longrightarrow> index_at xs i = Ok (xs ! i)"
  "i \<le> length xs \<Longrightarrow> slice_from xs i = Ok (drop i xs)"
  "n \<le> length xs \<Longrightarrow> slice_to xs n = Ok (take n xs)"
  by (simp_all add: index_at_def slice_from_def slice_to_def)

section \<open>Byte strings\<close>

text \<open>\<open>b'x'\<close> and \<open>b"..."\<close>: the ASCII codes of the characters.\<close>

definition byte :: "char \<Rightarrow> u8" where
  "byte c = of_char c"

definition bytes :: "string \<Rightarrow> u8 list" where
  "bytes s = map byte s"

definition is_ascii_digit :: "u8 \<Rightarrow> bool" where
  "is_ascii_digit b \<longleftrightarrow> byte CHR ''0'' \<le> b \<and> b \<le> byte CHR ''9''"

lemma unat_lt_256: "unat b < 256" for b :: u8
  using unsigned_less [of b] by simp

lemma length_bytes [simp]: "length (bytes s) = length s"
  by (simp add: bytes_def)

section \<open>Searching lists\<close>

text \<open>\<open>Iterator::position\<close>: the index of the first element that satisfies the predicate.\<close>

fun iter_position :: "('a \<Rightarrow> bool) \<Rightarrow> 'a list \<Rightarrow> nat option" where
  "iter_position P [] = None"
| "iter_position P (x # xs) = (if P x then Some 0 else map_option Suc (iter_position P xs))"

lemma iter_position_None_iff: "iter_position P xs = None \<longleftrightarrow> (\<forall>x \<in> set xs. \<not> P x)"
  by (induction xs) auto

lemma iter_position_SomeD:
  "iter_position P xs = Some i \<Longrightarrow> i < length xs \<and> P (xs ! i) \<and> (\<forall>j < i. \<not> P (xs ! j))"
proof (induction xs arbitrary: i)
  case Nil
  then show ?case by simp
next
  case (Cons x xs)
  then show ?case
    by (auto simp: nth_Cons split: if_splits nat.splits)
qed

lemma iter_position_SomeI:
  "i < length xs \<Longrightarrow> P (xs ! i) \<Longrightarrow> (\<And>j. j < i \<Longrightarrow> \<not> P (xs ! j)) \<Longrightarrow> iter_position P xs = Some i"
proof (induction xs arbitrary: i)
  case Nil
  then show ?case by simp
next
  case (Cons x xs)
  show ?case
  proof (cases i)
    case 0
    with Cons.prems show ?thesis by simp
  next
    case (Suc k)
    have "iter_position P xs = Some k"
      using Cons.prems Suc by (intro Cons.IH) fastforce+
    moreover have "\<not> P x" using Cons.prems(3) [of 0] Suc by simp
    ultimately show ?thesis using Suc by simp
  qed
qed

end
