(* ===== verification/Ordered_Map.thy ===== *)
theory Ordered_Map
  imports Prelude "HOL-Library.List_Lexorder"
begin

text \<open>
  \<open>std::collections::BTreeMap\<close> as the code uses it: \<open>new\<close>, \<open>insert\<close>, \<open>get\<close>, \<open>remove\<close> and
  iteration in ascending key order. A map is its iteration, an association list whose keys
  strictly ascend; keys of type \<open>Vec<u8>\<close> are compared lexicographically, byte by byte
  (List_Lexorder on \<open>u8 list\<close>). The two locales state the contract the clients rely on, and
  the interpretations at the end discharge it for the model.
\<close>

section \<open>The map contract\<close>

locale dict =
  fixes empty :: "'m"
    and insert :: "'k \<Rightarrow> 'v \<Rightarrow> 'm \<Rightarrow> 'm"
    and get :: "'m \<Rightarrow> 'k \<Rightarrow> 'v option"
    and remove :: "'k \<Rightarrow> 'm \<Rightarrow> 'v option \<times> 'm"
    and invar :: "'m \<Rightarrow> bool"
  assumes invar_empty: "invar empty"
    and invar_insert: "invar m \<Longrightarrow> invar (insert k v m)"
    and invar_remove: "invar m \<Longrightarrow> invar (snd (remove k m))"
    and get_empty: "get empty k = None"
    and get_insert: "invar m \<Longrightarrow> get (insert k v m) k' = (if k' = k then Some v else get m k')"
    and remove_value: "invar m \<Longrightarrow> fst (remove k m) = get m k"
    and get_remove: "invar m \<Longrightarrow> get (snd (remove k m)) k' = (if k' = k then None else get m k')"
begin

text \<open>A run of insertions, the last binding of a key wins.\<close>

lemma invar_insert_all:
  "invar m \<Longrightarrow> invar (foldl (\<lambda>m (k, v). insert k v m) m kvs)"
  by (induction kvs arbitrary: m) (auto simp: invar_insert)

lemma get_insert_all:
  "invar m \<Longrightarrow> get (foldl (\<lambda>m (k, v). insert k v m) m kvs) k =
    (case map_of (rev kvs) k of Some v \<Rightarrow> Some v | None \<Rightarrow> get m k)"
proof (induction kvs arbitrary: m)
  case Nil
  then show ?case by simp
next
  case (Cons kv kvs)
  obtain k' v' where kv: "kv = (k', v')" by (cases kv)
  have "get (foldl (\<lambda>m (k, v). insert k v m) (insert k' v' m) kvs) k =
      (case map_of (rev kvs) k of Some v \<Rightarrow> Some v | None \<Rightarrow> get (insert k' v' m) k)"
    using Cons.prems by (intro Cons.IH invar_insert)
  with Cons.prems show ?case
    by (auto simp: kv get_insert map_add_def split: option.splits)
qed

lemma remove_other: "invar m \<Longrightarrow> k' \<noteq> k \<Longrightarrow> get (snd (remove k m)) k' = get m k'"
  by (simp add: get_remove)

end

text \<open>A map that also iterates in ascending key order.\<close>

locale ordered_dict = dict empty insert get remove invar
  for empty :: "'m"
    and insert :: "'k :: linorder \<Rightarrow> 'v \<Rightarrow> 'm \<Rightarrow> 'm"
    and get :: "'m \<Rightarrow> 'k \<Rightarrow> 'v option"
    and remove :: "'k \<Rightarrow> 'm \<Rightarrow> 'v option \<times> 'm"
    and invar :: "'m \<Rightarrow> bool" +
  fixes items :: "'m \<Rightarrow> ('k \<times> 'v) list"
  assumes items_ascending: "invar m \<Longrightarrow> sorted_wrt (<) (map fst (items m))"
    and get_items: "invar m \<Longrightarrow> get m k = map_of (items m) k"
begin

lemma items_distinct: "invar m \<Longrightarrow> distinct (map fst (items m))"
  using items_ascending strict_sorted_iff by blast

lemma items_iff: "invar m \<Longrightarrow> (k, v) \<in> set (items m) \<longleftrightarrow> get m k = Some v"
  by (simp add: get_items items_distinct map_of_eq_Some_iff)

text \<open>
  Iteration is determined by the contents: two maps with the same bindings iterate alike,
  whatever order the bindings were made in.
\<close>

lemma items_determined:
  assumes "invar m" "invar m'" and "\<And>k. get m k = get m' k"
  shows "items m = items m'"
proof (rule map_sorted_distinct_set_unique [where f = fst])
  have "set (items m) = set (items m')"
    using assms by (auto simp: items_iff)
  moreover have "inj_on fst (set (items m))"
    using assms(1) items_distinct by (simp add: distinct_map)
  ultimately show "inj_on fst (set (items m) \<union> set (items m'))" and
    "set (items m) = set (items m')"
    by simp_all
qed (use assms items_ascending strict_sorted_iff in blast)+

end

section \<open>The model of BTreeMap\<close>

type_synonym ('k, 'v) btree_map = "('k \<times> 'v) list"

definition ascending :: "('k :: linorder, 'v) btree_map \<Rightarrow> bool" where
  "ascending m \<longleftrightarrow> sorted_wrt (<) (map fst m)"

fun bt_insert :: "'k :: linorder \<Rightarrow> 'v \<Rightarrow> ('k, 'v) btree_map \<Rightarrow> ('k, 'v) btree_map" where
  "bt_insert k v [] = [(k, v)]"
| "bt_insert k v ((k', v') # m) =
     (if k < k' then (k, v) # (k', v') # m
      else if k = k' then (k, v) # m
      else (k', v') # bt_insert k v m)"

definition bt_get :: "('k, 'v) btree_map \<Rightarrow> 'k \<Rightarrow> 'v option" where
  "bt_get m k = map_of m k"

definition bt_remove :: "'k \<Rightarrow> ('k, 'v) btree_map \<Rightarrow> 'v option \<times> ('k, 'v) btree_map" where
  "bt_remove k m = (map_of m k, filter (\<lambda>(k', _). k' \<noteq> k) m)"

lemma ascending_Nil [simp]: "ascending []"
  by (simp add: ascending_def)

lemma ascending_Cons:
  "ascending ((k, v) # m) \<longleftrightarrow> (\<forall>k' \<in> fst ` set m. k < k') \<and> ascending m"
  by (simp add: ascending_def)

lemma keys_bt_insert: "fst ` set (bt_insert k v m) = insert k (fst ` set m)"
  by (induction k v m rule: bt_insert.induct) auto

lemma values_bt_insert: "snd ` set (bt_insert k v m) \<subseteq> insert v (snd ` set m)"
  by (induction k v m rule: bt_insert.induct) auto

lemma ascending_bt_insert: "ascending m \<Longrightarrow> ascending (bt_insert k v m)"
  by (induction k v m rule: bt_insert.induct)
    (auto simp: ascending_Cons keys_bt_insert dest: order.strict_trans)

lemma ascending_bt_remove: "ascending m \<Longrightarrow> ascending (snd (bt_remove k m))"
  by (auto simp: ascending_def bt_remove_def sorted_wrt_map intro: sorted_wrt_filter)

lemma map_of_bt_insert: "map_of (bt_insert k v m) k' = (if k' = k then Some v else map_of m k')"
  by (induction k v m rule: bt_insert.induct) auto

lemma map_of_bt_remove: "map_of (snd (bt_remove k m)) k' = (if k' = k then None else map_of m k')"
  unfolding bt_remove_def by (induction m) auto

text \<open>Inserting past the last key appends: the decoder's loop on a canonical dictionary.\<close>

lemma bt_insert_last:
  "\<forall>k' \<in> fst ` set m. k' < k \<Longrightarrow> bt_insert k v m = m @ [(k, v)]"
  by (induction k v m rule: bt_insert.induct) auto

lemma foldl_bt_insert_ascending:
  "ascending (m @ es) \<Longrightarrow> foldl (\<lambda>m (k, v). bt_insert k v m) m es = m @ es"
proof (induction es arbitrary: m)
  case Nil
  then show ?case by simp
next
  case (Cons e es)
  obtain k v where e: "e = (k, v)" by (cases e)
  have "bt_insert k v m = m @ [(k, v)]"
    using Cons.prems by (intro bt_insert_last) (auto simp: e ascending_def sorted_wrt_append)
  with Cons.IH [of "m @ [e]"] Cons.prems show ?case by (simp add: e)
qed

interpretation btree: dict "[]" bt_insert bt_get bt_remove ascending
  by unfold_locales
    (auto simp: ascending_bt_insert ascending_bt_remove bt_get_def map_of_bt_insert
      map_of_bt_remove, auto simp: bt_remove_def)

interpretation btree: ordered_dict "[]" bt_insert bt_get bt_remove ascending "\<lambda>m. m"
  by unfold_locales (auto simp: ascending_def bt_get_def)

end
