(* ===== verification/Bencode.thy ===== *)
theory Bencode
  imports Ordered_Map
begin

text \<open>
  The data model and the encoder of \<open>rust/src/bencode.rs\<close>: the enum \<open>Bencode\<close>, the \<open>Dict\<close>
  alias, and \<open>Bencode::encode\<close>. A \<open>Dict\<close> is a BTreeMap, so a value that the program can
  build has ascending keys at every level (\<open>wf_bencode\<close>).
\<close>

section \<open>Values\<close>

datatype bencode =
    Bytes "u8 list"
  | Integer i64
  | List "bencode list"
  | Dict "(u8 list \<times> bencode) list"

type_synonym dict = "(u8 list, bencode) btree_map"

text \<open>
  The type invariant: the representation invariant of every BTreeMap in the value, and the
  limit \<open>isize::MAX\<close> that Rust puts on the size of a \<open>Vec\<close>.
\<close>

definition wf_bytes :: "u8 list \<Rightarrow> bool" where
  "wf_bytes v \<longleftrightarrow> int (length v) < 2 ^ 63"

lemma wf_bytes_shorter: "length s \<le> length t \<Longrightarrow> wf_bytes t \<Longrightarrow> wf_bytes s"
  by (simp add: wf_bytes_def)

fun wf_bencode :: "bencode \<Rightarrow> bool" where
  "wf_bencode (Bytes v) = wf_bytes v"
| "wf_bencode (Integer i) = True"
| "wf_bencode (List vs) = list_all wf_bencode vs"
| "wf_bencode (Dict m) = (ascending m \<and> list_all (\<lambda>(k, v). wf_bytes k \<and> wf_bencode v) m)"

section \<open>Decimal numerals\<close>

text \<open>\<open>to_string\<close> of \<open>usize\<close> and \<open>i64\<close>: no leading zeros, a minus sign on negative values.\<close>

definition digit :: "nat \<Rightarrow> u8" where
  "digit d = byte CHR ''0'' + of_nat d"

fun nat_to_string :: "nat \<Rightarrow> u8 list" where
  "nat_to_string n =
     (if n < 10 then [digit n] else nat_to_string (n div 10) @ [digit (n mod 10)])"

declare nat_to_string.simps [simp del]

definition i64_to_string :: "i64 \<Rightarrow> u8 list" where
  "i64_to_string i =
     (if sint i < 0 then byte CHR ''-'' # nat_to_string (nat (- sint i))
      else nat_to_string (nat (sint i)))"

definition digit_value :: "u8 \<Rightarrow> nat" where
  "digit_value b = unat (b - byte CHR ''0'')"

text \<open>The number a string of digits denotes.\<close>

definition numeral_value :: "u8 list \<Rightarrow> nat" where
  "numeral_value ds = foldl (\<lambda>n b. 10 * n + digit_value b) 0 ds"

lemma byte_values:
  "byte CHR ''0'' = 48" "byte CHR ''9'' = 57" "byte CHR '':'' = 58" "byte CHR ''-'' = 45"
  "byte CHR ''+'' = 43" "byte CHR ''i'' = 105" "byte CHR ''e'' = 101" "byte CHR ''l'' = 108"
  "byte CHR ''d'' = 100"
  by (simp_all add: byte_def)

lemma unat_digit: "d < 10 \<Longrightarrow> unat (digit d) = 48 + d"
  by (simp add: digit_def byte_values unat_word_ariths unat_of_nat take_bit_nat_eq_self)

lemma is_digit_digit [simp]: "d < 10 \<Longrightarrow> is_ascii_digit (digit d)"
  by (simp add: is_ascii_digit_def byte_values word_le_nat_alt unat_digit)

lemma digit_value_digit [simp]: "d < 10 \<Longrightarrow> digit_value (digit d) = d"
  by (simp add: digit_def digit_value_def unat_of_nat take_bit_nat_eq_self)

lemma digit_value_less: "is_ascii_digit b \<Longrightarrow> digit_value b < 10"
  by (simp add: is_ascii_digit_def digit_value_def byte_values word_le_nat_alt unat_sub) linarith

lemma numeral_value_snoc [simp]:
  "numeral_value (ds @ [b]) = 10 * numeral_value ds + digit_value b"
  by (simp add: numeral_value_def)

lemma numeral_value_Nil [simp]: "numeral_value [] = 0"
  by (simp add: numeral_value_def)

lemma nat_to_string_nonempty [simp]: "nat_to_string n \<noteq> []"
  by (subst nat_to_string.simps) simp

lemma nat_to_string_digits: "list_all is_ascii_digit (nat_to_string n)"
proof (induction n rule: nat_to_string.induct)
  case (1 n)
  then show ?case by (cases "n < 10") (simp_all add: nat_to_string.simps [of n])
qed

lemma numeral_value_nat_to_string [simp]: "numeral_value (nat_to_string n) = n"
proof (induction n rule: nat_to_string.induct)
  case (1 n)
  show ?case
  proof (cases "n < 10")
    case True
    then show ?thesis
      using numeral_value_snoc [of "[]" "digit n"] by (simp add: nat_to_string.simps [of n])
  next
    case False
    with 1 have "numeral_value (nat_to_string (n div 10)) = n div 10" by simp
    with False show ?thesis by (simp add: nat_to_string.simps [of n])
  qed
qed

lemma hd_nat_to_string: "is_ascii_digit (hd (nat_to_string n))"
  using nat_to_string_digits [of n] nat_to_string_nonempty [of n]
  by (metis list_all_iff list.set_sel(1))

lemma takeWhile_digits:
  assumes "list_all is_ascii_digit ds" "rest = [] \<or> \<not> is_ascii_digit (hd rest)"
  shows "takeWhile is_ascii_digit (ds @ rest) = ds"
proof -
  have "takeWhile is_ascii_digit rest = []" using assms(2) by (cases rest) auto
  with assms(1) show ?thesis by (simp add: takeWhile_append2 list_all_iff)
qed

lemma dropWhile_digits:
  assumes "list_all is_ascii_digit ds" "rest = [] \<or> \<not> is_ascii_digit (hd rest)"
  shows "dropWhile is_ascii_digit (ds @ rest) = rest"
proof -
  have "dropWhile is_ascii_digit rest = rest" using assms(2) by (cases rest) auto
  with assms(1) show ?thesis by (simp add: dropWhile_append2 list_all_iff)
qed

section \<open>The encoder\<close>

definition encode_bytes :: "u8 list \<Rightarrow> u8 list" where
  "encode_bytes v = nat_to_string (length v) @ [byte CHR '':''] @ v"

fun encode :: "bencode \<Rightarrow> u8 list" where
  "encode (Bytes v) = encode_bytes v"
| "encode (Integer i) = [byte CHR ''i''] @ i64_to_string i @ [byte CHR ''e'']"
| "encode (List values) =
     [byte CHR ''l''] @ concat (map encode values) @ [byte CHR ''e'']"
| "encode (Dict m) =
     [byte CHR ''d''] @ concat (map (\<lambda>(k, v). encode_bytes k @ encode v) m) @ [byte CHR ''e'']"

lemma encode_bytes_nonempty [simp]: "encode_bytes v \<noteq> []"
  by (simp add: encode_bytes_def)

lemma encode_nonempty [simp]: "encode v \<noteq> []"
  by (cases v) simp_all

lemma hd_encode_bytes: "is_ascii_digit (hd (encode_bytes v))"
  by (simp add: encode_bytes_def hd_nat_to_string)

text \<open>No encoding starts with the terminator \<open>e\<close>, so a list or dictionary ends where it should.\<close>

lemma hd_encode_bytes_not_e: "hd (encode_bytes v) \<noteq> byte CHR ''e''"
  using hd_encode_bytes [of v] by (auto simp: is_ascii_digit_def byte_values)

lemma hd_encode_not_e: "hd (encode v) \<noteq> byte CHR ''e''"
  by (cases v) (simp_all add: hd_encode_bytes_not_e, simp_all add: byte_values)

end
