(* ===== verification/Bencode_Decode.thy ===== *)
theory Bencode_Decode
  imports Bencode
begin

text \<open>
  The decoder of \<open>rust/src/bencode.rs\<close>: \<open>Cursor\<close>, \<open>Decoder\<close> and \<open>Bencode::decode\<close>. A
  \<open>&mut self\<close> method takes the cursor and returns its value with the cursor it leaves. The
  struct \<open>Decoder\<close> holds nothing but its cursor, so the cursor is the decoder's state. The
  mutual recursion of the five decoding functions is total: \<open>left\<close>, the number of unread
  bytes, shrinks with every value read.
\<close>

datatype decoder_error =
    EndOfStream
  | OversizedInteger
  | ExpectedInteger
  | ExpectedIntegerStart
  | ExpectedIntegerEnd
  | ExpectedStringStart
  | ExpectedListStart
  | ExpectedDictStart
  | ExpectedStringKey
  | InvalidStringSize
  | UnexpectedStartOfValue

type_synonym 'a decoded = "('a, decoder_error) outcome"

section \<open>Cursor\<close>

record cursor =
  cur_data :: "u8 list"
  cur_position :: nat

definition cursor_new :: "u8 list \<Rightarrow> cursor" where
  "cursor_new d = \<lparr>cur_data = d, cur_position = 0\<rparr>"

definition remaining :: "cursor \<Rightarrow> nat decoded" where
  "remaining c = usize_sub (length (cur_data c)) (cur_position c)"

definition peek_byte :: "cursor \<Rightarrow> u8 decoded" where
  "peek_byte c = and_then (remaining c) (\<lambda>r.
     if r = 0 then Err EndOfStream else index_at (cur_data c) (cur_position c))"

definition advance :: "cursor \<Rightarrow> nat \<Rightarrow> cursor decoded" where
  "advance c count = and_then (remaining c) (\<lambda>r.
     and_then (usize_add (cur_position c) (min count r)) (\<lambda>p. Ok (c\<lparr>cur_position := p\<rparr>)))"

text \<open>
  \<open>take_byte\<close> keeps the peeked result and advances: at the end of the stream it advances by
  \<open>min 1 0\<close>, so the error leaves the cursor where it was.
\<close>

definition take_byte :: "cursor \<Rightarrow> (u8 \<times> cursor) decoded" where
  "take_byte c = and_then (peek_byte c) (\<lambda>b. and_then (advance c 1) (\<lambda>c'. Ok (b, c')))"

definition get_slice :: "cursor \<Rightarrow> u8 list decoded" where
  "get_slice c = slice_from (cur_data c) (cur_position c)"

text \<open>
  The cursor's invariant: the position is within the data, and the data is a slice, whose
  size Rust limits to \<open>isize::MAX\<close>.
\<close>

definition wf_cursor :: "cursor \<Rightarrow> bool" where
  "wf_cursor c \<longleftrightarrow> cur_position c \<le> length (cur_data c) \<and> wf_bytes (cur_data c)"

text \<open>The unread bytes, their number, and the cursor \<open>n\<close> bytes further on.\<close>

definition suffix :: "cursor \<Rightarrow> u8 list" where
  "suffix c = drop (cur_position c) (cur_data c)"

definition left :: "cursor \<Rightarrow> nat" where
  "left c = length (cur_data c) - cur_position c"

definition moved :: "cursor \<Rightarrow> nat \<Rightarrow> cursor" where
  "moved c n = c\<lparr>cur_position := cur_position c + n\<rparr>"

lemma wf_cursor_new [simp]: "wf_bytes d \<Longrightarrow> wf_cursor (cursor_new d)"
  by (simp add: wf_cursor_def cursor_new_def)

lemma suffix_cursor_new [simp]: "suffix (cursor_new d) = d"
  by (simp add: suffix_def cursor_new_def)

lemma length_suffix [simp]: "length (suffix c) = left c"
  by (simp add: suffix_def left_def)

lemma suffix_moved [simp]: "suffix (moved c n) = drop n (suffix c)"
  by (simp add: suffix_def moved_def add.commute)

lemma left_moved [simp]: "left (moved c n) = left c - n"
  by (simp add: left_def moved_def)

lemma moved_moved [simp]: "moved (moved c m) n = moved c (m + n)"
  by (simp add: moved_def)

lemma moved_0 [simp]: "moved c 0 = c"
  by (simp add: moved_def)

lemma wf_cursor_moved: "wf_cursor c \<Longrightarrow> n \<le> left c \<Longrightarrow> wf_cursor (moved c n)"
  by (auto simp: wf_cursor_def moved_def left_def)

text \<open>The operations in terms of the unread bytes.\<close>

lemma remaining_eq: "wf_cursor c \<Longrightarrow> remaining c = Ok (left c)"
  by (simp add: remaining_def left_def wf_cursor_def)

lemma peek_byte_eq:
  assumes "wf_cursor c"
  shows "peek_byte c = (case suffix c of [] \<Rightarrow> Err EndOfStream | b # _ \<Rightarrow> Ok b)"
proof (cases "suffix c")
  case Nil
  then have "left c = 0" by (metis length_suffix list.size(3))
  with assms Nil show ?thesis by (simp add: peek_byte_def remaining_eq)
next
  case (Cons b s)
  then have "0 < left c" by (metis length_suffix length_greater_0_conv list.distinct(1))
  moreover from this have "cur_data c ! cur_position c = b"
    using Cons by (simp add: suffix_def left_def hd_drop_conv_nth [symmetric])
  ultimately show ?thesis
    using assms Cons by (simp add: peek_byte_def remaining_eq left_def)
qed

lemma advance_eq: "wf_cursor c \<Longrightarrow> advance c n = Ok (moved c (min n (left c)))"
  by (auto simp: advance_def remaining_eq moved_def wf_cursor_def wf_bytes_def left_def
      usize_add_def)

lemma take_byte_eq:
  assumes "wf_cursor c"
  shows "take_byte c = (case suffix c of [] \<Rightarrow> Err EndOfStream | b # _ \<Rightarrow> Ok (b, moved c 1))"
proof -
  have "suffix c \<noteq> [] \<Longrightarrow> min 1 (left c) = 1"
    by (metis One_nat_def Suc_leI length_greater_0_conv length_suffix min.absorb1)
  then show ?thesis
    using assms by (auto simp: take_byte_def peek_byte_eq advance_eq split: list.split)
qed

lemma get_slice_eq: "wf_cursor c \<Longrightarrow> get_slice c = Ok (suffix c)"
  by (simp add: get_slice_def wf_cursor_def suffix_def)

lemmas cursor_ops = remaining_eq peek_byte_eq advance_eq take_byte_eq get_slice_eq

lemma take_byte_left: "take_byte c = Ok (b, c') \<Longrightarrow> left c' < left c"
  by (auto simp: take_byte_def and_then_eq_Ok_iff peek_byte_def advance_def remaining_def
      usize_sub_def usize_add_def left_def split: if_splits)

section \<open>Integers and byte strings\<close>

text \<open>One digit of the loop in \<open>parse_int\<close>: negative numbers are built downwards.\<close>

definition push_digit :: "bool \<Rightarrow> i64 \<Rightarrow> u8 \<Rightarrow> i64 decoded" where
  "push_digit is_negative result b =
     (let current_digit = ucast (b - byte CHR ''0'') :: i64 in
      and_then (ok_or (checked_mul result 10) OversizedInteger) (\<lambda>result.
        if is_negative
        then ok_or (checked_sub result current_digit) OversizedInteger
        else ok_or (checked_add result current_digit) OversizedInteger))"

function parse_digits :: "bool \<Rightarrow> i64 \<Rightarrow> cursor \<Rightarrow> (i64 \<times> cursor) decoded" where
  "parse_digits is_negative result c =
     and_then (remaining c) (\<lambda>r. if \<not> r > 0 then Ok (result, c) else
     and_then (peek_byte c) (\<lambda>b. if \<not> is_ascii_digit b then Ok (result, c) else
     and_then (take_byte c) (\<lambda>(b, c).
     and_then (push_digit is_negative result b) (\<lambda>result.
       parse_digits is_negative result c))))"
  by pat_completeness auto
termination
  by (relation "measure (\<lambda>(_, _, c). left c)") (auto dest: take_byte_left)

declare parse_digits.simps [simp del]

text \<open>\<open>parse_int\<close> reads an optional sign (\<open>parse_sign\<close>), then at least one digit.\<close>

definition parse_sign :: "cursor \<Rightarrow> (bool \<times> cursor) decoded" where
  "parse_sign c =
     and_then (peek_byte c) (\<lambda>b.
       if b = byte CHR ''-'' then and_then (advance c 1) (\<lambda>c. Ok (True, c))
       else if b = byte CHR ''+'' then and_then (advance c 1) (\<lambda>c. Ok (False, c))
       else Ok (False, c))"

definition parse_int :: "cursor \<Rightarrow> (i64 \<times> cursor) decoded" where
  "parse_int c =
     and_then (parse_sign c) (\<lambda>(is_negative, c).
     and_then (peek_byte c) (\<lambda>b.
       if \<not> is_ascii_digit b then Err ExpectedInteger
       else parse_digits is_negative 0 c))"

definition decode_int :: "cursor \<Rightarrow> (bencode \<times> cursor) decoded" where
  "decode_int c =
     and_then (take_byte c) (\<lambda>(b, c). if b \<noteq> byte CHR ''i'' then Err ExpectedIntegerStart else
     and_then (parse_int c) (\<lambda>(integer, c).
     and_then (take_byte c) (\<lambda>(b, c). if b \<noteq> byte CHR ''e'' then Err ExpectedIntegerEnd else
     Ok (Integer integer, c))))"

text \<open>
  \<open>as usize\<close> keeps the 64 bits of an \<open>i64\<close>, so the length is the same word read as unsigned
  (\<open>uint\<close>, \<open>unat\<close>): a negative length becomes a huge one.
\<close>

definition decode_bytestring :: "cursor \<Rightarrow> (bencode \<times> cursor) decoded" where
  "decode_bytestring c =
     and_then (parse_int c) (\<lambda>(string_size, c).
     and_then (take_byte c) (\<lambda>(b, c). if b \<noteq> byte CHR '':'' then Err ExpectedStringStart else
     and_then (remaining c) (\<lambda>r. if int r < uint string_size then Err InvalidStringSize else
     and_then (get_slice c) (\<lambda>s.
     and_then (slice_to s (unat string_size)) (\<lambda>bs.
     and_then (advance c (unat string_size)) (\<lambda>c. Ok (Bytes bs, c)))))))"

lemma int_less_uint_iff: "int n < uint w \<longleftrightarrow> n < unat w"
  using of_nat_less_iff [of n "unat w", where 'a = int] by simp

section \<open>Progress\<close>

text \<open>The cursor \<open>c'\<close> is \<open>c\<close> moved on by at least \<open>k\<close> bytes, within the data.\<close>

definition steps :: "nat \<Rightarrow> cursor \<Rightarrow> cursor \<Rightarrow> bool" where
  "steps k c c' \<longleftrightarrow> (\<exists>n. k \<le> n \<and> n \<le> left c \<and> c' = moved c n)"

lemma stepsI: "k \<le> n \<Longrightarrow> n \<le> left c \<Longrightarrow> c' = moved c n \<Longrightarrow> steps k c c'"
  by (auto simp: steps_def)

lemma steps_refl [simp]: "steps 0 c c"
  unfolding steps_def by (rule exI [of _ 0]) simp

lemma steps_trans:
  assumes "steps j c c'" "steps k c' c''"
  shows "steps (j + k) c c''"
proof -
  obtain m n where "j \<le> m" "m \<le> left c" "c' = moved c m" "k \<le> n" "n \<le> left c'" "c'' = moved c' n"
    using assms by (auto simp: steps_def)
  then have "j + k \<le> m + n" "m + n \<le> left c" "c'' = moved c (m + n)" by auto
  then show ?thesis unfolding steps_def by blast
qed

lemma steps_weaken: "steps k c c' \<Longrightarrow> j \<le> k \<Longrightarrow> steps j c c'"
  unfolding steps_def using le_trans by blast

lemma steps_left: "steps k c c' \<Longrightarrow> left c' + k \<le> left c"
  by (auto simp: steps_def)

lemma steps_wf: "steps k c c' \<Longrightarrow> wf_cursor c \<Longrightarrow> wf_cursor c'"
  by (auto simp: steps_def wf_cursor_moved)

lemma advance_steps: "advance c n = Ok c' \<Longrightarrow> steps 0 c c'"
  by (rule stepsI [where n = "min n (left c)"])
    (auto simp: advance_def and_then_eq_Ok_iff remaining_def usize_sub_def usize_add_def
      moved_def left_def split: if_splits)

lemma take_byte_steps: "take_byte c = Ok (b, c') \<Longrightarrow> steps 1 c c'"
  by (rule stepsI [where n = 1])
    (auto simp: take_byte_def and_then_eq_Ok_iff peek_byte_def advance_def remaining_def
      usize_sub_def usize_add_def moved_def left_def split: if_splits)

lemma parse_digits_steps: "parse_digits neg i c = Ok (j, c') \<Longrightarrow> steps 0 c c'"
proof (induction neg i c rule: parse_digits.induct)
  case (1 neg i c)
  from "1.prems" consider "c' = c" |
    r e b d i2 where "remaining c = Ok r" "0 < r" "peek_byte c = Ok e" "is_ascii_digit e"
      "take_byte c = Ok (b, d)" "push_digit neg i b = Ok i2" "parse_digits neg i2 d = Ok (j, c')"
    by (auto simp: parse_digits.simps [of neg i c] and_then_eq_Ok_iff split: if_splits)
  then show ?case
  proof cases
    case 1
    then show ?thesis by simp
  next
    case 2
    then have "steps 0 d c'"
      by (intro "1.IH") auto
    then show ?thesis
      by (rule steps_weaken [OF steps_trans [OF take_byte_steps [OF 2(5)]]]) simp
  qed
qed

lemma parse_int_steps: "parse_int c = Ok (j, c') \<Longrightarrow> steps 0 c c'"
  by (auto simp: parse_int_def parse_sign_def and_then_eq_Ok_iff split: if_splits
      dest!: advance_steps parse_digits_steps dest: steps_trans)

lemma decode_int_steps: "decode_int c = Ok (v, c') \<Longrightarrow> steps 1 c c'"
  by (auto simp: decode_int_def and_then_eq_Ok_iff split: if_splits
      dest!: take_byte_steps parse_int_steps)
    (metis add_0 steps_trans steps_weaken le_add1)

lemma decode_bytestring_steps: "decode_bytestring c = Ok (v, c') \<Longrightarrow> steps 1 c c'"
  by (auto simp: decode_bytestring_def and_then_eq_Ok_iff Let_def split: if_splits
      dest!: take_byte_steps parse_int_steps advance_steps)
    (metis add_0 add_0_right steps_trans)

section \<open>Values, lists and dictionaries\<close>

text \<open>
  The loops of \<open>decode_list\<close> and \<open>decode_dict\<close> are functions of their own, with the vector
  or map built so far. The \<open>unreachable!\<close> arm for a key that is not a byte string is kept.
\<close>

function (sequential)
  decode_value :: "cursor \<Rightarrow> (bencode \<times> cursor) decoded" and
  decode_list :: "cursor \<Rightarrow> (bencode \<times> cursor) decoded" and
  decode_list_loop :: "bencode list \<Rightarrow> cursor \<Rightarrow> (bencode \<times> cursor) decoded" and
  decode_dict :: "cursor \<Rightarrow> (bencode \<times> cursor) decoded" and
  decode_dict_loop :: "dict \<Rightarrow> cursor \<Rightarrow> (bencode \<times> cursor) decoded"
where
  "decode_value c =
     and_then (peek_byte c) (\<lambda>b.
       if b = byte CHR ''i'' then decode_int c
       else if is_ascii_digit b then decode_bytestring c
       else if b = byte CHR ''l'' then decode_list c
       else if b = byte CHR ''d'' then decode_dict c
       else Err UnexpectedStartOfValue)"
| "decode_list c =
     and_then (take_byte c) (\<lambda>(b, c).
       if b \<noteq> byte CHR ''l'' then Err ExpectedListStart else decode_list_loop [] c)"
| "decode_list_loop result c =
     and_then (peek_byte c) (\<lambda>next_byte.
       if next_byte = byte CHR ''e''
       then and_then (take_byte c) (\<lambda>(_, c). Ok (List result, c))
       else and_then (decode_value c) (\<lambda>(v, c). decode_list_loop (result @ [v]) c))"
| "decode_dict c =
     and_then (take_byte c) (\<lambda>(b, c).
       if b \<noteq> byte CHR ''d'' then Err ExpectedDictStart else decode_dict_loop [] c)"
| "decode_dict_loop result c =
     and_then (peek_byte c) (\<lambda>next_byte.
       if next_byte = byte CHR ''e''
       then and_then (take_byte c) (\<lambda>(_, c). Ok (Dict result, c))
       else and_then (decode_bytestring c) (\<lambda>(k, c).
         case k of
           Bytes key \<Rightarrow>
             and_then (decode_value c) (\<lambda>(value, c).
               decode_dict_loop (bt_insert key value result) c)
         | _ \<Rightarrow> Crash UnreachableReached))"
  by pat_completeness auto

lemma case_key_eq_Ok_iff:
  "(case v of Bytes k \<Rightarrow> f k | _ \<Rightarrow> Crash p) = Ok y \<longleftrightarrow> (\<exists>k. v = Bytes k \<and> f k = Ok y)"
  by (cases v) simp_all

text \<open>
  The loops continue from the cursor that a nested call returned. That a call which returns has
  moved its cursor is proved before totality is known, and makes the measure decrease.
\<close>

lemma decode_steps:
  "decode_value_decode_list_decode_list_loop_decode_dict_decode_dict_loop_dom (Inl (Inl c))
     \<Longrightarrow> decode_value c = Ok (v, c') \<Longrightarrow> steps 1 c c'"
  "decode_value_decode_list_decode_list_loop_decode_dict_decode_dict_loop_dom (Inl (Inr c))
     \<Longrightarrow> decode_list c = Ok (v, c') \<Longrightarrow> steps 1 c c'"
  "decode_value_decode_list_decode_list_loop_decode_dict_decode_dict_loop_dom (Inr (Inl (vs, c)))
     \<Longrightarrow> decode_list_loop vs c = Ok (v, c') \<Longrightarrow> steps 1 c c'"
  "decode_value_decode_list_decode_list_loop_decode_dict_decode_dict_loop_dom (Inr (Inr (Inl c)))
     \<Longrightarrow> decode_dict c = Ok (v, c') \<Longrightarrow> steps 1 c c'"
  "decode_value_decode_list_decode_list_loop_decode_dict_decode_dict_loop_dom (Inr (Inr (Inr (m, c))))
     \<Longrightarrow> decode_dict_loop m c = Ok (v, c') \<Longrightarrow> steps 1 c c'"
proof (induction c and c and vs c and c and m c arbitrary: v c' and v c' and v c' and v c' and v c'
    rule: decode_value_decode_list_decode_list_loop_decode_dict_decode_dict_loop.pinduct)
  case (1 c)
  from "1.prems" show ?case
    by (auto simp: decode_value.psimps [OF "1.hyps"] and_then_eq_Ok_iff split: if_splits
        simp del: One_nat_def dest: decode_int_steps decode_bytestring_steps "1.IH")
next
  case (2 c)
  from "2.prems" obtain b d where "take_byte c = Ok (b, d)" "b = byte CHR ''l''"
    and loop: "decode_list_loop [] d = Ok (v, c')"
    by (auto simp: decode_list.psimps [OF "2.hyps"] and_then_eq_Ok_iff split: if_splits)
  then have "steps 1 c d" "steps 1 d c'"
    using "2.IH" take_byte_steps by auto
  then show ?case by (rule steps_weaken [OF steps_trans]) simp
next
  case (3 vs c)
  from "3.prems" consider (stop) b d where "take_byte c = Ok (b, d)" "c' = d"
    | (elem) b w d where "peek_byte c = Ok b" "b \<noteq> byte CHR ''e''" "decode_value c = Ok (w, d)"
      "decode_list_loop (vs @ [w]) d = Ok (v, c')"
    by (auto simp: decode_list_loop.psimps [OF "3.hyps"] and_then_eq_Ok_iff split: if_splits)
  then show ?case
  proof cases
    case stop
    then show ?thesis using take_byte_steps by simp
  next
    case elem
    then have "steps 1 c d" "steps 1 d c'"
      using "3.IH" by auto
    then show ?thesis by (rule steps_weaken [OF steps_trans]) simp
  qed
next
  case (4 c)
  from "4.prems" obtain b d where "take_byte c = Ok (b, d)" "b = byte CHR ''d''"
    and loop: "decode_dict_loop [] d = Ok (v, c')"
    by (auto simp: decode_dict.psimps [OF "4.hyps"] and_then_eq_Ok_iff split: if_splits)
  then have "steps 1 c d" "steps 1 d c'"
    using "4.IH" take_byte_steps by auto
  then show ?case by (rule steps_weaken [OF steps_trans]) simp
next
  case (5 m c)
  from "5.prems" consider (stop) b d where "take_byte c = Ok (b, d)" "c' = d"
    | (entry) b k d w e where "peek_byte c = Ok b" "b \<noteq> byte CHR ''e''"
      "decode_bytestring c = Ok (Bytes k, d)" "decode_value d = Ok (w, e)"
      "decode_dict_loop (bt_insert k w m) e = Ok (v, c')"
    by (auto simp: decode_dict_loop.psimps [OF "5.hyps"] and_then_eq_Ok_iff
        case_key_eq_Ok_iff split: if_splits)
  then show ?case
  proof cases
    case stop
    then show ?thesis using take_byte_steps by simp
  next
    case entry
    have "steps 1 d e" using "5.IH"(1) entry by blast
    moreover have "steps 1 e c'" using "5.IH"(2) entry by blast
    moreover have "steps 1 c d" using entry decode_bytestring_steps by blast
    ultimately have "steps (1 + (1 + 1)) c c'" by (blast intro: steps_trans)
    then show ?thesis by (rule steps_weaken) simp
  qed
qed

lemma decode_dom: "decode_value_decode_list_decode_list_loop_decode_dict_decode_dict_loop_dom x"
proof -
  have "\<forall>x. decode_value_decode_list_decode_list_loop_decode_dict_decode_dict_loop_dom x"
    by (rule "decode_value_decode_list_decode_list_loop_decode_dict_decode_dict_loop.termination" [where
          R = "measure (\<lambda>x. case x of
              Inl (Inl c) \<Rightarrow> 3 * left c + 1
            | Inl (Inr c) \<Rightarrow> 3 * left c
            | Inr (Inl (_, c)) \<Rightarrow> 3 * left c + 2
            | Inr (Inr (Inl c)) \<Rightarrow> 3 * left c
            | Inr (Inr (Inr (_, c))) \<Rightarrow> 3 * left c + 2)"])
      (auto dest!: take_byte_steps decode_bytestring_steps decode_steps(1) steps_left)
  then show ?thesis ..
qed

termination decode_value
  by (rule allI) (rule decode_dom)

text \<open>The recursive equations stay out of the simplifier: each is unfolded where it is used.\<close>

lemmas decode_defs = decode_value.simps decode_list.simps decode_list_loop.simps
  decode_dict.simps decode_dict_loop.simps

declare decode_defs [simp del]

lemma decode_induct [case_names decode_value decode_list decode_list_loop decode_dict decode_dict_loop]:
  assumes "\<And>c. (peek_byte c = Ok (byte CHR ''l'') \<Longrightarrow> P_list c) \<Longrightarrow>
      (peek_byte c = Ok (byte CHR ''d'') \<Longrightarrow> P_dict c) \<Longrightarrow> P_value c"
    and "\<And>c. (\<And>d. take_byte c = Ok (byte CHR ''l'', d) \<Longrightarrow> P_list_loop [] d) \<Longrightarrow> P_list c"
    and "\<And>vs c. (\<And>b. peek_byte c = Ok b \<Longrightarrow> b \<noteq> byte CHR ''e'' \<Longrightarrow> P_value c) \<Longrightarrow>
      (\<And>b v d. peek_byte c = Ok b \<Longrightarrow> b \<noteq> byte CHR ''e'' \<Longrightarrow> decode_value c = Ok (v, d) \<Longrightarrow>
        P_list_loop (vs @ [v]) d) \<Longrightarrow> P_list_loop vs c"
    and "\<And>c. (\<And>d. take_byte c = Ok (byte CHR ''d'', d) \<Longrightarrow> P_dict_loop [] d) \<Longrightarrow> P_dict c"
    and "\<And>m c. (\<And>b k d. peek_byte c = Ok b \<Longrightarrow> b \<noteq> byte CHR ''e'' \<Longrightarrow>
        decode_bytestring c = Ok (Bytes k, d) \<Longrightarrow> P_value d) \<Longrightarrow>
      (\<And>b k d v e. peek_byte c = Ok b \<Longrightarrow> b \<noteq> byte CHR ''e'' \<Longrightarrow>
        decode_bytestring c = Ok (Bytes k, d) \<Longrightarrow> decode_value d = Ok (v, e) \<Longrightarrow>
        P_dict_loop (bt_insert k v m) e) \<Longrightarrow> P_dict_loop m c"
  shows "P_value c" "P_list c" "P_list_loop vs c" "P_dict c" "P_dict_loop m c"
proof (induction c and c and vs c and c and m c rule: decode_value_decode_list_decode_list_loop_decode_dict_decode_dict_loop.induct)
  case (1 c)
  show ?case
    by (rule assms(1); rule 1) (auto simp: byte_values is_ascii_digit_def)
next
  case (2 c)
  show ?case
    by (rule assms(2)) (auto intro: 2)
next
  case (3 vs c)
  show ?case
    by (rule assms(3); rule 3) auto
next
  case (4 c)
  show ?case
    by (rule assms(4)) (auto intro: 4)
next
  case (5 m c)
  show ?case
    by (rule assms(5); rule 5) auto
qed

lemma decode_value_steps: "decode_value c = Ok (v, c') \<Longrightarrow> steps 1 c c'"
  by (rule decode_steps(1) [OF decode_dom])

text \<open>What a call that returned has read; the inductions over the decoder go by these cases.\<close>

lemma decode_list_OkE:
  assumes "decode_list c = Ok (v, c')"
  obtains d where "take_byte c = Ok (byte CHR ''l'', d)" "decode_list_loop [] d = Ok (v, c')"
  using assms by (auto simp: decode_list.simps [of c] and_then_eq_Ok_iff split: if_splits)

lemma decode_list_loop_OkE:
  assumes "decode_list_loop vs c = Ok (v, c')"
  obtains (stop) b where "peek_byte c = Ok (byte CHR ''e'')" "take_byte c = Ok (b, c')" "v = List vs"
  | (elem) b w d where "peek_byte c = Ok b" "b \<noteq> byte CHR ''e''" "decode_value c = Ok (w, d)"
      "decode_list_loop (vs @ [w]) d = Ok (v, c')"
  using assms
  by (auto simp: decode_list_loop.simps [of vs c] and_then_eq_Ok_iff split: if_splits)

lemma decode_dict_OkE:
  assumes "decode_dict c = Ok (v, c')"
  obtains d where "take_byte c = Ok (byte CHR ''d'', d)" "decode_dict_loop [] d = Ok (v, c')"
  using assms by (auto simp: decode_dict.simps [of c] and_then_eq_Ok_iff split: if_splits)

lemma decode_dict_loop_OkE:
  assumes "decode_dict_loop m c = Ok (v, c')"
  obtains (stop) b where "peek_byte c = Ok (byte CHR ''e'')" "take_byte c = Ok (b, c')" "v = Dict m"
  | (entry) b k d w e where "peek_byte c = Ok b" "b \<noteq> byte CHR ''e''"
      "decode_bytestring c = Ok (Bytes k, d)" "decode_value d = Ok (w, e)"
      "decode_dict_loop (bt_insert k w m) e = Ok (v, c')"
  using assms
  by (auto simp: decode_dict_loop.simps [of m c] and_then_eq_Ok_iff case_key_eq_Ok_iff split: if_splits)

definition decode :: "u8 list \<Rightarrow> bencode decoded" where
  "decode input = and_then (decode_value (cursor_new input)) (\<lambda>(v, _). Ok v)"

end
