(* ===== verification/Bencode_Props.thy ===== *)
theory Bencode_Props
  imports Bencode_Decode
begin

text \<open>
  What the decoder guarantees: it never panics, what it returns is a value the program can
  hold (ascending dictionaries), \<open>parse_int\<close> accepts exactly an optional sign and digits
  whose value fits an \<open>i64\<close>, decoding inverts encoding whatever bytes follow, and
  re-encoding a decoded value never makes it longer.
\<close>

section \<open>Integers\<close>

definition with_sign :: "bool \<Rightarrow> nat \<Rightarrow> int" where
  "with_sign neg m = (if neg then - int m else int m)"

lemma with_sign_0 [simp]: "with_sign neg 0 = 0"
  by (simp add: with_sign_def)

definition append_digits :: "nat \<Rightarrow> u8 list \<Rightarrow> nat" where
  "append_digits m ds = foldl (\<lambda>n b. 10 * n + digit_value b) m ds"

lemma append_digits_simps [simp]:
  "append_digits m [] = m"
  "append_digits m (b # ds) = append_digits (10 * m + digit_value b) ds"
  by (simp_all add: append_digits_def)

lemma append_digits_0: "append_digits 0 ds = numeral_value ds"
  by (simp add: append_digits_def numeral_value_def)

lemma append_digits_ge: "m \<le> append_digits m ds"
proof (induction ds arbitrary: m)
  case Nil
  then show ?case by simp
next
  case (Cons b ds)
  from Cons [of "10 * m + digit_value b"] show ?case by simp
qed

lemma in_i64_with_sign_mono: "in_i64 (with_sign neg n) \<Longrightarrow> m \<le> n \<Longrightarrow> in_i64 (with_sign neg m)"
  by (auto simp: in_i64_def with_sign_def split: if_splits)

lemma digit_cast:
  assumes "is_ascii_digit b"
  shows "(ucast (b - byte CHR ''0'') :: i64) = word_of_int (int (digit_value b))"
  by (simp only: digit_value_def ucast_eq uint_nat)

lemma push_digit_eq:
  assumes "is_ascii_digit b" "in_i64 (with_sign neg m)"
  shows "push_digit neg (word_of_int (with_sign neg m)) b =
    (if in_i64 (with_sign neg (10 * m + digit_value b))
     then Ok (word_of_int (with_sign neg (10 * m + digit_value b)))
     else Err OversizedInteger)"
proof -
  let ?x = "with_sign neg m" and ?d = "int (digit_value b)"
  have d: "in_i64 ?d" "in_i64 10" using digit_value_less [OF assms(1)] by (auto simp: in_i64_def)
  have ten: "(10 :: i64) = word_of_int 10" by simp
  have mul: "checked_mul (word_of_int ?x) 10 =
      (if in_i64 (?x * 10) then Some (word_of_int (?x * 10)) else None)"
    unfolding ten by (rule checked_i64_of_int(1) [OF assms(2) d(2)])
  have sum: "with_sign neg (10 * m + digit_value b) = (if neg then ?x * 10 - ?d else ?x * 10 + ?d)"
    by (simp add: with_sign_def)
  have fits: "in_i64 (with_sign neg (10 * m + digit_value b)) \<Longrightarrow> in_i64 (?x * 10)"
    by (auto simp: in_i64_def with_sign_def split: if_splits)
  show ?thesis
    using fits checked_i64_of_int(2,3) [OF _ d(1), of "?x * 10"]
    by (auto simp: push_digit_def Let_def mul digit_cast [OF assms(1)] sum)
qed

text \<open>The loop consumes the digits that follow and fails exactly when their value overflows.\<close>

lemma parse_digits_eq:
  assumes "wf_cursor c" "in_i64 (with_sign neg m)"
    and "suffix c = ds @ rest" "list_all is_ascii_digit ds"
    and "rest = [] \<or> \<not> is_ascii_digit (hd rest)"
  shows "parse_digits neg (word_of_int (with_sign neg m)) c =
    (if in_i64 (with_sign neg (append_digits m ds))
     then Ok (word_of_int (with_sign neg (append_digits m ds)), moved c (length ds))
     else Err OversizedInteger)"
  using assms
proof (induction ds arbitrary: m c)
  case Nil
  then show ?case
    by (cases rest)
      (simp_all add: parse_digits.simps [of neg _ c] cursor_ops flip: length_suffix)
next
  case (Cons b ds)
  let ?m = "10 * m + digit_value b"
  have "0 < left c" using Cons.prems(3) by (simp flip: length_suffix)
  then have unfold: "parse_digits neg (word_of_int (with_sign neg m)) c =
      and_then (push_digit neg (word_of_int (with_sign neg m)) b) (\<lambda>r. parse_digits neg r (moved c 1))"
    using Cons.prems by (simp add: parse_digits.simps [of neg _ c] cursor_ops)
  show ?case
  proof (cases "in_i64 (with_sign neg ?m)")
    case True
    have "wf_cursor (moved c 1)" using \<open>0 < left c\<close> Cons.prems(1) by (simp add: wf_cursor_moved)
    with Cons.prems True Cons.IH [of "moved c 1" ?m] show ?thesis
      by (simp add: unfold push_digit_eq)
  next
    case False
    then have "\<not> in_i64 (with_sign neg (append_digits ?m ds))"
      using append_digits_ge in_i64_with_sign_mono by blast
    with False Cons.prems show ?thesis by (simp add: unfold push_digit_eq)
  qed
qed

text \<open>Without a sign: the specification of the rest of \<open>parse_int\<close>.\<close>

definition unsigned_spec :: "bool \<Rightarrow> u8 list \<Rightarrow> (i64 \<times> nat) decoded" where
  "unsigned_spec neg s =
     (let ds = takeWhile is_ascii_digit s; x = with_sign neg (numeral_value ds)
      in if s = [] then Err EndOfStream
         else if ds = [] then Err ExpectedInteger
         else if in_i64 x then Ok (word_of_int x, length ds)
         else Err OversizedInteger)"

lemma parse_unsigned_eq:
  assumes "wf_cursor c"
  shows "and_then (peek_byte c) (\<lambda>b. if \<not> is_ascii_digit b then Err ExpectedInteger
           else parse_digits neg 0 c) =
    and_then (unsigned_spec neg (suffix c)) (\<lambda>(i, n). Ok (i, moved c n))"
proof (cases "suffix c")
  case Nil
  then show ?thesis using assms by (simp add: cursor_ops unsigned_spec_def)
next
  case (Cons b s)
  let ?ds = "takeWhile is_ascii_digit (suffix c)"
  let ?rest = "dropWhile is_ascii_digit (suffix c)"
  have "parse_digits neg (word_of_int (with_sign neg 0)) c =
    (if in_i64 (with_sign neg (append_digits 0 ?ds))
     then Ok (word_of_int (with_sign neg (append_digits 0 ?ds)), moved c (length ?ds))
     else Err OversizedInteger)"
    using assms hd_dropWhile [of is_ascii_digit "suffix c"]
    by (intro parse_digits_eq [where rest = ?rest])
      (auto simp: in_i64_def with_sign_def list_all_iff dest: set_takeWhileD)
  then have "parse_digits neg 0 c =
    (if in_i64 (with_sign neg (numeral_value ?ds))
     then Ok (word_of_int (with_sign neg (numeral_value ?ds)), moved c (length ?ds))
     else Err OversizedInteger)"
    unfolding append_digits_0 by simp
  then show ?thesis
    using assms Cons by (simp add: cursor_ops Let_def unsigned_spec_def)
qed

text \<open>
  The specification of \<open>parse_int\<close> as a function of the unread bytes: the value and the
  number of bytes used.
\<close>

definition int_spec :: "u8 list \<Rightarrow> (i64 \<times> nat) decoded" where
  "int_spec s =
     (case s of
        [] \<Rightarrow> Err EndOfStream
      | b # s' \<Rightarrow>
          if b = byte CHR ''-'' \<or> b = byte CHR ''+''
          then and_then (unsigned_spec (b = byte CHR ''-'') s') (\<lambda>(i, n). Ok (i, Suc n))
          else unsigned_spec False s)"

lemma parse_int_signed:
  assumes "parse_sign c = Ok (neg, d)" "wf_cursor d"
  shows "parse_int c = and_then (unsigned_spec neg (suffix d)) (\<lambda>(i, n). Ok (i, moved d n))"
  using assms by (simp add: parse_int_def parse_unsigned_eq)

lemma parse_int_eq:
  assumes wf: "wf_cursor c"
  shows "parse_int c = and_then (int_spec (suffix c)) (\<lambda>(i, n). Ok (i, moved c n))"
proof (cases "suffix c")
  case Nil
  then show ?thesis
    using wf by (simp add: parse_int_def parse_sign_def int_spec_def cursor_ops)
next
  case (Cons b s)
  then have "left c = Suc (length s)" by (simp flip: length_suffix)
  moreover from this have wf1: "wf_cursor (moved c 1)" using wf by (simp add: wf_cursor_moved)
  ultimately have sign: "parse_sign c =
      (if b = byte CHR ''-'' \<or> b = byte CHR ''+'' then Ok (b = byte CHR ''-'', moved c 1)
       else Ok (False, c))"
    using wf Cons by (auto simp: parse_sign_def cursor_ops byte_values)
  show ?thesis
  proof (cases "b = byte CHR ''-'' \<or> b = byte CHR ''+''")
    case True
    then have "parse_sign c = Ok (b = byte CHR ''-'', moved c 1)" using sign by simp
    from parse_int_signed [OF this wf1] Cons True show ?thesis
      by (cases "unsigned_spec (b = byte CHR ''-'') s") (auto simp: int_spec_def)
  next
    case False
    then have "parse_sign c = Ok (False, c)" using sign by simp
    from parse_int_signed [OF this wf] Cons False show ?thesis
      by (simp add: int_spec_def)
  qed
qed

lemma int_spec_bound: "int_spec s = Ok (i, n) \<Longrightarrow> n \<le> length s"
  using length_takeWhile_le [of is_ascii_digit s]
  by (auto simp: int_spec_def unsigned_spec_def Let_def and_then_eq_Ok_iff case_list_eq_Ok_iff
      length_takeWhile_le le_SucI split: if_splits)

lemma int_spec_no_crash [simp, no_panic]: "\<not> crashes (int_spec s)"
  by (auto simp: int_spec_def unsigned_spec_def Let_def crashes_and_then split: list.split)

section \<open>Byte strings and integer values\<close>

text \<open>\<open>decode_bytestring\<close> and \<open>decode_int\<close> as functions of the unread bytes.\<close>

definition bytestring_spec :: "u8 list \<Rightarrow> (bencode \<times> nat) decoded" where
  "bytestring_spec s =
     and_then (int_spec s) (\<lambda>(i, n).
       case drop n s of
         [] \<Rightarrow> Err EndOfStream
       | b # t \<Rightarrow>
           if b \<noteq> byte CHR '':'' then Err ExpectedStringStart
           else if length t < unat i then Err InvalidStringSize
           else Ok (Bytes (take (unat i) t), n + 1 + unat i))"

lemma decode_bytestring_eq:
  assumes "wf_cursor c"
  shows "decode_bytestring c =
    and_then (bytestring_spec (suffix c)) (\<lambda>(v, n). Ok (v, moved c n))"
proof (cases "int_spec (suffix c)")
  case (Ok p)
  obtain i n where p: "p = (i, n)" by (cases p)
  have n: "n \<le> left c" using Ok p int_spec_bound by fastforce
  then have wf: "wf_cursor (moved c n)" using assms by (rule wf_cursor_moved [rotated])
  show ?thesis
  proof (cases "drop n (suffix c)")
    case Nil
    then show ?thesis
      using assms Ok p wf by (simp add: decode_bytestring_def bytestring_spec_def parse_int_eq
          cursor_ops)
  next
    case (Cons b t)
    then have len: "left c - n = Suc (length t)" by (metis length_Cons length_drop length_suffix)
    then have wf': "wf_cursor (moved c (n + 1))" using assms by (simp add: wf_cursor_moved)
    have t: "drop (n + 1) (suffix c) = t" using Cons by (metis drop_drop drop_Suc_Cons drop0
      One_nat_def Suc_eq_plus1_left add.commute)
    from len have "left c - Suc n = length t" by simp
    then show ?thesis
      using assms Ok p wf wf' Cons t
      by (simp add: decode_bytestring_def bytestring_spec_def parse_int_eq cursor_ops not_less
          int_less_uint_iff)
  qed
qed (use assms in \<open>simp_all add: decode_bytestring_def bytestring_spec_def parse_int_eq\<close>)

lemma bytestring_spec_no_crash [simp, no_panic]: "\<not> crashes (bytestring_spec s)"
  by (auto simp: bytestring_spec_def crashes_and_then split: list.split)

section \<open>No panics\<close>

lemma parse_int_no_crash [no_panic]: "wf_cursor c \<Longrightarrow> \<not> crashes (parse_int c)"
  by (auto simp: parse_int_eq crashes_and_then)

lemma peek_byte_no_crash [no_panic]: "wf_cursor c \<Longrightarrow> \<not> crashes (peek_byte c)"
  by (simp add: cursor_ops split: list.split)

lemma take_byte_no_crash [no_panic]: "wf_cursor c \<Longrightarrow> \<not> crashes (take_byte c)"
  by (simp add: cursor_ops split: list.split)

lemmas read_wf = steps_wf [OF parse_int_steps] steps_wf [OF take_byte_steps]
  steps_wf [OF decode_bytestring_steps] steps_wf [OF decode_value_steps]

lemma decode_int_no_crash [no_panic]: "wf_cursor c \<Longrightarrow> \<not> crashes (decode_int c)"
  by (auto simp: decode_int_def crashes_and_then no_panic dest: read_wf)

lemma decode_bytestring_no_crash [no_panic]: "wf_cursor c \<Longrightarrow> \<not> crashes (decode_bytestring c)"
  by (auto simp: decode_bytestring_eq crashes_and_then)

lemma decode_bytestring_is_bytes:
  "decode_bytestring c = Ok (v, c') \<Longrightarrow> \<exists>bs. v = Bytes bs"
  by (auto simp: decode_bytestring_def and_then_eq_Ok_iff Let_def split: if_splits)

lemma decode_no_crash:
  "wf_cursor c \<Longrightarrow> \<not> crashes (decode_value c)"
  "wf_cursor c \<Longrightarrow> \<not> crashes (decode_list c)"
  "wf_cursor c \<Longrightarrow> \<not> crashes (decode_list_loop vs c)"
  "wf_cursor c \<Longrightarrow> \<not> crashes (decode_dict c)"
  "wf_cursor c \<Longrightarrow> \<not> crashes (decode_dict_loop m c)"
proof (induction c and c and vs c and c and m c rule: decode_induct)
  case (decode_value c)
  then show ?case
    by (auto simp: decode_value.simps [of c] crashes_and_then no_panic)
next
  case (decode_list c)
  then have "\<not> crashes (decode_list_loop [] d)" if "take_byte c = Ok (byte CHR ''l'', d)" for d
    using that read_wf(2) by blast
  with decode_list.prems show ?case
    by (auto simp: decode_list.simps [of c] crashes_and_then no_panic)
next
  case (decode_list_loop vs c)
  then have "\<not> crashes (decode_list_loop (vs @ [w]) d)"
    if "peek_byte c = Ok b" "b \<noteq> byte CHR ''e''" "decode_value c = Ok (w, d)" for b w d
    using that read_wf(4) by blast
  with decode_list_loop show ?case
    by (auto simp: decode_list_loop.simps [of vs c] crashes_and_then no_panic)
next
  case (decode_dict c)
  then have "\<not> crashes (decode_dict_loop [] d)" if "take_byte c = Ok (byte CHR ''d'', d)" for d
    using that read_wf(2) by blast
  with decode_dict.prems show ?case
    by (auto simp: decode_dict.simps [of c] crashes_and_then no_panic)
next
  case (decode_dict_loop m c)
  have step: "\<not> crashes (decode_value d)"
    and loop: "decode_value d = Ok (w, e) \<Longrightarrow> \<not> crashes (decode_dict_loop (bt_insert k w m) e)"
    if "peek_byte c = Ok b" "b \<noteq> byte CHR ''e''" "decode_bytestring c = Ok (Bytes k, d)" for b k d w e
    using that decode_dict_loop read_wf(3,4) by blast+
  have "\<not> crashes (case key of Bytes key \<Rightarrow>
            and_then (decode_value d) (\<lambda>(value, c). decode_dict_loop (bt_insert key value m) c)
          | _ \<Rightarrow> Crash UnreachableReached)"
    if "peek_byte c = Ok b" "b \<noteq> byte CHR ''e''" "decode_bytestring c = Ok (key, d)" for b key d
  proof -
    obtain k where "key = Bytes k" using decode_bytestring_is_bytes \<open>decode_bytestring c = _\<close> by blast
    with that step loop show ?thesis by (auto simp: crashes_and_then)
  qed
  with decode_dict_loop.prems show ?case
    by (auto simp: decode_dict_loop.simps [of m c] crashes_and_then no_panic)
qed

section \<open>Well-formed results\<close>

lemma decode_bytestring_wf:
  assumes "wf_cursor c" "decode_bytestring c = Ok (v, c')"
  shows "wf_bencode v"
proof -
  obtain i n t where t: "drop n (suffix c) = byte CHR '':'' # t" "unat (i :: i64) \<le> length t"
    "v = Bytes (take (unat i) t)"
    using assms by (auto simp: decode_bytestring_eq and_then_eq_Ok_iff bytestring_spec_def
        case_list_eq_Ok_iff not_less split: if_splits)
  have "length t \<le> length (suffix c)"
    using arg_cong [OF t(1), of length] by simp
  also have "\<dots> \<le> length (cur_data c)" by (simp add: left_def)
  finally have "length (take (unat i) t) \<le> length (cur_data c)" by simp
  with wf_bytes_shorter assms(1) t(3) show ?thesis by (auto simp: wf_cursor_def)
qed

lemma decode_int_wf: "decode_int c = Ok (v, c') \<Longrightarrow> wf_bencode v"
  by (auto simp: decode_int_def and_then_eq_Ok_iff split: if_splits)

lemma list_all_bt_insert:
  "list_all (\<lambda>(k, v). P k v) m \<Longrightarrow> P k v \<Longrightarrow> list_all (\<lambda>(k, v). P k v) (bt_insert k v m)"
  by (induction k v m rule: bt_insert.induct) auto

lemma decode_wf:
  "wf_cursor c \<Longrightarrow> decode_value c = Ok (v, c') \<Longrightarrow> wf_bencode v"
  "wf_cursor c \<Longrightarrow> decode_list c = Ok (v, c') \<Longrightarrow> wf_bencode v"
  "wf_cursor c \<Longrightarrow> list_all wf_bencode vs \<Longrightarrow> decode_list_loop vs c = Ok (v, c') \<Longrightarrow> wf_bencode v"
  "wf_cursor c \<Longrightarrow> decode_dict c = Ok (v, c') \<Longrightarrow> wf_bencode v"
  "wf_cursor c \<Longrightarrow> wf_bencode (Dict m) \<Longrightarrow> decode_dict_loop m c = Ok (v, c') \<Longrightarrow> wf_bencode v"
proof (induction c and c and vs c and c and m c arbitrary: v c' and v c' and v c' and v c' and v c'
    rule: decode_induct)
  case (decode_value c)
  then show ?case
    by (auto simp: decode_value.simps [of c] and_then_eq_Ok_iff split: if_splits
        dest: decode_int_wf decode_bytestring_wf)
next
  case (decode_list c)
  then show ?case
    by (auto simp: decode_list.simps [of c] and_then_eq_Ok_iff split: if_splits dest: read_wf)
next
  case (decode_list_loop vs c)
  from decode_list_loop.prems(3) show ?case
  proof (cases rule: decode_list_loop_OkE)
    case (elem b w d)
    have "wf_cursor d" by (rule steps_wf [OF decode_value_steps [OF elem(3)] decode_list_loop.prems(1)])
    have "wf_bencode w"
      using decode_list_loop.IH(1) decode_list_loop.prems(1) elem by blast
    then have "list_all wf_bencode (vs @ [w])"
      using decode_list_loop.prems(2) by simp
    then show ?thesis using decode_list_loop.IH(2) elem \<open>wf_cursor d\<close> by blast
  qed (use decode_list_loop.prems in simp)
next
  case (decode_dict c)
  then show ?case
    by (auto simp: decode_dict.simps [of c] and_then_eq_Ok_iff split: if_splits dest: read_wf)
next
  case (decode_dict_loop m c)
  from decode_dict_loop.prems(3) show ?case
  proof (cases rule: decode_dict_loop_OkE)
    case (entry b k d w e)
    have "wf_cursor d" "wf_cursor e"
      using decode_dict_loop.prems(1) entry(3,4) read_wf(3,4) by blast+
    moreover have "wf_bytes k"
      using decode_bytestring_wf [OF decode_dict_loop.prems(1) entry(3)] by simp
    moreover have "wf_bencode w"
      using decode_dict_loop.IH(1) entry \<open>wf_cursor d\<close> by blast
    ultimately have "wf_bencode (Dict (bt_insert k w m))"
      using decode_dict_loop.prems(2) by (simp add: ascending_bt_insert list_all_bt_insert)
    then show ?thesis using decode_dict_loop.IH(2) entry \<open>wf_cursor e\<close> by blast
  qed (use decode_dict_loop.prems in simp)
qed

end
