(* ===== verification/Bencode_Roundtrip.thy ===== *)
theory Bencode_Roundtrip
  imports Bencode_Props
begin

text \<open>
  Decoding inverts encoding: from any cursor whose unread bytes start with the encoding of a
  well-formed value, the decoder returns that value and stops right behind it.
\<close>

section \<open>Numerals\<close>

lemma unsigned_spec_nat_to_string:
  assumes "in_i64 (with_sign neg n)" "rest = [] \<or> \<not> is_ascii_digit (hd rest)"
  shows "unsigned_spec neg (nat_to_string n @ rest) =
    Ok (word_of_int (with_sign neg n), length (nat_to_string n))"
  using assms
  by (simp add: unsigned_spec_def takeWhile_digits nat_to_string_digits Let_def)

lemma int_spec_nat_to_string:
  assumes "in_i64 (int n)" "rest = [] \<or> \<not> is_ascii_digit (hd rest)"
  shows "int_spec (nat_to_string n @ rest) = Ok (word_of_int (int n), length (nat_to_string n))"
proof -
  obtain b s where bs: "nat_to_string n = b # s" by (cases "nat_to_string n") auto
  then have "is_ascii_digit b" using hd_nat_to_string [of n] by simp
  then have "b \<noteq> byte CHR ''-''" "b \<noteq> byte CHR ''+''" by (auto simp: is_ascii_digit_def byte_values)
  then show ?thesis
    using unsigned_spec_nat_to_string [of False n rest] assms bs
    by (simp add: int_spec_def with_sign_def)
qed

lemma int_spec_i64_to_string:
  assumes "rest = [] \<or> \<not> is_ascii_digit (hd rest)"
  shows "int_spec (i64_to_string i @ rest) = Ok (i, length (i64_to_string i))"
proof (cases "sint i < 0")
  case True
  then have n: "with_sign True (nat (- sint i)) = sint i" by (simp add: with_sign_def)
  then have "unsigned_spec True (nat_to_string (nat (- sint i)) @ rest) =
      Ok (i, length (nat_to_string (nat (- sint i))))"
    using unsigned_spec_nat_to_string [of True "nat (- sint i)" rest] assms by simp
  with True show ?thesis by (simp add: i64_to_string_def int_spec_def)
next
  case False
  then have "in_i64 (int (nat (sint i)))" by simp
  from int_spec_nat_to_string [OF this assms] False show ?thesis
    by (simp add: i64_to_string_def)
qed

section \<open>Byte strings and integer values\<close>

lemma bytestring_spec_encode:
  assumes "wf_bytes v"
  shows "bytestring_spec (encode_bytes v @ rest) = Ok (Bytes v, length (encode_bytes v))"
proof -
  have "in_i64 (int (length v))" using assms by (simp add: in_i64_def wf_bytes_def)
  moreover have "\<not> is_ascii_digit (byte CHR '':'')" by (simp add: is_ascii_digit_def byte_values)
  ultimately have "int_spec (nat_to_string (length v) @ byte CHR '':'' # v @ rest) =
      Ok (word_of_int (int (length v)), length (nat_to_string (length v)))"
    by (intro int_spec_nat_to_string) auto
  moreover have "unat (word_of_int (int (length v)) :: i64) = length v"
    using assms by (simp add: wf_bytes_def unat_of_nat take_bit_nat_eq_self)
  ultimately show ?thesis by (simp add: bytestring_spec_def encode_bytes_def)
qed

lemma decode_bytestring_encode:
  assumes "wf_cursor c" "wf_bytes v" "suffix c = encode_bytes v @ rest"
  shows "decode_bytestring c = Ok (Bytes v, moved c (length (encode_bytes v)))"
  using assms by (simp add: decode_bytestring_eq bytestring_spec_encode)

lemma decode_int_encode:
  assumes wf: "wf_cursor c" and s: "suffix c = encode (Integer i) @ rest"
  shows "decode_int c = Ok (Integer i, moved c (length (encode (Integer i))))"
proof -
  let ?n = "length (i64_to_string i)"
  have "\<not> is_ascii_digit (byte CHR ''e'')" by (simp add: is_ascii_digit_def byte_values)
  then have int: "int_spec (i64_to_string i @ byte CHR ''e'' # rest) = Ok (i, ?n)"
    by (intro int_spec_i64_to_string) simp
  have left: "left c = ?n + 2 + length rest" using arg_cong [OF s, of length] by simp
  then have "wf_cursor (moved c 1)" "wf_cursor (moved c (1 + ?n))"
    using wf by (auto intro: wf_cursor_moved)
  with wf s int show ?thesis
    by (simp add: decode_int_def cursor_ops parse_int_eq)
qed

section \<open>Lists and dictionaries\<close>

lemma peek_byte_hd:
  "wf_cursor c \<Longrightarrow> suffix c = s @ rest \<Longrightarrow> s \<noteq> [] \<Longrightarrow> peek_byte c = Ok (hd s)"
  by (cases s) (simp_all add: cursor_ops)

lemma wf_cursor_after:
  assumes "wf_cursor c" "suffix c = s @ rest"
  shows "wf_cursor (moved c (length s))"
proof -
  have "left c = length s + length rest" using arg_cong [OF assms(2), of length] by simp
  with assms(1) show ?thesis by (simp add: wf_cursor_moved)
qed

definition decodes :: "bencode \<Rightarrow> bool" where
  "decodes v \<longleftrightarrow> (\<forall>c rest. wf_cursor c \<longrightarrow> suffix c = encode v @ rest \<longrightarrow>
     decode_value c = Ok (v, moved c (length (encode v))))"

lemma decode_list_loop_encode:
  assumes "list_all decodes ws" "wf_cursor c"
    and "suffix c = concat (map encode ws) @ byte CHR ''e'' # rest"
  shows "decode_list_loop vs c =
    Ok (List (vs @ ws), moved c (length (concat (map encode ws)) + 1))"
  using assms
proof (induction ws arbitrary: vs c)
  case Nil
  then show ?case by (simp add: decode_list_loop.simps [of vs c] cursor_ops)
next
  case (Cons w ws)
  let ?d = "moved c (length (encode w))"
  have s: "suffix c = encode w @ (concat (map encode ws) @ byte CHR ''e'' # rest)"
    using Cons.prems(3) by simp
  have wf: "wf_cursor ?d" by (rule wf_cursor_after [OF Cons.prems(2) s])
  have "peek_byte c = Ok (hd (encode w))" by (rule peek_byte_hd [OF Cons.prems(2) s]) simp
  moreover have "decode_value c = Ok (w, ?d)" using Cons.prems(1,2) s by (auto simp: decodes_def)
  moreover have "decode_list_loop (vs @ [w]) ?d =
      Ok (List (vs @ w # ws), moved ?d (length (concat (map encode ws)) + 1))"
    using Cons.IH [of ?d "vs @ [w]"] Cons.prems(1) wf s by simp
  ultimately show ?case
    by (simp add: decode_list_loop.simps [of vs c] hd_encode_not_e add.assoc)
qed

definition encode_entry :: "u8 list \<times> bencode \<Rightarrow> u8 list" where
  "encode_entry = (\<lambda>(k, v). encode_bytes k @ encode v)"

text \<open>The entries may come in any order and repeat keys: the loop inserts them one by one.\<close>

abbreviation insert_entries :: "dict \<Rightarrow> (u8 list \<times> bencode) list \<Rightarrow> dict" where
  "insert_entries \<equiv> foldl (\<lambda>m (k, v). bt_insert k v m)"

lemma decode_dict_loop_encode:
  assumes "list_all (\<lambda>(k, v). wf_bytes k \<and> decodes v) es" "wf_cursor c"
    and "suffix c = concat (map encode_entry es) @ byte CHR ''e'' # rest"
  shows "decode_dict_loop m c =
    Ok (Dict (insert_entries m es), moved c (length (concat (map encode_entry es)) + 1))"
  using assms
proof (induction es arbitrary: m c)
  case Nil
  then show ?case by (simp add: decode_dict_loop.simps [of m c] cursor_ops)
next
  case (Cons e es)
  obtain k v where e: "e = (k, v)" by (cases e)
  let ?d = "moved c (length (encode_bytes k))"
  let ?f = "moved ?d (length (encode v))"
  let ?tail = "concat (map encode_entry es) @ byte CHR ''e'' # rest"
  have s: "suffix c = encode_bytes k @ (encode v @ ?tail)"
    using Cons.prems(3) by (simp add: e encode_entry_def)
  have wf: "wf_cursor ?d" by (rule wf_cursor_after [OF Cons.prems(2) s])
  have s': "suffix ?d = encode v @ ?tail" using s by simp
  have wf': "wf_cursor ?f" by (rule wf_cursor_after [OF wf s'])
  have s'': "suffix ?f = ?tail" unfolding suffix_moved [of ?d] s' by simp
  have "peek_byte c = Ok (hd (encode_bytes k))" by (rule peek_byte_hd [OF Cons.prems(2) s]) simp
  moreover have "decode_bytestring c = Ok (Bytes k, ?d)"
    using Cons.prems(1) e s by (intro decode_bytestring_encode [OF Cons.prems(2)]) auto
  moreover have "decode_value ?d = Ok (v, ?f)"
    using Cons.prems(1) e wf s' by (auto simp: decodes_def)
  moreover have "decode_dict_loop (bt_insert k v m) ?f =
      Ok (Dict (insert_entries m (e # es)),
        moved ?f (length (concat (map encode_entry es)) + 1))"
    using Cons.IH [OF _ wf' s'', of "bt_insert k v m"] Cons.prems(1) by (simp add: e)
  ultimately show ?case
    by (simp add: decode_dict_loop.simps [of m c] hd_encode_bytes_not_e e encode_entry_def
        add.assoc)
qed

lemma decode_dict_encode:
  assumes "list_all (\<lambda>(k, v). wf_bytes k \<and> decodes v) es" "wf_cursor c"
    and s: "suffix c = byte CHR ''d'' # concat (map encode_entry es) @ byte CHR ''e'' # rest"
  shows "decode_value c =
    Ok (Dict (insert_entries [] es), moved c (length (concat (map encode_entry es)) + 2))"
proof -
  have "wf_cursor (moved c 1)" using assms wf_cursor_after [of c "[byte CHR ''d'']"] by simp
  then have "decode_dict_loop [] (moved c 1) = Ok (Dict (insert_entries [] es),
      moved (moved c 1) (length (concat (map encode_entry es)) + 1))"
    using assms(1) s by (intro decode_dict_loop_encode) simp_all
  then show ?thesis
    using assms(2) s
    by (simp add: decode_value.simps [of c] decode_dict.simps [of c] cursor_ops byte_values
        is_ascii_digit_def)
qed

lemma wf_decodes: "wf_bencode v \<Longrightarrow> decodes v"
proof (induction v rule: encode.induct)
  case (1 v)
  have "decode_value c = Ok (Bytes v, moved c (length (encode_bytes v)))"
    if "wf_cursor c" "suffix c = encode_bytes v @ rest" for c rest
  proof -
    have "peek_byte c = Ok (hd (encode_bytes v))" using that by (intro peek_byte_hd) auto
    moreover have "hd (encode_bytes v) \<noteq> byte CHR ''i''"
      using hd_encode_bytes [of v] by (auto simp: is_ascii_digit_def byte_values)
    ultimately show ?thesis
      using that 1 hd_encode_bytes [of v]
      by (simp add: decode_value.simps [of c] decode_bytestring_encode)
  qed
  then show ?case by (simp add: decodes_def)
next
  case (2 i)
  have "decode_value c = Ok (Integer i, moved c (length (encode (Integer i))))"
    if "wf_cursor c" "suffix c = encode (Integer i) @ rest" for c rest
    using decode_int_encode [OF that] peek_byte_hd [OF that]
    by (simp add: decode_value.simps [of c])
  then show ?case by (simp add: decodes_def)
next
  case (3 vs)
  have "decode_value c = Ok (List vs, moved c (length (encode (List vs))))"
    if c: "wf_cursor c" "suffix c = encode (List vs) @ rest" for c rest
  proof -
    have "list_all decodes vs" using 3 by (auto simp: list_all_iff)
    moreover have "wf_cursor (moved c 1)"
      using c wf_cursor_after [of c "[byte CHR ''l'']"] by simp
    ultimately have "decode_list_loop [] (moved c 1) =
        Ok (List vs, moved (moved c 1) (length (concat (map encode vs)) + 1))"
      using c decode_list_loop_encode [of vs "moved c 1" rest "[]"] by simp
    with c show ?thesis
      by (simp add: decode_value.simps [of c] decode_list.simps [of c] cursor_ops byte_values
          is_ascii_digit_def)
  qed
  then show ?case by (simp add: decodes_def)
next
  case (4 m)
  have "decode_value c = Ok (Dict m, moved c (length (encode (Dict m))))"
    if c: "wf_cursor c" "suffix c = encode (Dict m) @ rest" for c rest
  proof -
    have "list_all (\<lambda>(k, v). wf_bytes k \<and> decodes v) m"
      using 4 by (fastforce simp: list_all_iff)
    moreover have "insert_entries [] m = m"
      using 4 foldl_bt_insert_ascending [of "[]" m] by simp
    ultimately show ?thesis
      using c decode_dict_encode [of m c rest] by (simp add: encode_entry_def)
  qed
  then show ?case by (simp add: decodes_def)
qed

section \<open>Whole inputs\<close>

lemma decode_encode_append:
  assumes "wf_bencode v" "wf_bytes (encode v @ rest)"
  shows "decode (encode v @ rest) = Ok v"
  using wf_decodes [OF assms(1)] wf_cursor_new [OF assms(2)]
  by (simp add: decode_def decodes_def)

lemma decode_result_wf: "wf_bytes input \<Longrightarrow> decode input = Ok v \<Longrightarrow> wf_bencode v"
  by (auto simp: decode_def and_then_eq_Ok_iff dest: decode_wf(1) [rotated])

section \<open>Re-encoding does not grow\<close>

text \<open>
  The canonical encoding of a decoded value is never longer than the bytes it was read from:
  signs, leading zeros and repeated keys can only shorten it.
\<close>

lemma length_nat_to_string_le:
  assumes "0 < k" "n < 10 ^ k"
  shows "length (nat_to_string n) \<le> k"
  using assms
proof (induction n arbitrary: k rule: nat_to_string.induct)
  case (1 n)
  show ?case
  proof (cases "n < 10")
    case True
    with 1 show ?thesis by (simp add: nat_to_string.simps [of n])
  next
    case False
    with "1.prems" obtain j where j: "k = Suc j" "0 < j"
      by (cases k; cases "k = 1") auto
    with "1.prems" have "n div 10 < 10 ^ j" by (simp add: less_mult_imp_div_less mult.commute)
    with "1.IH" False j have "length (nat_to_string (n div 10)) \<le> j" by blast
    with False j show ?thesis by (simp add: nat_to_string.simps [of n])
  qed
qed

lemma numeral_value_less:
  "list_all is_ascii_digit ds \<Longrightarrow> numeral_value ds < 10 ^ length ds"
proof (induction ds rule: rev_induct)
  case Nil
  then show ?case by simp
next
  case (snoc b ds)
  then have "numeral_value ds < 10 ^ length ds" "digit_value b < 10"
    by (simp_all add: digit_value_less)
  then show ?case by simp
qed

lemma length_nat_to_string_numeral:
  "ds \<noteq> [] \<Longrightarrow> list_all is_ascii_digit ds \<Longrightarrow> length (nat_to_string (numeral_value ds)) \<le> length ds"
  by (rule length_nat_to_string_le) (simp_all add: numeral_value_less)

lemma unsigned_spec_length:
  assumes "unsigned_spec neg s = Ok (i, n)"
  shows "length (i64_to_string i) \<le> n + (if neg then 1 else 0)"
proof -
  let ?ds = "takeWhile is_ascii_digit s"
  let ?x = "with_sign neg (numeral_value ?ds)"
  have ds: "?ds \<noteq> []" "in_i64 ?x" and i: "i = word_of_int ?x" and n: "n = length ?ds"
    using assms by (auto simp: unsigned_spec_def Let_def split: if_splits)
  have "list_all is_ascii_digit ?ds" by (auto simp: list_all_iff dest: set_takeWhileD)
  then have "length (nat_to_string (numeral_value ?ds)) \<le> n"
    using ds(1) n length_nat_to_string_numeral by simp
  then show ?thesis
    using sint_of_int_i64 [OF ds(2)]
    by (auto simp: i i64_to_string_def with_sign_def split: if_splits)
qed

lemma int_spec_length: "int_spec s = Ok (i, n) \<Longrightarrow> length (i64_to_string i) \<le> n"
  by (auto simp: int_spec_def case_list_eq_Ok_iff and_then_eq_Ok_iff split: if_splits
      dest!: unsigned_spec_length)

lemma sint_eq_unat:
  assumes "unat (i :: i64) < 2 ^ 63"
  shows "sint i = int (unat i)"
proof -
  define n where "n = unat i"
  have "n < 9223372036854775808" using assms by (simp add: n_def)
  then have "in_i64 (int n)" by (simp add: in_i64_def)
  then have "in_i64 (int (unat i))" by (simp only: n_def)
  from sint_of_int_i64 [OF this] show ?thesis by simp
qed

lemma bytestring_spec_length:
  assumes "bytestring_spec s = Ok (v, n)" "wf_bytes s"
  shows "length (encode v) \<le> n"
proof -
  obtain i k t where k: "int_spec s = Ok (i, k)" "drop k s = byte CHR '':'' # t"
    "unat i \<le> length t" and v: "v = Bytes (take (unat i) t)" "n = k + 1 + unat i"
    using assms(1) by (auto simp: bytestring_spec_def and_then_eq_Ok_iff case_list_eq_Ok_iff not_less
        split: if_splits)
  have "length t < 2 ^ 63" using arg_cong [OF k(2), of length] assms(2) by (simp add: wf_bytes_def)
  then have "sint i = int (unat i)" using k(3) by (intro sint_eq_unat) simp
  then have "i64_to_string i = nat_to_string (unat i)" by (simp add: i64_to_string_def)
  then have "length (nat_to_string (unat i)) \<le> k" using int_spec_length [OF k(1)] by simp
  with v k(3) show ?thesis by (simp add: encode_bytes_def)
qed

lemma wf_bytes_suffix: "wf_cursor c \<Longrightarrow> wf_bytes (suffix c)"
  by (auto simp: wf_cursor_def wf_bytes_def suffix_def)

lemma bytestring_spec_bound: "bytestring_spec s = Ok (v, n) \<Longrightarrow> n \<le> length s"
proof -
  assume "bytestring_spec s = Ok (v, n)"
  then obtain i k t where k: "int_spec s = Ok (i, k)" "drop k s = byte CHR '':'' # t"
    "unat (i :: i64) \<le> length t" and "n = k + 1 + unat i"
    by (auto simp: bytestring_spec_def and_then_eq_Ok_iff case_list_eq_Ok_iff not_less
        split: if_splits)
  moreover have "length s = k + Suc (length t)"
    using arg_cong [OF k(2), of length] by simp
  ultimately show "n \<le> length s" by simp
qed

lemma decode_bytestring_length:
  assumes "wf_cursor c" "decode_bytestring c = Ok (v, c')"
  shows "length (encode v) + left c' \<le> left c"
proof -
  obtain n where n: "bytestring_spec (suffix c) = Ok (v, n)" "c' = moved c n"
    using assms by (auto simp: decode_bytestring_eq and_then_eq_Ok_iff)
  then have "length (encode v) \<le> n" "n \<le> left c"
    using bytestring_spec_length wf_bytes_suffix [OF assms(1)] bytestring_spec_bound by fastforce+
  with n show ?thesis by simp
qed

lemma take_byte_left_Suc: "take_byte c = Ok (b, c') \<Longrightarrow> Suc (left c') \<le> left c"
  using steps_left [OF take_byte_steps] by fastforce

lemma decode_int_length:
  assumes "wf_cursor c" "decode_int c = Ok (v, c')"
  shows "length (encode v) + left c' \<le> left c"
proof -
  obtain b d i e f where d: "take_byte c = Ok (b, d)" "parse_int d = Ok (i, e)"
    "take_byte e = Ok (f, c')" and v: "v = Integer i"
    using assms(2) by (auto simp: decode_int_def and_then_eq_Ok_iff split: if_splits)
  have wf: "wf_cursor d" using assms(1) d(1) read_wf(2) by blast
  then obtain n where n: "int_spec (suffix d) = Ok (i, n)" "e = moved d n"
    using d(2) by (auto simp: parse_int_eq and_then_eq_Ok_iff)
  have "length (i64_to_string i) \<le> n" "n \<le> left d"
    using int_spec_length [OF n(1)] int_spec_bound [OF n(1)] by simp_all
  with n v take_byte_left_Suc [OF d(1)] take_byte_left_Suc [OF d(3)] show ?thesis by simp
qed

definition entries_length :: "dict \<Rightarrow> nat" where
  "entries_length m = length (concat (map encode_entry m))"

lemma entries_length_simps [simp]:
  "entries_length [] = 0"
  "entries_length ((k, v) # m) = length (encode_bytes k) + length (encode v) + entries_length m"
  by (simp_all add: entries_length_def encode_entry_def)

lemma length_encode_Dict: "length (encode (Dict m)) = entries_length m + 2"
  by (simp add: entries_length_def encode_entry_def)

lemma entries_length_bt_insert:
  "entries_length (bt_insert k v m) \<le>
    length (encode_bytes k) + length (encode v) + entries_length m"
  by (induction k v m rule: bt_insert.induct) auto

lemma decode_length:
  "wf_cursor c \<Longrightarrow> decode_value c = Ok (v, c') \<Longrightarrow> length (encode v) + left c' \<le> left c"
  "wf_cursor c \<Longrightarrow> decode_list c = Ok (v, c') \<Longrightarrow> length (encode v) + left c' \<le> left c"
  "wf_cursor c \<Longrightarrow> decode_list_loop vs c = Ok (v, c') \<Longrightarrow>
     length (encode v) + left c' \<le> left c + 1 + length (concat (map encode vs))"
  "wf_cursor c \<Longrightarrow> decode_dict c = Ok (v, c') \<Longrightarrow> length (encode v) + left c' \<le> left c"
  "wf_cursor c \<Longrightarrow> decode_dict_loop m c = Ok (v, c') \<Longrightarrow>
     length (encode v) + left c' \<le> left c + 1 + entries_length m"
proof (induction c and c and vs c and c and m c arbitrary: v c' and v c' and v c' and v c' and v c'
    rule: decode_induct)
  case (decode_value c)
  then show ?case
    by (auto simp: decode_value.simps [of c] and_then_eq_Ok_iff split: if_splits
        dest: decode_int_length decode_bytestring_length)
next
  case (decode_list c)
  obtain d where d: "take_byte c = Ok (byte CHR ''l'', d)" "decode_list_loop [] d = Ok (v, c')"
    by (rule decode_list_OkE [OF decode_list.prems(2)])
  with decode_list have "length (encode v) + left c' \<le> left d + 1"
    using read_wf(2) by fastforce
  with take_byte_left_Suc [OF d(1)] show ?case by simp
next
  case (decode_list_loop vs c)
  from decode_list_loop.prems(2) show ?case
  proof (cases rule: decode_list_loop_OkE)
    case (stop b)
    then show ?thesis using take_byte_left_Suc [OF stop(2)] stop(3) by simp
  next
    case (elem b w d)
    have "wf_cursor d" by (rule steps_wf [OF decode_value_steps [OF elem(3)] decode_list_loop.prems(1)])
    then have "length (encode v) + left c' \<le> left d + 1 + length (concat (map encode (vs @ [w])))"
      using decode_list_loop.IH(2) elem by blast
    moreover have "length (encode w) + left d \<le> left c"
      using decode_list_loop.IH(1) decode_list_loop.prems(1) elem by blast
    ultimately show ?thesis by simp
  qed
next
  case (decode_dict c)
  obtain d where d: "take_byte c = Ok (byte CHR ''d'', d)" "decode_dict_loop [] d = Ok (v, c')"
    by (rule decode_dict_OkE [OF decode_dict.prems(2)])
  with decode_dict have "length (encode v) + left c' \<le> left d + 1"
    using read_wf(2) by fastforce
  with take_byte_left_Suc [OF d(1)] show ?case by simp
next
  case (decode_dict_loop m c)
  from decode_dict_loop.prems(2) show ?case
  proof (cases rule: decode_dict_loop_OkE)
    case (stop b)
    then show ?thesis
      using take_byte_left_Suc [OF stop(2)] by (simp only: stop(3) length_encode_Dict)
  next
    case (entry b k d w e)
    have wf: "wf_cursor d" "wf_cursor e"
      using decode_dict_loop.prems(1) entry(3,4) read_wf(3,4) by blast+
    have "length (encode v) + left c' \<le> left e + 1 + entries_length (bt_insert k w m)"
      using decode_dict_loop.IH(2) entry wf(2) by blast
    moreover have "length (encode w) + left e \<le> left d"
      using decode_dict_loop.IH(1) entry wf(1) by blast
    moreover have "length (encode_bytes k) + left d \<le> left c"
      using decode_bytestring_length [OF decode_dict_loop.prems(1) entry(3)] by simp
    ultimately show ?thesis using entries_length_bt_insert [of k w m] by linarith
  qed
qed

lemma decode_length_le:
  "wf_bytes input \<Longrightarrow> decode input = Ok v \<Longrightarrow> length (encode v) \<le> length input"
  using decode_length(1) [OF wf_cursor_new]
  by (fastforce simp: decode_def and_then_eq_Ok_iff simp flip: length_suffix)

end
