(* ===== verification/Bencode_Local.thy ===== *)
theory Bencode_Local
  imports Bencode_Roundtrip
begin

text \<open>
  The decoder looks only at the bytes it consumes: bytes that follow a value do not change what
  is decoded, so encodings are prefix-free and a truncated encoding is an error.
\<close>

section \<open>A cursor over more data\<close>

definition extended :: "u8 list \<Rightarrow> cursor \<Rightarrow> cursor" where
  "extended xs c = c\<lparr>cur_data := cur_data c @ xs\<rparr>"

lemma extend_moved: "moved (extended xs c) n = extended xs (moved c n)"
  by (simp add: extended_def moved_def)

lemma suffix_extend: "wf_cursor c \<Longrightarrow> suffix (extended xs c) = suffix c @ xs"
  by (simp add: suffix_def extended_def wf_cursor_def)

lemma extend_wf: "wf_cursor (extended xs c) \<Longrightarrow> n \<le> left c \<Longrightarrow> wf_cursor (extended xs (moved c n))"
  by (auto simp: wf_cursor_def extended_def moved_def left_def)

lemma steps_extend: "steps k c d \<Longrightarrow> wf_cursor (extended xs c) \<Longrightarrow> wf_cursor (extended xs d)"
  by (auto simp: steps_def extend_wf)

text \<open>Both cursors of a comparison are valid.\<close>

definition extensible :: "u8 list \<Rightarrow> cursor \<Rightarrow> bool" where
  "extensible xs c \<longleftrightarrow> wf_cursor c \<and> wf_cursor (extended xs c)"

lemma extensible_steps: "extensible xs c \<Longrightarrow> steps k c d \<Longrightarrow> extensible xs d"
  by (auto simp: extensible_def steps_extend steps_wf)

lemma peek_byte_extend:
  "extensible xs c \<Longrightarrow> peek_byte c = Ok b \<Longrightarrow> peek_byte (extended xs c) = Ok b"
  by (auto simp: extensible_def peek_byte_eq suffix_extend split: list.splits)

lemma take_byte_extend:
  "extensible xs c \<Longrightarrow> take_byte c = Ok (b, d) \<Longrightarrow> take_byte (extended xs c) = Ok (b, extended xs d)"
  by (auto simp: extensible_def take_byte_eq suffix_extend extend_moved split: list.splits)

section \<open>Integers and byte strings\<close>

lemma takeWhile_stops:
  "length (takeWhile P s) < length s \<Longrightarrow> takeWhile P (s @ xs) = takeWhile P s"
  by (induction s) auto

lemma unsigned_spec_append:
  "unsigned_spec neg s = Ok (i, n) \<Longrightarrow> n < length s \<Longrightarrow> unsigned_spec neg (s @ xs) = Ok (i, n)"
  by (auto simp: unsigned_spec_def Let_def takeWhile_stops split: if_splits)

lemma int_spec_append:
  "int_spec s = Ok (i, n) \<Longrightarrow> n < length s \<Longrightarrow> int_spec (s @ xs) = Ok (i, n)"
proof (cases s)
  case (Cons b t)
  assume "int_spec s = Ok (i, n)" "n < length s"
  with Cons show ?thesis
    using unsigned_spec_append [of False s i n xs]
    by (auto simp: int_spec_def and_then_eq_Ok_iff split: if_splits dest: unsigned_spec_append)
qed (simp add: int_spec_def)

lemma bytestring_spec_append:
  assumes "bytestring_spec s = Ok (v, n)"
  shows "bytestring_spec (s @ xs) = Ok (v, n)"
proof -
  obtain i m b t where s: "int_spec s = Ok (i, m)" "drop m s = b # t" "b = byte CHR '':''"
    "unat i \<le> length t" "v = Bytes (take (unat i) t)" "n = m + 1 + unat i"
    using assms by (auto simp: bytestring_spec_def and_then_eq_Ok_iff case_list_eq_Ok_iff not_less
        split: if_splits)
  then have m: "m < length s" by (metis drop_eq_Nil linorder_not_le list.distinct(1))
  have "drop m (s @ xs) = b # (t @ xs)" using m s(2) by simp
  with int_spec_append [OF s(1) m] s(3-6) show ?thesis by (simp add: bytestring_spec_def)
qed

lemma parse_int_extend:
  assumes "extensible xs c" "parse_int c = Ok (i, d)" "0 < left d"
  shows "parse_int (extended xs c) = Ok (i, extended xs d)"
proof -
  have wf: "wf_cursor c" "wf_cursor (extended xs c)" using assms(1) by (simp_all add: extensible_def)
  obtain n where n: "int_spec (suffix c) = Ok (i, n)" "d = moved c n"
    using assms(2) by (auto simp: parse_int_eq [OF wf(1)] and_then_eq_Ok_iff)
  then have "int_spec (suffix c @ xs) = Ok (i, n)"
    using assms(3) by (intro int_spec_append) simp_all
  with n wf show ?thesis by (simp add: parse_int_eq [OF wf(2)] suffix_extend extend_moved)
qed

lemma decode_bytestring_extend:
  assumes "extensible xs c" "decode_bytestring c = Ok (v, d)"
  shows "decode_bytestring (extended xs c) = Ok (v, extended xs d)"
proof -
  have wf: "wf_cursor c" "wf_cursor (extended xs c)" using assms(1) by (simp_all add: extensible_def)
  obtain n where n: "bytestring_spec (suffix c) = Ok (v, n)" "d = moved c n"
    using assms(2) by (auto simp: decode_bytestring_eq [OF wf(1)] and_then_eq_Ok_iff)
  with bytestring_spec_append [OF n(1)] wf show ?thesis
    by (simp add: decode_bytestring_eq [OF wf(2)] suffix_extend extend_moved)
qed

lemma take_byte_pos: "take_byte c = Ok (b, d) \<Longrightarrow> 0 < left c"
  using take_byte_left [of c b d] by simp

lemma decode_int_extend:
  assumes "extensible xs c" "decode_int c = Ok (v, d)"
  shows "decode_int (extended xs c) = Ok (v, extended xs d)"
proof -
  obtain c1 i c2 where c: "take_byte c = Ok (byte CHR ''i'', c1)" "parse_int c1 = Ok (i, c2)"
    "take_byte c2 = Ok (byte CHR ''e'', d)" "v = Integer i"
    using assms(2) by (auto simp: decode_int_def and_then_eq_Ok_iff split: if_splits)
  have e1: "extensible xs c1" by (rule extensible_steps [OF assms(1) take_byte_steps [OF c(1)]])
  have e2: "extensible xs c2" by (rule extensible_steps [OF e1 parse_int_steps [OF c(2)]])
  show ?thesis
    using take_byte_extend [OF assms(1) c(1)] parse_int_extend [OF e1 c(2) take_byte_pos [OF c(3)]]
      take_byte_extend [OF e2 c(3)] c(4)
    by (simp add: decode_int_def)
qed

section \<open>Values\<close>

lemma decode_extend:
  "extensible xs c \<Longrightarrow> decode_value c = Ok (v, d) \<Longrightarrow> decode_value (extended xs c) = Ok (v, extended xs d)"
  "extensible xs c \<Longrightarrow> decode_list c = Ok (v, d) \<Longrightarrow> decode_list (extended xs c) = Ok (v, extended xs d)"
  "extensible xs c \<Longrightarrow> decode_list_loop vs c = Ok (v, d) \<Longrightarrow>
    decode_list_loop vs (extended xs c) = Ok (v, extended xs d)"
  "extensible xs c \<Longrightarrow> decode_dict c = Ok (v, d) \<Longrightarrow> decode_dict (extended xs c) = Ok (v, extended xs d)"
  "extensible xs c \<Longrightarrow> decode_dict_loop m c = Ok (v, d) \<Longrightarrow>
    decode_dict_loop m (extended xs c) = Ok (v, extended xs d)"
proof (induction c and c and vs c and c and m c arbitrary: v d and v d and v d and v d and v d
    rule: decode_induct)
  case (decode_value c)
  then obtain b where b: "peek_byte c = Ok b" by (auto simp: decode_value.simps [of c] and_then_eq_Ok_iff)
  from peek_byte_extend [OF decode_value.prems(1) b] b decode_value show ?case
    by (auto simp: decode_value.simps [of c] decode_value.simps [of "extended xs c"]
        split: if_splits dest: decode_int_extend decode_bytestring_extend)
next
  case (decode_list c)
  obtain c1 where c1: "take_byte c = Ok (byte CHR ''l'', c1)" "decode_list_loop [] c1 = Ok (v, d)"
    by (rule decode_list_OkE [OF decode_list.prems(2)])
  with decode_list extensible_steps [OF _ take_byte_steps [OF c1(1)]]
    take_byte_extend [OF _ c1(1)] show ?case
    by (simp add: decode_list.simps [of "extended xs c"])
next
  case (decode_list_loop vs c)
  note x = decode_list_loop.prems(1)
  from decode_list_loop.prems(2) show ?case
  proof (cases rule: decode_list_loop_OkE)
    case (stop b)
    with peek_byte_extend [OF x stop(1)] take_byte_extend [OF x stop(2)] show ?thesis
      by (simp add: decode_list_loop.simps [of vs "extended xs c"])
  next
    case (elem b w c1)
    with peek_byte_extend [OF x elem(1)] extensible_steps [OF x decode_value_steps [OF elem(3)]] decode_list_loop.IH x
    show ?thesis by (simp add: decode_list_loop.simps [of vs "extended xs c"])
  qed
next
  case (decode_dict c)
  obtain c1 where c1: "take_byte c = Ok (byte CHR ''d'', c1)" "decode_dict_loop [] c1 = Ok (v, d)"
    by (rule decode_dict_OkE [OF decode_dict.prems(2)])
  with decode_dict extensible_steps [OF _ take_byte_steps [OF c1(1)]]
    take_byte_extend [OF _ c1(1)] show ?case
    by (simp add: decode_dict.simps [of "extended xs c"])
next
  case (decode_dict_loop m c)
  note x = decode_dict_loop.prems(1)
  from decode_dict_loop.prems(2) show ?case
  proof (cases rule: decode_dict_loop_OkE)
    case (stop b)
    with peek_byte_extend [OF x stop(1)] take_byte_extend [OF x stop(2)] show ?thesis
      by (simp add: decode_dict_loop.simps [of m "extended xs c"])
  next
    case (entry b k c1 w c2)
    have "extensible xs c1" "extensible xs c2"
      using extensible_steps [OF x decode_bytestring_steps [OF entry(3)]]
        extensible_steps [OF _ decode_value_steps [OF entry(4)]] by blast+
    with entry peek_byte_extend [OF x entry(1)] decode_bytestring_extend [OF x entry(3)]
      decode_dict_loop.IH
    show ?thesis by (simp add: decode_dict_loop.simps [of m "extended xs c"])
  qed
qed

section \<open>Whole inputs\<close>

lemma extensible_new: "wf_bytes (s @ xs) \<Longrightarrow> extensible xs (cursor_new s)"
  by (simp add: extensible_def extended_def wf_cursor_def cursor_new_def wf_bytes_def)

lemma extended_new: "extended xs (cursor_new s) = cursor_new (s @ xs)"
  by (simp add: extended_def cursor_new_def)

lemma decode_more:
  assumes "decode s = Ok v" "wf_bytes (s @ xs)"
  shows "decode (s @ xs) = Ok v"
  using assms(1) decode_extend(1) [OF extensible_new [OF assms(2)]]
  by (auto simp: decode_def and_then_eq_Ok_iff extended_new)

lemma decode_not_crash: "wf_bytes s \<Longrightarrow> \<not> crashes (decode s)"
  using decode_no_crash(1) [OF wf_cursor_new] by (auto simp: decode_def crashes_and_then)

lemma decode_truncated_not_Ok:
  assumes "wf_bencode v" "wf_bytes (encode v)" "n < length (encode v)"
  shows "decode (take n (encode v)) \<noteq> Ok w"
proof
  let ?s = "take n (encode v)" and ?xs = "drop n (encode v)"
  assume "decode ?s = Ok w"
  then obtain d where d: "decode_value (cursor_new ?s) = Ok (w, d)"
    by (auto simp: decode_def and_then_eq_Ok_iff)
  obtain m where m: "m \<le> n" "d = moved (cursor_new ?s) m"
    using decode_value_steps [OF d] by (auto simp: steps_def left_def cursor_new_def)
  have "decode_value (cursor_new (encode v)) = Ok (w, moved (cursor_new (encode v)) m)"
    using decode_extend(1) [OF extensible_new d, of ?xs] assms(2) m(2)
    by (simp add: extended_new extend_moved [symmetric])
  moreover have "decode_value (cursor_new (encode v)) =
      Ok (v, moved (cursor_new (encode v)) (length (encode v)))"
    using wf_decodes [OF assms(1)] wf_cursor_new [OF assms(2)] by (simp add: decodes_def)
  ultimately show False using m(1) assms(3) by (simp add: moved_def cursor_new_def)
qed

section \<open>The contract of an encoding\<close>

text \<open>
  A self-delimiting code: what it encodes can be decoded in front of any further bytes. Such
  encodings are prefix-free, so messages can be concatenated.
\<close>

locale codec =
  fixes valid :: "'v \<Rightarrow> bool"
    and fits :: "'b list \<Rightarrow> bool"
    and enc :: "'v \<Rightarrow> 'b list"
    and dec :: "'b list \<Rightarrow> ('v, 'e) outcome"
  assumes dec_enc: "valid v \<Longrightarrow> fits (enc v @ rest) \<Longrightarrow> dec (enc v @ rest) = Ok v"
begin

lemma prefix_free:
  assumes "valid v" "valid w" "fits (enc v @ xs)" "enc v @ xs = enc w @ ys"
  shows "v = w \<and> xs = ys"
proof -
  have "dec (enc w @ ys) = Ok v" using dec_enc [OF assms(1,3)] by (simp only: assms(4))
  moreover have "dec (enc w @ ys) = Ok w"
    using assms(3) by (intro dec_enc [OF assms(2)]) (simp only: assms(4))
  ultimately have "v = w" by simp
  with assms(4) show ?thesis by simp
qed

lemma concat_injective:
  assumes nonempty: "\<And>v. enc v \<noteq> []"
    and fits: "\<And>s t. fits t \<Longrightarrow> length s \<le> length t \<Longrightarrow> fits s"
  shows "list_all valid vs \<Longrightarrow> list_all valid ws \<Longrightarrow> fits (concat (map enc vs)) \<Longrightarrow>
    concat (map enc vs) = concat (map enc ws) \<Longrightarrow> vs = ws"
proof (induction vs arbitrary: ws)
  case Nil
  then show ?case using nonempty by (cases ws) auto
next
  case (Cons v vs)
  then obtain w ws' where ws: "ws = w # ws'" using nonempty by (cases ws) auto
  have cut: "v = w \<and> concat (map enc vs) = concat (map enc ws')"
    by (rule prefix_free) (use Cons.prems ws in simp_all)
  have "fits (concat (map enc vs))" by (rule fits [OF Cons.prems(3)]) simp
  then have "vs = ws'" using Cons.IH [of ws'] Cons.prems(1,2) cut ws by simp
  with cut ws show ?case by simp
qed

end

interpretation bencoding: codec wf_bencode wf_bytes encode decode
  by unfold_locales (rule decode_encode_append)

section \<open>Properties\<close>

text \<open>A value with every constructor.\<close>

definition sample :: bencode where
  "sample = Dict [(bytes ''a'', List [Integer (- 42), Bytes []]),
     (bytes ''b'', Dict [(bytes ''k'', Bytes (bytes ''e''))])]"

lemma sample_wf:
  "wf_bencode sample" "wf_bytes (encode sample)" "wf_bytes (encode sample @ bytes ''xyz'')"
  by code_simp+

text \<open>
  C1. Round trip: decoding the encoding of a well-formed value gives the value back, whatever
  bytes follow it.
\<close>

theorem decode_encode:
  assumes "wf_bencode v" "wf_bytes (encode v @ rest)"
  shows "decode (encode v @ rest) = Ok v"
  by (rule decode_encode_append [OF assms])

theorem decode_encode_witness: "decode (encode sample @ bytes ''xyz'') = Ok sample"
  by (rule decode_encode [OF sample_wf(1,3)])

text \<open>
  C3. The decoder is total: on every byte slice it returns a value or an error. No index, slice or
  subtraction fails, and its \<open>unreachable!\<close> arm is unreachable.
\<close>

theorem decode_never_panics:
  assumes "wf_bytes input"
  shows "\<not> crashes (decode input)"
  by (rule decode_not_crash [OF assms])

theorem decode_never_panics_witness: "\<not> crashes (decode (bytes ''d+3:keyi-9e''))"
  by (rule decode_never_panics) (simp add: wf_bytes_def)

text \<open>
  C7. Every value the decoder returns is well formed: the keys of all dictionaries strictly ascend.
  Its canonical encoding is no longer than the input and decodes to the same value.
\<close>

theorem decode_canonical:
  assumes "wf_bytes input" "decode input = Ok v"
  shows "wf_bencode v \<and> length (encode v) \<le> length input \<and> decode (encode v) = Ok v"
proof -
  have "wf_bencode v" "length (encode v) \<le> length input"
    using decode_result_wf [OF assms] decode_length_le [OF assms] by auto
  with decode_encode_append [of v "[]"] wf_bytes_shorter [OF _ assms(1)] show ?thesis by simp
qed

theorem decode_canonical_witness:
  "decode (bytes ''d1:bi+007e1:ai0e1:b0:eX'') = Ok (Dict [(bytes ''a'', Integer 0), (bytes ''b'', Bytes [])]) \<and>
   wf_bencode (Dict [(bytes ''a'', Integer 0), (bytes ''b'', Bytes [])])"
proof -
  have "decode (bytes ''d1:bi+007e1:ai0e1:b0:eX'') =
      Ok (Dict [(bytes ''a'', Integer 0), (bytes ''b'', Bytes [])])" by code_simp
  with decode_canonical [OF _ this] show ?thesis by (simp add: wf_bytes_def)
qed

text \<open>C36. A truncated encoding is rejected with an error, never taken for a shorter value.\<close>

theorem decode_truncated:
  assumes "wf_bencode v" "wf_bytes (encode v)" "n < length (encode v)"
  shows "\<exists>e. decode (take n (encode v)) = Err e"
proof -
  have "wf_bytes (take n (encode v))" by (rule wf_bytes_shorter [OF _ assms(2)]) simp
  then show ?thesis
    using decode_truncated_not_Ok [OF assms] decode_not_crash [of "take n (encode v)"]
    by (cases "decode (take n (encode v))") auto
qed

theorem decode_truncated_witness: "\<exists>e. decode (take 20 (encode sample)) = Err e"
proof (rule decode_truncated [OF sample_wf(1,2)])
  show "20 < length (encode sample)" by code_simp
qed

text \<open>Bytes after the first value are never looked at, for any input that decodes.\<close>

theorem decode_ignores_rest:
  assumes "decode input = Ok v" "wf_bytes (input @ rest)"
  shows "decode (input @ rest) = Ok v"
  by (rule decode_more [OF assms])

theorem decode_ignores_rest_witness: "decode (bytes ''i+5e'' @ bytes ''garbage'') = Ok (Integer 5)"
  by (rule decode_ignores_rest) code_simp+

text \<open>
  A sequence of values can be sent as the concatenation of their encodings: it can be cut in one
  way only.
\<close>

theorem encode_concat_unique:
  assumes "list_all wf_bencode vs" "list_all wf_bencode ws"
    and "wf_bytes (concat (map encode vs))" "concat (map encode vs) = concat (map encode ws)"
  shows "vs = ws"
  by (rule bencoding.concat_injective [OF encode_nonempty wf_bytes_shorter assms])

text \<open>
  C17. A dictionary may list its entries in any order and repeat keys: it decodes to the map with
  ascending keys in which the last binding of every key wins.
\<close>

theorem decode_dict_entries:
  assumes "list_all (\<lambda>(k, v). wf_bytes k \<and> wf_bencode v) es"
    and "wf_bytes (byte CHR ''d'' # concat (map encode_entry es) @ byte CHR ''e'' # rest)"
  shows "\<exists>m. decode (byte CHR ''d'' # concat (map encode_entry es) @ byte CHR ''e'' # rest) = Ok (Dict m) \<and>
    ascending m \<and> (\<forall>k. bt_get m k = map_of (rev es) k)"
proof -
  let ?c = "cursor_new (byte CHR ''d'' # concat (map encode_entry es) @ byte CHR ''e'' # rest)"
  have "list_all (\<lambda>(k, v). wf_bytes k \<and> decodes v) es"
    using assms(1) by (auto simp: list_all_iff wf_decodes)
  then have "decode_value ?c = Ok (Dict (insert_entries [] es),
      moved ?c (length (concat (map encode_entry es)) + 2))"
    using wf_cursor_new [OF assms(2)] by (rule decode_dict_encode) simp
  moreover have "bt_get (insert_entries [] es) k = map_of (rev es) k" for k
    using btree.get_insert_all [of "[]" es k] by (simp add: btree.get_empty split: option.split)
  moreover have "ascending (insert_entries [] es)"
    using btree.invar_insert_all [of "[]" es] by simp
  ultimately show ?thesis by (simp add: decode_def)
qed

theorem decode_dict_entries_witness:
  "\<exists>m. decode (byte CHR ''d'' # concat (map encode_entry [(bytes ''z'', Integer 1), (bytes ''a'', Integer 2),
      (bytes ''z'', Integer 3)]) @ byte CHR ''e'' # []) = Ok (Dict m) \<and>
    bt_get m (bytes ''z'') = Some (Integer 3)"
  using decode_dict_entries [of "[(bytes ''z'', Integer 1), (bytes ''a'', Integer 2), (bytes ''z'', Integer 3)]" "[]"]
  by (fastforce simp: wf_bytes_def encode_entry_def encode_bytes_def bytes_def byte_def
      nat_to_string.simps i64_to_string_def)

text \<open>
  C25. \<open>parse_int\<close> on any bytes: an optional sign, then the longest run of digits, whose value with
  the sign is the result if it fits into an i64 (the least one included, since negative numbers
  are built downwards); leading zeros are accepted, and the cursor stops behind the last digit.
\<close>

theorem parse_int_spec:
  assumes "wf_cursor c"
  shows "parse_int c = and_then (int_spec (suffix c)) (\<lambda>(i, n). Ok (i, moved c n))"
  by (rule parse_int_eq [OF assms])

theorem parse_int_spec_witness:
  "parse_int (cursor_new (bytes ''-0009223372036854775808x'')) =
    Ok (- 9223372036854775808, moved (cursor_new (bytes ''-0009223372036854775808x'')) 23) \<and>
   parse_int (cursor_new (bytes ''9223372036854775808'')) = Err OversizedInteger"
proof -
  have "int_spec (bytes ''-0009223372036854775808x'') = Ok (- 9223372036854775808, 23)"
    "int_spec (bytes ''9223372036854775808'') = Err OversizedInteger"
    by (simp_all add: int_spec_def unsigned_spec_def bytes_def byte_def is_ascii_digit_def
        numeral_value_def digit_value_def with_sign_def in_i64_def)
  then show ?thesis
    using parse_int_spec [of "cursor_new (bytes ''-0009223372036854775808x'')"]
      parse_int_spec [of "cursor_new (bytes ''9223372036854775808'')"]
    by (simp add: wf_bytes_def)
qed

text \<open>
  A negative length is cast to a huge one, which no slice can satisfy: the byte string is
  rejected, and the slice expression behind the check never panics.
\<close>

theorem negative_length_rejected:
  assumes "wf_cursor c" "parse_int c = Ok (i, c1)" "sint i < 0"
    and "take_byte c1 = Ok (byte CHR '':'', c2)"
  shows "decode_bytestring c = Err InvalidStringSize"
proof -
  have "wf_cursor c1" by (rule steps_wf [OF parse_int_steps [OF assms(2)] assms(1)])
  then have "wf_cursor c2" by (rule steps_wf [OF take_byte_steps [OF assms(4)]])
  moreover have "2 ^ 63 \<le> uint i"
  proof (rule ccontr)
    assume "\<not> 2 ^ 63 \<le> uint i"
    moreover have "0 \<le> uint i" by simp
    ultimately have "- (2 ^ 63) \<le> uint i" "uint i < 2 ^ 63" by linarith+
    then have "sint i = uint i" by (simp add: sint_uint signed_take_bit_int_eq_self)
    with assms(3) show False by simp
  qed
  ultimately have "int (left c2) < uint i"
    by (simp add: wf_cursor_def wf_bytes_def left_def)
  with assms \<open>wf_cursor c2\<close> show ?thesis by (simp add: decode_bytestring_def remaining_eq)
qed

end
