(* ===== verification/Utf8.thy ===== *)
theory Utf8
  imports Prelude
begin

text \<open>
  Rust's strings: a \<open>String\<close> is a list of Unicode scalar values, \<open>as_bytes\<close> its UTF-8 encoding,
  \<open>str::from_utf8\<close> the checked and \<open>String::from_utf8_lossy\<close> the lossy decoder, which puts the
  replacement character in the place of every maximal invalid prefix.
\<close>

type_synonym rust_string = "nat list"

definition scalar :: "nat \<Rightarrow> bool" where
  "scalar c \<longleftrightarrow> c < 55296 \<or> 57344 \<le> c \<and> c < 1114112"

definition str_of :: "string \<Rightarrow> rust_string" where
  "str_of s = map of_char s"

section \<open>Encoding\<close>

definition octet :: "nat \<Rightarrow> u8" where
  "octet n = of_nat n"

definition utf8_encode :: "nat \<Rightarrow> u8 list" where
  "utf8_encode c =
     (if c < 128 then [octet c]
      else if c < 2048 then [octet (192 + c div 64), octet (128 + c mod 64)]
      else if c < 65536 then
        [octet (224 + c div 4096), octet (128 + c div 64 mod 64), octet (128 + c mod 64)]
      else
        [octet (240 + c div 262144), octet (128 + c div 4096 mod 64),
         octet (128 + c div 64 mod 64), octet (128 + c mod 64)])"

definition as_bytes :: "rust_string \<Rightarrow> u8 list" where
  "as_bytes s = concat (map utf8_encode s)"

section \<open>Decoding\<close>

definition is_cont :: "nat \<Rightarrow> bool" where
  "is_cont b \<longleftrightarrow> 128 \<le> b \<and> b < 192"

text \<open>The second byte of a sequence of three or four: no overlong forms, no surrogates.\<close>

definition second_ok :: "nat \<Rightarrow> nat \<Rightarrow> bool" where
  "second_ok a b \<longleftrightarrow> is_cont b \<and> (a = 224 \<longrightarrow> 160 \<le> b) \<and> (a = 237 \<longrightarrow> b < 160) \<and>
     (a = 240 \<longrightarrow> 144 \<le> b) \<and> (a = 244 \<longrightarrow> b < 144)"

text \<open>The byte at an index, zero behind the end: zero continues no sequence.\<close>

definition safe_get :: "u8 list \<Rightarrow> nat \<Rightarrow> nat" where
  "safe_get bs i = (if i < length bs then unat (bs ! i) else 0)"

text \<open>
  The next character of a nonempty byte string, or \<open>None\<close> for an invalid prefix, and the number
  of bytes it takes up.
\<close>

definition utf8_next :: "u8 list \<Rightarrow> nat option \<times> nat" where
  "utf8_next bs =
     (let a = safe_get bs 0; b = safe_get bs 1; c = safe_get bs 2; d = safe_get bs 3 in
      if a < 128 then (Some a, 1)
      else if 194 \<le> a \<and> a < 224 then
        if is_cont b then (Some ((a - 192) * 64 + (b - 128)), 2) else (None, 1)
      else if 224 \<le> a \<and> a < 240 then
        if \<not> second_ok a b then (None, 1)
        else if \<not> is_cont c then (None, 2)
        else (Some ((a - 224) * 4096 + (b - 128) * 64 + (c - 128)), 3)
      else if 240 \<le> a \<and> a < 245 then
        if \<not> second_ok a b then (None, 1)
        else if \<not> is_cont c then (None, 2)
        else if \<not> is_cont d then (None, 3)
        else (Some ((a - 240) * 262144 + (b - 128) * 4096 + (c - 128) * 64 + (d - 128)), 4)
      else (None, 1))"

lemma utf8_next_pos: "0 < snd (utf8_next bs)"
  by (simp add: utf8_next_def Let_def)

function from_utf8 :: "u8 list \<Rightarrow> rust_string option" where
  "from_utf8 bs =
     (if bs = [] then Some []
      else case fst (utf8_next bs) of
        None \<Rightarrow> None
      | Some c \<Rightarrow> map_option ((#) c) (from_utf8 (drop (snd (utf8_next bs)) bs)))"
  by pat_completeness auto
termination
  by (relation "measure length") (auto simp: utf8_next_pos)

function from_utf8_lossy :: "u8 list \<Rightarrow> rust_string" where
  "from_utf8_lossy bs =
     (if bs = [] then []
      else (case fst (utf8_next bs) of Some c \<Rightarrow> c | None \<Rightarrow> 65533) #
        from_utf8_lossy (drop (snd (utf8_next bs)) bs))"
  by pat_completeness auto
termination
  by (relation "measure length") (auto simp: utf8_next_pos)

declare from_utf8.simps [simp del] from_utf8_lossy.simps [simp del]

section \<open>Round trips\<close>

lemma safe_get_Cons [simp]:
  "safe_get (b # bs) 0 = unat b" "safe_get (b # bs) (Suc i) = safe_get bs i"
  "safe_get (b # bs) (numeral n) = safe_get bs (pred_numeral n)"
  by (simp_all add: safe_get_def numeral_eq_Suc)

lemma unat_octet [simp]: "n < 256 \<Longrightarrow> unat (octet n) = n"
  by (simp add: octet_def unat_of_nat take_bit_nat_eq_self)

lemma octet_unat [simp]: "octet (unat b) = b"
  by (simp add: octet_def)

lemma utf8_encode_nonempty [simp]: "utf8_encode c \<noteq> []"
  by (simp add: utf8_encode_def)

lemma utf8_next_encode:
  assumes "scalar c"
  shows "utf8_next (utf8_encode c @ s) = (Some c, length (utf8_encode c))"
proof -
  consider "c < 128" | "128 \<le> c" "c < 2048" | "2048 \<le> c" "c < 65536" | "65536 \<le> c" "c < 1114112"
    using assms unfolding scalar_def by linarith
  then show ?thesis
  proof cases
    case 1
    then show ?thesis by (simp add: utf8_encode_def utf8_next_def Let_def)
  next
    case 2
    then have "2 \<le> c div 64" "c div 64 < 32" by auto
    with 2 show ?thesis
      by (simp add: utf8_encode_def utf8_next_def Let_def is_cont_def)
  next
    case 3
    define x y z where "x = c div 64 div 64" and "y = c div 64 mod 64" and "z = c mod 64"
    have enc: "utf8_encode c = [octet (224 + x), octet (128 + y), octet (128 + z)]"
      using 3 by (simp add: utf8_encode_def x_def y_def z_def div_mult2_eq [symmetric])
    have xy: "x * 64 + y = c div 64" "c div 64 * 64 + z = c" "y < 64" "z < 64"
      by (simp_all add: x_def y_def z_def)
    have "32 \<le> c div 64" "c div 64 < 1024" "c div 64 < 864 \<or> 896 \<le> c div 64"
      using 3 assms by (auto simp: scalar_def)
    then have "x < 16" "x = 0 \<Longrightarrow> 32 \<le> y" "x = 13 \<Longrightarrow> y < 32" using xy by linarith+
    moreover have "x * 4096 + y * 64 + z = c" using xy by linarith
    ultimately show ?thesis
      using xy(3,4) by (simp add: enc utf8_next_def Let_def is_cont_def second_ok_def)
  next
    case 4
    define w x y z where "w = c div 64 div 64 div 64" and "x = c div 64 div 64 mod 64"
      and "y = c div 64 mod 64" and "z = c mod 64"
    have enc: "utf8_encode c = [octet (240 + w), octet (128 + x), octet (128 + y), octet (128 + z)]"
      using 4 by (simp add: utf8_encode_def w_def x_def y_def z_def div_mult2_eq [symmetric])
    have wx: "w * 64 + x = c div 64 div 64" "c div 64 div 64 * 64 + y = c div 64" "c div 64 * 64 + z = c"
      "x < 64" "y < 64" "z < 64"
      by (simp_all add: w_def x_def y_def z_def)
    have "16 \<le> c div 64 div 64" "c div 64 div 64 < 272"
      using 4 by (simp_all add: div_mult2_eq [symmetric])
    then have "w < 5" "w = 0 \<Longrightarrow> 16 \<le> x" "w = 4 \<Longrightarrow> x < 16" using wx by linarith+
    moreover have "w * 262144 + x * 4096 + y * 64 + z = c" using wx by linarith
    ultimately show ?thesis
      using wx(4-6) by (simp add: enc utf8_next_def Let_def is_cont_def second_ok_def)
  qed
qed

lemma safe_get_contD: "is_cont (safe_get bs i) \<Longrightarrow> i < length bs"
  by (auto simp: safe_get_def is_cont_def split: if_splits)

lemma base_64:
  fixes q z :: nat
  assumes "z < 64"
  shows "(q * 64 + z) div 64 = q" "(q * 64 + z) mod 64 = z"
  using assms by simp_all

lemma div_64_64: "n div 4096 = n div 64 div 64" "n div 262144 = n div 64 div 64 div 64" for n :: nat
  by (simp_all add: div_mult2_eq [symmetric])

lemma utf8_next_SomeD:
  assumes "utf8_next bs = (Some ch, n)" "bs \<noteq> []"
  shows "scalar ch \<and> n \<le> length bs \<and> take n bs = utf8_encode ch"
proof -
  define a b c d where "a = safe_get bs 0" and "b = safe_get bs 1" and "c = safe_get bs 2"
    and "d = safe_get bs 3"
  note defs = a_def b_def c_def d_def
  have nth: "bs ! i = octet (safe_get bs i)" if "i < length bs" for i
    using that by (simp add: safe_get_def)
  have take: "take n bs = map (\<lambda>i. octet (safe_get bs i)) [0..<n]" if "n \<le> length bs" for n
    using that by (intro nth_equalityI) (simp_all add: nth)
  consider "a < 128" "ch = a" "n = 1"
    | "194 \<le> a" "a < 224" "is_cont b" "ch = (a - 192) * 64 + (b - 128)" "n = 2"
    | "224 \<le> a" "a < 240" "second_ok a b" "is_cont c"
      "ch = (a - 224) * 4096 + (b - 128) * 64 + (c - 128)" "n = 3"
    | "240 \<le> a" "a < 245" "second_ok a b" "is_cont c" "is_cont d"
      "ch = (a - 240) * 262144 + (b - 128) * 4096 + (c - 128) * 64 + (d - 128)" "n = 4"
    using assms(1) unfolding utf8_next_def Let_def defs [symmetric] by (auto split: if_splits)
  then show ?thesis
  proof cases
    case 1
    have "1 \<le> length bs" using assms(2) by (cases bs) simp_all
    then show ?thesis
      using 1 take [of 1] by (simp add: utf8_encode_def scalar_def defs)
  next
    case 2
    obtain x y where xy: "a = 192 + x" "b = 128 + y" "2 \<le> x" "x < 32" "y < 64"
      using 2(1-3) by (auto simp: is_cont_def le_iff_add)
    have "2 \<le> length bs" using safe_get_contD [of bs 1] 2(3) by (simp add: b_def)
    moreover have "take 2 bs = [octet a, octet b]"
      using take [of 2] calculation by (simp add: defs upt_rec numeral_eq_Suc)
    ultimately show ?thesis
      using xy 2(4,5) by (simp add: utf8_encode_def scalar_def)
  next
    case 3
    obtain x y z where xyz: "a = 224 + x" "b = 128 + y" "c = 128 + z" "x < 16" "y < 64" "z < 64"
      using 3(1-4) by (auto simp: second_ok_def is_cont_def le_iff_add)
    have lead: "x = 0 \<Longrightarrow> 32 \<le> y" "x = 13 \<Longrightarrow> y < 32" using 3(3) xyz by (auto simp: second_ok_def)
    have "3 \<le> length bs" using safe_get_contD [of bs 2] 3(4) by (simp add: c_def)
    moreover have "take 3 bs = [octet a, octet b, octet c]"
      using take [of 3] calculation by (simp add: defs upt_rec numeral_eq_Suc)
    moreover have ch: "ch = (x * 64 + y) * 64 + z" using 3(5) xyz by simp
    moreover have "ch div 4096 = x" "ch div 64 mod 64 = y" "ch mod 64 = z"
      unfolding ch div_64_64 base_64 [OF xyz(5)] base_64 [OF xyz(6)] by simp_all
    moreover have "2048 \<le> ch" using ch lead(1) by (cases "x = 0") simp_all
    moreover have "ch < 65536" using ch xyz(4-6) by simp
    moreover have "scalar ch"
    proof -
      consider "x \<le> 12" | "x = 13" "y < 32" | "14 \<le> x" using lead(2) by linarith
      then show ?thesis by cases (use ch xyz(4-6) in \<open>simp_all add: scalar_def\<close>)
    qed
    ultimately show ?thesis using xyz 3(6) by (simp add: utf8_encode_def)
  next
    case 4
    obtain w x y z where wxyz: "a = 240 + w" "b = 128 + x" "c = 128 + y" "d = 128 + z"
      "w < 5" "x < 64" "y < 64" "z < 64"
      using 4(1-5) by (auto simp: second_ok_def is_cont_def le_iff_add)
    have lead: "w = 0 \<Longrightarrow> 16 \<le> x" "w = 4 \<Longrightarrow> x < 16" using 4(3) wxyz by (auto simp: second_ok_def)
    have "4 \<le> length bs" using safe_get_contD [of bs 3] 4(5) by (simp add: d_def)
    moreover have "take 4 bs = [octet a, octet b, octet c, octet d]"
      using take [of 4] calculation by (simp add: defs upt_rec numeral_eq_Suc)
    moreover have ch: "ch = ((w * 64 + x) * 64 + y) * 64 + z" using 4(6) wxyz by simp
    moreover have "ch div 262144 = w" "ch div 4096 mod 64 = x" "ch div 64 mod 64 = y" "ch mod 64 = z"
      unfolding ch div_64_64 base_64 [OF wxyz(6)] base_64 [OF wxyz(7)] base_64 [OF wxyz(8)]
      by simp_all
    moreover have "65536 \<le> ch" using ch lead(1) by (cases "w = 0") simp_all
    moreover have "ch < 1114112" using ch lead(2) wxyz(5-8) by (cases "w = 4") simp_all
    ultimately show ?thesis using wxyz 4(7) by (simp add: utf8_encode_def scalar_def)
  qed
qed

lemma from_utf8_Nil [simp]: "from_utf8 [] = Some []" and from_utf8_lossy_Nil [simp]: "from_utf8_lossy [] = []"
  by (simp_all add: from_utf8.simps from_utf8_lossy.simps)

text \<open>The checked decoder is the inverse of the encoding, and rejects everything else.\<close>

lemma from_utf8_as_bytes: "list_all scalar s \<Longrightarrow> from_utf8 (as_bytes s) = Some s"
proof (induction s)
  case Nil
  then show ?case by (simp add: as_bytes_def from_utf8.simps)
next
  case (Cons c s)
  then show ?case
    using utf8_next_encode [of c "as_bytes s"]
    by (simp add: as_bytes_def from_utf8.simps [of "utf8_encode c @ _"])
qed

lemma from_utf8_SomeD: "from_utf8 bs = Some s \<Longrightarrow> list_all scalar s \<and> as_bytes s = bs"
proof (induction bs arbitrary: s rule: from_utf8.induct)
  case (1 bs)
  show ?case
  proof (cases "bs = []")
    case True
    with 1 show ?thesis by (simp add: from_utf8.simps as_bytes_def)
  next
    case False
    obtain c n where nx: "utf8_next bs = (Some c, n)" and "fst (utf8_next bs) = Some c"
      using "1.prems" False
      by (cases "utf8_next bs"; cases "fst (utf8_next bs)") (simp_all add: from_utf8.simps [of bs])
    moreover then obtain s' where "s = c # s'" "from_utf8 (drop n bs) = Some s'"
      using "1.prems" False by (auto simp: from_utf8.simps [of bs])
    ultimately show ?thesis
      using "1.IH" [of c s'] False utf8_next_SomeD [OF nx False]
      by (auto simp: as_bytes_def) (metis append_take_drop_id)
  qed
qed

text \<open>The lossy decoder agrees with the checked one where that succeeds.\<close>

lemma from_utf8_lossy_valid: "from_utf8 bs = Some s \<Longrightarrow> from_utf8_lossy bs = s"
proof (induction bs arbitrary: s rule: from_utf8.induct)
  case (1 bs)
  then show ?case
    by (cases "bs = []"; cases "fst (utf8_next bs)")
      (auto simp: from_utf8.simps [of bs] from_utf8_lossy.simps [of bs])
qed

lemma from_utf8_lossy_scalar: "list_all scalar (from_utf8_lossy bs)"
proof (induction bs rule: from_utf8_lossy.induct)
  case (1 bs)
  show ?case
  proof (cases "bs = []")
    case False
    have "scalar (case fst (utf8_next bs) of Some c \<Rightarrow> c | None \<Rightarrow> 65533)"
      using utf8_next_SomeD [OF _ False] by (cases "utf8_next bs") (auto simp: scalar_def split: option.split)
    with 1 False show ?thesis by (simp add: from_utf8_lossy.simps [of bs])
  qed (simp add: from_utf8_lossy.simps)
qed

end
