(* ===== verification/Bencode_Display.thy ===== *)
theory Bencode_Display
  imports Bencode Utf8
begin

text \<open>
  \<open>fmt_bytes\<close> and the \<open>Display\<close> instance of \<open>Bencode\<close>, which format the messages that the network
  thread sends to the user interface.
\<close>

text \<open>\<open>format!("{:02X?}", b)\<close>: the bytes of a slice as two upper-case hexadecimal digits each.\<close>

definition hex_digit :: "nat \<Rightarrow> nat" where
  "hex_digit d = (if d < 10 then 48 + d else 55 + d)"

definition hex_byte :: "u8 \<Rightarrow> rust_string" where
  "hex_byte b = [hex_digit (unat b div 16), hex_digit (unat b mod 16)]"

text \<open>\<open>[String]::join\<close>.\<close>

fun join :: "rust_string \<Rightarrow> rust_string list \<Rightarrow> rust_string" where
  "join sep [] = []"
| "join sep [s] = s"
| "join sep (s # t # ss) = s @ sep @ join sep (t # ss)"

definition debug_bytes :: "u8 list \<Rightarrow> rust_string" where
  "debug_bytes b = str_of ''['' @ join (str_of '', '') (map hex_byte b) @ str_of '']''"

definition fmt_bytes :: "u8 list \<Rightarrow> rust_string" where
  "fmt_bytes b = (case from_utf8 b of Some v \<Rightarrow> v | None \<Rightarrow> debug_bytes b)"

fun display :: "bencode \<Rightarrow> rust_string" where
  "display (Bytes b) = fmt_bytes b"
| "display (Integer i) = map unat (i64_to_string i)"
| "display (List l) = str_of ''['' @ join (str_of '', '') (map display l) @ str_of '']''"
| "display (Dict d) =
     str_of ''{'' @
     join (str_of '', '') (map (\<lambda>(k, v). fmt_bytes k @ str_of '' => '' @ display v) d) @
     str_of ''}''"

section \<open>The text is well formed\<close>

lemma scalar_small: "n < 256 \<Longrightarrow> scalar n"
  by (simp add: scalar_def)

lemma scalar_str_of: "list_all scalar (str_of s)"
proof -
  have "of_char c < (256::nat)" for c
    using range_nat_of_char by (metis atLeastLessThan_iff rangeI)
  then show ?thesis by (simp add: str_of_def list_all_iff scalar_small)
qed

lemma list_all_join:
  "list_all P sep \<Longrightarrow> (\<And>s. s \<in> set ss \<Longrightarrow> list_all P s) \<Longrightarrow> list_all P (join sep ss)"
  by (induction sep ss rule: join.induct) simp_all

lemma length_join:
  "ss \<noteq> [] \<Longrightarrow> (\<And>s. s \<in> set ss \<Longrightarrow> length s = n) \<Longrightarrow>
    length (join sep ss) + length sep = length ss * (n + length sep)"
  by (induction sep ss rule: join.induct) simp_all

lemma scalar_hex_byte: "list_all scalar (hex_byte b)"
proof -
  have "unat b div 16 < 16" "unat b mod 16 < 16" using unat_lt_256 [of b] by simp_all
  then show ?thesis by (simp add: hex_byte_def hex_digit_def scalar_small)
qed

lemma scalar_debug_bytes: "list_all scalar (debug_bytes b)"
  by (auto simp: debug_bytes_def scalar_str_of scalar_hex_byte intro!: list_all_join)

lemma scalar_fmt_bytes: "list_all scalar (fmt_bytes b)"
  using from_utf8_SomeD [of b] scalar_debug_bytes by (auto simp: fmt_bytes_def split: option.split)

lemma scalar_display: "list_all scalar (display v)"
proof (induction v)
  case (Integer i)
  then show ?case by (simp add: list_all_iff scalar_small unat_lt_256)
next
  case (List l)
  then show ?case by (auto simp: scalar_str_of intro!: list_all_join)
next
  case (Dict d)
  then show ?case
    by (auto simp: scalar_str_of scalar_fmt_bytes intro!: list_all_join)
qed (simp add: scalar_fmt_bytes)

lemma length_debug_bytes: "b \<noteq> [] \<Longrightarrow> length (debug_bytes b) = 4 * length b"
proof -
  assume "b \<noteq> []"
  then have "length (join (str_of '', '') (map hex_byte b)) + length (str_of '', '') =
      length (map hex_byte b) * (2 + length (str_of '', ''))"
    by (intro length_join) (auto simp: hex_byte_def)
  then show ?thesis by (simp add: debug_bytes_def str_of_def)
qed

text \<open>
  The text of a value is a valid string. A byte string that is valid UTF-8 is shown as its
  characters, and nothing else has those bytes; any other is shown as its hexadecimal
  dump, four characters a byte.
\<close>

theorem display_bytes:
  "list_all scalar (display v) \<and>
   (case from_utf8 b of
      Some s \<Rightarrow> display (Bytes b) = s \<and> as_bytes (display (Bytes b)) = b
    | None \<Rightarrow> length (display (Bytes b)) = 4 * length b)"
  using scalar_display [of v] from_utf8_SomeD [of b] length_debug_bytes [of b]
  by (cases "b = []") (auto simp: fmt_bytes_def split: option.split)

end
