(* ===== verification/Bencode_Cost.thy ===== *)
theory Bencode_Cost
  imports Bencode_Decode
begin

text \<open>
  What decoding costs. The functions below follow the calls of the decoder and count the calls of
  \<open>decode_value\<close>; \<open>join\<close> says what the calls of one loop add up to. With \<open>(+)\<close> it is the number of
  all calls, with \<open>max\<close> the number of them that are on the stack at the same time, since the
  decoder recurses once for every level of nesting.
\<close>

function (sequential)
  cost_value :: "(nat \<Rightarrow> nat \<Rightarrow> nat) \<Rightarrow> cursor \<Rightarrow> nat" and
  cost_list_loop :: "(nat \<Rightarrow> nat \<Rightarrow> nat) \<Rightarrow> cursor \<Rightarrow> nat" and
  cost_dict_loop :: "(nat \<Rightarrow> nat \<Rightarrow> nat) \<Rightarrow> cursor \<Rightarrow> nat"
where
  "cost_value join c =
     1 + (case peek_byte c of
            Ok b \<Rightarrow>
              if b = byte CHR ''l'' then
                (case take_byte c of Ok (_, c) \<Rightarrow> cost_list_loop join c | _ \<Rightarrow> 0)
              else if b = byte CHR ''d'' then
                (case take_byte c of Ok (_, c) \<Rightarrow> cost_dict_loop join c | _ \<Rightarrow> 0)
              else 0
          | _ \<Rightarrow> 0)"
| "cost_list_loop join c =
     (case peek_byte c of
        Ok b \<Rightarrow>
          if b = byte CHR ''e'' then 0
          else join (cost_value join c)
            (case decode_value c of Ok (_, c) \<Rightarrow> cost_list_loop join c | _ \<Rightarrow> 0)
      | _ \<Rightarrow> 0)"
| "cost_dict_loop join c =
     (case peek_byte c of
        Ok b \<Rightarrow>
          if b = byte CHR ''e'' then 0
          else (case decode_bytestring c of
              Ok (_, c) \<Rightarrow> join (cost_value join c)
                (case decode_value c of Ok (_, c) \<Rightarrow> cost_dict_loop join c | _ \<Rightarrow> 0)
            | _ \<Rightarrow> 0)
      | _ \<Rightarrow> 0)"
  by pat_completeness auto
termination
  by (relation "measure (\<lambda>x. case x of
      Inl (_, c) \<Rightarrow> 2 * left c
    | Inr (Inl (_, c)) \<Rightarrow> 2 * left c + 1
    | Inr (Inr (_, c)) \<Rightarrow> 2 * left c + 1)")
    (auto dest!: take_byte_steps decode_bytestring_steps decode_value_steps steps_left)

declare cost_value.simps [simp del] cost_list_loop.simps [simp del] cost_dict_loop.simps [simp del]

definition decode_calls :: "u8 list \<Rightarrow> nat" where
  "decode_calls input = cost_value (+) (cursor_new input)"

definition decode_depth :: "u8 list \<Rightarrow> nat" where
  "decode_depth input = cost_value max (cursor_new input)"

section \<open>Every call reads a byte of its own\<close>

text \<open>
  What a call that returned has cost is bounded by the bytes it has read, what a call that failed
  has cost by the bytes it found.
\<close>

definition paid :: "cursor \<Rightarrow> nat \<Rightarrow> ('a \<times> cursor) decoded \<Rightarrow> bool" where
  "paid c n m = (case m of Ok (_, c') \<Rightarrow> n + left c' \<le> left c | _ \<Rightarrow> n \<le> left c)"

lemma paid_step: "steps k c d \<Longrightarrow> paid d n m \<Longrightarrow> n' \<le> n + k \<Longrightarrow> paid c n' m"
  by (auto simp: paid_def dest!: steps_left split: outcome.splits)

lemma paid_fails: "n \<le> left c \<Longrightarrow> paid c n (Err e)" "n \<le> left c \<Longrightarrow> paid c n (Crash p)"
  by (simp_all add: paid_def)

lemma paid_0: "(\<And>x c'. m = Ok (x, c') \<Longrightarrow> left c' \<le> left c) \<Longrightarrow> paid c 0 m"
  by (auto simp: paid_def split: outcome.split)

lemma peek_byte_left: "peek_byte c = Ok b \<Longrightarrow> left c \<noteq> 0"
  by (auto simp: peek_byte_def and_then_eq_Ok_iff remaining_def usize_sub_def left_def split: if_splits)

lemma decode_bytestring_key: "decode_bytestring c = Ok (v, d) \<Longrightarrow> \<exists>k. v = Bytes k"
  by (auto simp: decode_bytestring_def and_then_eq_Ok_iff split: if_splits)

lemma decode_paid:
  assumes join: "\<And>m n. join m n \<le> m + n"
  shows "\<forall>b. peek_byte c = Ok b \<longrightarrow> paid c (cost_value join c) (decode_value c)"
    "peek_byte c = Ok (byte CHR ''l'') \<longrightarrow> paid c (cost_value join c) (decode_list c)"
    "paid c (cost_list_loop join c) (decode_list_loop vs c)"
    "peek_byte c = Ok (byte CHR ''d'') \<longrightarrow> paid c (cost_value join c) (decode_dict c)"
    "paid c (cost_dict_loop join c) (decode_dict_loop m c)"
proof (induction c and c and vs c and c and m c rule: decode_induct)
  case (decode_value c)
  show ?case
  proof (intro allI impI)
    fix b assume b: "peek_byte c = Ok b"
    consider "b = byte CHR ''l''" | "b = byte CHR ''d''" | "b \<noteq> byte CHR ''l''" "b \<noteq> byte CHR ''d''"
      by blast
    then show "paid c (cost_value join c) (decode_value c)"
    proof cases
      case 3
      then have cost: "cost_value join c = 1" using b by (simp add: cost_value.simps)
      have "paid c 1 (decode_value c)"
        using peek_byte_left [OF b] by (auto simp: paid_def dest!: decode_value_steps steps_left split: outcome.split)
      then show ?thesis by (simp add: cost)
    qed (use b decode_value in \<open>simp_all add: decode_value.simps [of c] byte_values is_ascii_digit_def\<close>)
  qed
next
  case (decode_list c)
  show ?case
  proof
    assume b: "peek_byte c = Ok (byte CHR ''l'')"
    show "paid c (cost_value join c) (decode_list c)"
    proof (cases "take_byte c")
      case (Ok bd)
      obtain d where d: "take_byte c = Ok (byte CHR ''l'', d)"
        using Ok b by (cases bd) (auto simp: take_byte_def and_then_eq_Ok_iff)
      with paid_step [OF take_byte_steps [OF d] decode_list [OF d]] b show ?thesis
        by (simp add: cost_value.simps [of join c] decode_list.simps [of c])
    qed (use b peek_byte_left [OF b] in \<open>simp_all add: cost_value.simps [of join c] decode_list.simps [of c] paid_def\<close>)
  qed
next
  case (decode_list_loop vs c)
  show ?case
  proof (cases "\<exists>b. peek_byte c = Ok b \<and> b \<noteq> byte CHR ''e''")
    case True
    then obtain b where b: "peek_byte c = Ok b" "b \<noteq> byte CHR ''e''" by blast
    show ?thesis
    proof (cases "decode_value c")
      case (Ok vd)
      obtain v d where d: "decode_value c = Ok (v, d)" using Ok by (cases vd) auto
      have "cost_value join c + left d \<le> left c"
        using decode_list_loop(1) [OF b] b d by (simp add: paid_def)
      moreover have "paid d (cost_list_loop join d) (decode_list_loop (vs @ [v]) d)"
        by (rule decode_list_loop(2) [OF b d])
      ultimately show ?thesis
        using b d join [of "cost_value join c" "cost_list_loop join d"]
        by (auto simp: cost_list_loop.simps [of join c] decode_list_loop.simps [of vs c] paid_def split: outcome.splits)
    qed (use b decode_list_loop(1) [OF b] join [of "cost_value join c" 0] in
      \<open>simp_all add: cost_list_loop.simps [of join c] decode_list_loop.simps [of vs c] paid_def\<close>)
  next
    case False
    then have "cost_list_loop join c = 0"
      by (auto simp: cost_list_loop.simps [of join c] split: outcome.split)
    then show ?thesis
      by (auto intro!: paid_0 dest!: decode_steps(3) [OF decode_dom] steps_left)
  qed
next
  case (decode_dict c)
  show ?case
  proof
    assume b: "peek_byte c = Ok (byte CHR ''d'')"
    show "paid c (cost_value join c) (decode_dict c)"
    proof (cases "take_byte c")
      case (Ok bd)
      obtain d where d: "take_byte c = Ok (byte CHR ''d'', d)"
        using Ok b by (cases bd) (auto simp: take_byte_def and_then_eq_Ok_iff)
      with paid_step [OF take_byte_steps [OF d] decode_dict [OF d]] b show ?thesis
        by (simp add: cost_value.simps [of join c] decode_dict.simps [of c] byte_values)
    qed (use b peek_byte_left [OF b] in
      \<open>simp_all add: cost_value.simps [of join c] decode_dict.simps [of c] paid_def byte_values\<close>)
  qed
next
  case (decode_dict_loop m c)
  show ?case
  proof (cases "\<exists>b k d. peek_byte c = Ok b \<and> b \<noteq> byte CHR ''e'' \<and> decode_bytestring c = Ok (k, d)")
    case True
    then obtain b k d where b: "peek_byte c = Ok b" "b \<noteq> byte CHR ''e''" "decode_bytestring c = Ok (Bytes k, d)"
      using decode_bytestring_key by blast
    have value_fails: "cost_value join d \<le> max 1 (left d)" if "\<And>x. decode_value d \<noteq> Ok x"
    proof (cases "peek_byte d")
      case (Ok b')
      with decode_dict_loop(1) [OF b] that have "cost_value join d \<le> left d"
        by (auto simp: paid_def split: outcome.splits)
      then show ?thesis by simp
    qed (simp_all add: cost_value.simps [of join d])
    have d: "left d + 1 \<le> left c" using steps_left [OF decode_bytestring_steps [OF b(3)]] .
    show ?thesis
    proof (cases "decode_value d")
      case (Ok ve)
      obtain v e where e: "decode_value d = Ok (v, e)" using Ok by (cases ve) auto
      then obtain b' where "peek_byte d = Ok b'"
        by (auto simp: decode_value.simps [of d] and_then_eq_Ok_iff)
      with decode_dict_loop(1) [OF b] e have "cost_value join d + left e \<le> left d"
        by (simp add: paid_def)
      moreover have "paid e (cost_dict_loop join e) (decode_dict_loop (bt_insert k v m) e)"
        by (rule decode_dict_loop(2) [OF b e])
      ultimately show ?thesis
        using b d e join [of "cost_value join d" "cost_dict_loop join e"]
        by (auto simp: cost_dict_loop.simps [of join c] decode_dict_loop.simps [of m c] paid_def split: outcome.splits)
    qed (use b d value_fails join [of "cost_value join d" 0] in
      \<open>simp_all add: cost_dict_loop.simps [of join c] decode_dict_loop.simps [of m c] paid_def\<close>)
  next
    case False
    then have "cost_dict_loop join c = 0"
      by (auto simp: cost_dict_loop.simps [of join c] split: outcome.split)
    then show ?thesis
      by (auto intro!: paid_0 dest!: decode_steps(5) [OF decode_dom] steps_left)
  qed
qed

lemma cost_bound:
  assumes "\<And>m n. join m n \<le> m + n"
  shows "cost_value join c \<le> max 1 (left c)"
proof (cases "peek_byte c")
  case (Ok b)
  then have "paid c (cost_value join c) (decode_value c)" using decode_paid(1) [OF assms] by blast
  then show ?thesis by (auto simp: paid_def split: outcome.splits)
qed (simp_all add: cost_value.simps [of join c])

section \<open>Unclosed lists are the worst case\<close>

lemma cost_unclosed:
  assumes "suffix c = replicate n (byte CHR ''l'')" "wf_cursor c" "\<And>m. join m 0 = m"
  shows "cost_value join c = max 1 n \<and> decode_value c = Err EndOfStream"
  using assms(1,2)
proof (induction n arbitrary: c)
  case 0
  then have "peek_byte c = Err EndOfStream" by (simp only: peek_byte_eq) simp
  then show ?case by (simp add: cost_value.simps [of join c] decode_value.simps [of c])
next
  case (Suc n)
  let ?d = "moved c (Suc 0)"
  have "left c = Suc n" using arg_cong [OF Suc.prems(1), of length] by simp
  then have d: "suffix ?d = replicate n (byte CHR ''l'')" "wf_cursor ?d"
    using Suc.prems by (simp_all add: wf_cursor_moved)
  have "peek_byte c = Ok (byte CHR ''l'')" "take_byte c = Ok (byte CHR ''l'', ?d)"
    using Suc.prems by (simp_all add: peek_byte_eq take_byte_eq)
  then have c: "cost_value join c = 1 + cost_list_loop join ?d" "decode_value c = decode_list_loop [] ?d"
    by (simp_all add: cost_value.simps [of join c] decode_value.simps [of c] decode_list.simps [of c]
        byte_values is_ascii_digit_def)
  have "peek_byte ?d = (case n of 0 \<Rightarrow> Err EndOfStream | Suc _ \<Rightarrow> Ok (byte CHR ''l''))"
    unfolding peek_byte_eq [OF d(2)] d(1) by (cases n) simp_all
  with Suc.IH [OF d] assms(3) show ?case
    by (cases n) (simp_all add: c cost_list_loop.simps [of join ?d] decode_list_loop.simps [of _ ?d] byte_values)
qed

section \<open>Property\<close>


end
