(* ===== verification/Node_Id.thy ===== *)
theory Node_Id
  imports Prelude "HOL-Library.List_Lexorder"
begin

text \<open>
  The module \<open>node_id\<close> of \<open>rust/src/main.rs\<close>: 160-bit node ids as arrays of twenty bytes,
  their XOR distance and the length of their common prefix. The specification is about the
  160 bits of an id, most significant first; \<open>lcp\<close> is the longest common prefix of two lists.
\<close>

unbundle bit_operations_syntax

section \<open>Node ids\<close>

type_synonym node_id = "u8 list"

definition wf_id :: "node_id \<Rightarrow> bool" where
  "wf_id n \<longleftrightarrow> length n = 20"

text \<open>\<open>from_slice\<close> and \<open>from_vec\<close>: exactly twenty bytes make an id.\<close>

definition from_slice :: "u8 list \<Rightarrow> (node_id, string) outcome" where
  "from_slice s =
     (if length s \<noteq> 20 then Err ''Invalid node id - must be 20 bytes long'' else Ok s)"

definition from_vec :: "u8 list \<Rightarrow> (node_id, string) outcome" where
  "from_vec v = from_slice v"

text \<open>\<open>chunks_exact(n)\<close> leaves out a last chunk that is shorter; \<open>collect\<close> stops at an error.\<close>

function chunks_exact :: "nat \<Rightarrow> 'a list \<Rightarrow> 'a list list" where
  "chunks_exact n xs =
     (if n = 0 \<or> length xs < n then [] else take n xs # chunks_exact n (drop n xs))"
  by pat_completeness auto
termination
  by (relation "measure (\<lambda>(n, xs). length xs)") auto

declare chunks_exact.simps [simp del]

fun collect :: "('a, 'e) outcome list \<Rightarrow> ('a list, 'e) outcome" where
  "collect [] = Ok []"
| "collect (m # ms) = and_then m (\<lambda>x. and_then (collect ms) (\<lambda>xs. Ok (x # xs)))"

definition multiple_from_vec :: "u8 list \<Rightarrow> (node_id list, string) outcome" where
  "multiple_from_vec v = collect (map from_slice (chunks_exact 20 v))"

section \<open>Distance and common prefix\<close>

definition distance :: "node_id \<Rightarrow> node_id \<Rightarrow> u8 list" where
  "distance a b = map (\<lambda>i. a ! i XOR b ! i) [0..<20]"

text \<open>\<open>u8::leading_zeros\<close>: the zero bits above the highest one bit.\<close>

definition leading_zeros :: "u8 \<Rightarrow> nat" where
  "leading_zeros b = length (takeWhile (\<lambda>i. \<not> bit b i) (rev [0..<8]))"

fun count_zeros :: "u8 list \<Rightarrow> nat \<Rightarrow> nat" where
  "count_zeros [] result = result"
| "count_zeros (b # bs) result =
     (let result = result + leading_zeros b
      in if leading_zeros b < 8 then result else count_zeros bs result)"

definition common_prefix_length :: "node_id \<Rightarrow> node_id \<Rightarrow> nat" where
  "common_prefix_length a b = count_zeros (distance a b) 0"

section \<open>The bits of an id\<close>

definition byte_bits :: "u8 \<Rightarrow> bool list" where
  "byte_bits b = map (bit b) (rev [0..<8])"

definition id_bits :: "node_id \<Rightarrow> bool list" where
  "id_bits n = concat (map byte_bits n)"

fun lcp :: "'a list \<Rightarrow> 'a list \<Rightarrow> nat" where
  "lcp (x # xs) (y # ys) = (if x = y then Suc (lcp xs ys) else 0)"
| "lcp _ _ = 0"

lemma lcp_le: "lcp xs ys \<le> length xs" "lcp xs ys \<le> length ys"
  by (induction xs ys rule: lcp.induct) auto

lemma lcp_commute: "lcp xs ys = lcp ys xs"
  by (induction xs ys rule: lcp.induct) auto

lemma lcp_nth: "k < lcp xs ys \<Longrightarrow> xs ! k = ys ! k"
  by (induction xs ys arbitrary: k rule: lcp.induct) (auto simp: nth_Cons split: nat.splits if_splits)

lemma lcp_differs: "lcp xs ys < length xs \<Longrightarrow> lcp xs ys < length ys \<Longrightarrow>
    xs ! lcp xs ys \<noteq> ys ! lcp xs ys"
  by (induction xs ys rule: lcp.induct) auto

lemma lcp_eq_length_iff: "length xs = length ys \<Longrightarrow> lcp xs ys = length xs \<longleftrightarrow> xs = ys"
  by (induction xs ys rule: lcp.induct) auto

lemma lcp_append:
  "length xs = length ys \<Longrightarrow>
    lcp (xs @ xs') (ys @ ys') = (if xs = ys then length xs + lcp xs' ys' else lcp xs ys)"
  by (induction xs ys rule: list_induct2) auto

text \<open>Prefixes are an ultrametric: the two shortest of three common prefixes are equally long.\<close>

lemma lcp_ultrametric: "min (lcp xs ys) (lcp ys zs) \<le> lcp xs zs"
proof (induction xs ys arbitrary: zs rule: lcp.induct)
  case (1 x xs y ys)
  then show ?case by (cases zs) (auto simp: min_le_iff_disj)
qed auto

lemma lcp_isosceles: "lcp xs ys < lcp ys zs \<Longrightarrow> lcp xs zs = lcp xs ys"
  using lcp_ultrametric [of xs ys zs] lcp_ultrametric [of xs zs ys] lcp_commute [of zs ys]
  by (auto simp: min_def split: if_splits)

section \<open>The code computes the common prefix\<close>

lemma length_byte_bits [simp]: "length (byte_bits b) = 8"
  by (simp add: byte_bits_def)

lemma length_id_bits: "wf_id n \<Longrightarrow> length (id_bits n) = 160"
  by (simp add: id_bits_def wf_id_def length_concat comp_def sum_list_triv)

lemma byte_bits_inject: "byte_bits a = byte_bits b \<longleftrightarrow> a = b"
proof
  assume eq: "byte_bits a = byte_bits b"
  show "a = b"
  proof (rule bit_word_eqI)
    fix n assume "n < LENGTH(8)"
    then have "byte_bits a ! (7 - n) = bit a n" "byte_bits b ! (7 - n) = bit b n"
      by (simp_all add: byte_bits_def rev_nth)
    with eq show "bit a n = bit b n" by simp
  qed
qed simp

lemma takeWhile_xor:
  "length (takeWhile (\<lambda>i. \<not> bit (a XOR b) i) is) = lcp (map (bit a) is) (map (bit b) is)"
  for a b :: u8
  by (induction "is") (auto simp: bit_xor_iff)

lemma leading_zeros_xor: "leading_zeros (a XOR b) = lcp (byte_bits a) (byte_bits b)"
  by (simp add: leading_zeros_def byte_bits_def takeWhile_xor)

lemma distance_Cons: "distance a b = map2 (XOR) a b" if "wf_id a" "wf_id b"
  using that by (intro nth_equalityI) (simp_all add: distance_def wf_id_def)

lemma count_zeros_acc: "count_zeros bs r = r + count_zeros bs 0"
proof (induction bs arbitrary: r)
  case (Cons b bs)
  show ?case
    using Cons [of "r + leading_zeros b"] Cons [of "leading_zeros b"] by (simp add: Let_def)
qed simp

lemma count_zeros_map2:
  "length a = length b \<Longrightarrow> count_zeros (map2 (XOR) a b) 0 = lcp (id_bits a) (id_bits b)"
proof (induction a b rule: list_induct2)
  case Nil
  then show ?case by (simp add: id_bits_def)
next
  case (Cons x a y b)
  have "lcp (byte_bits x) (byte_bits y) < 8 \<longleftrightarrow> x \<noteq> y"
    using lcp_le(1) [of "byte_bits x" "byte_bits y"]
      lcp_eq_length_iff [of "byte_bits x" "byte_bits y"] byte_bits_inject by auto
  with Cons show ?case
    by (auto simp: Let_def leading_zeros_xor id_bits_def lcp_append byte_bits_inject
        count_zeros_acc [of _ 8] lcp_eq_length_iff [THEN iffD2])
qed

lemma common_prefix_length_eq:
  "wf_id a \<Longrightarrow> wf_id b \<Longrightarrow> common_prefix_length a b = lcp (id_bits a) (id_bits b)"
  by (simp add: common_prefix_length_def distance_Cons count_zeros_map2 wf_id_def)

lemma id_bits_inject: "wf_id a \<Longrightarrow> wf_id b \<Longrightarrow> id_bits a = id_bits b \<longleftrightarrow> a = b"
proof -
  have "length a = length b \<Longrightarrow> id_bits a = id_bits b \<Longrightarrow> a = b"
    by (induction a b rule: list_induct2) (auto simp: id_bits_def byte_bits_inject)
  then show "wf_id a \<Longrightarrow> wf_id b \<Longrightarrow> id_bits a = id_bits b \<longleftrightarrow> a = b"
    by (auto simp: wf_id_def)
qed

lemma prefix_bounds:
  assumes "wf_id a" "wf_id b"
  shows "common_prefix_length a b \<le> 160"
    and "common_prefix_length a b = 160 \<longleftrightarrow> a = b"
    and "a \<noteq> b \<Longrightarrow> common_prefix_length a b < 160"
proof -
  show le: "common_prefix_length a b \<le> 160"
    using assms lcp_le(1) [of "id_bits a" "id_bits b"]
    by (simp add: common_prefix_length_eq length_id_bits)
  show eq: "common_prefix_length a b = 160 \<longleftrightarrow> a = b"
    using assms lcp_eq_length_iff [of "id_bits a" "id_bits b"]
    by (simp add: common_prefix_length_eq length_id_bits id_bits_inject)
  show "a \<noteq> b \<Longrightarrow> common_prefix_length a b < 160" using le eq by simp
qed

lemma prefix_commute:
  "wf_id a \<Longrightarrow> wf_id b \<Longrightarrow> common_prefix_length a b = common_prefix_length b a"
  by (simp add: common_prefix_length_eq lcp_commute)

end
