(* ===== verification/Node_Distance.thy ===== *)
theory Node_Distance
  imports Node_Id
begin

text \<open>
  What the functions of \<open>node_id\<close> mean: the prefix length counts common bits and orders the
  XOR metric, and a byte string is read as the ids of its complete chunks.
\<close>

section \<open>The XOR metric as a number\<close>

text \<open>A distance is a big-endian number.\<close>

definition id_value :: "u8 list \<Rightarrow> nat" where
  "id_value d = foldl (\<lambda>v b. 256 * v + unat b) 0 d"

lemma id_value_acc: "foldl (\<lambda>v b. 256 * v + unat b) v d = v * 256 ^ length d + id_value d"
proof (induction d arbitrary: v)
  case Nil
  then show ?case by (simp add: id_value_def)
next
  case (Cons b d)
  show ?case
    using Cons [of "256 * v + unat b"] Cons [of "unat b"]
    by (simp add: id_value_def algebra_simps)
qed

lemma id_value_Nil [simp]: "id_value [] = 0"
  by (simp add: id_value_def)

lemma id_value_Cons [simp]: "id_value (b # d) = unat b * 256 ^ length d + id_value d"
  using id_value_acc [of "unat b" d] by (simp add: id_value_def)

lemma id_value_bound: "id_value d < 256 ^ length d"
proof (induction d)
  case (Cons b d)
  have "unat b + 1 \<le> 256" using unat_lt_256 [of b] by simp
  then have "(unat b + 1) * 256 ^ length d \<le> 256 * 256 ^ length d" by (rule mult_right_mono) simp
  then have "unat b * 256 ^ length d + 256 ^ length d \<le> 256 ^ length (b # d)"
    by (simp add: algebra_simps)
  with Cons show ?case by (simp del: power_Suc)
qed simp

lemma leading_zeros_bounds_all:
  "list_all (\<lambda>n. let b = word_of_nat n :: u8 in
     int n < 2 ^ (8 - leading_zeros b) \<and>
     (n = 0 \<or> leading_zeros b < 8 \<and> 2 ^ (7 - leading_zeros b) \<le> int n)) [0..<256]"
  by code_simp

lemma leading_zeros_bounds:
  fixes b :: u8
  shows "unat b < 2 ^ (8 - leading_zeros b)"
    and "b \<noteq> 0 \<Longrightarrow> leading_zeros b < 8 \<and> 2 ^ (7 - leading_zeros b) \<le> unat b"
proof -
  have "unat b \<in> set [0..<256]" using unat_lt_256 [of b] by simp
  then have *: "int (unat b) < 2 ^ (8 - leading_zeros b) \<and>
     (unat b = 0 \<or> leading_zeros b < 8 \<and> 2 ^ (7 - leading_zeros b) \<le> int (unat b))"
    using bspec [OF leading_zeros_bounds_all [unfolded list_all_iff], of "unat b"]
    by (simp add: Let_def)
  have power: "int (2 ^ k) = 2 ^ k" for k by simp
  show "unat b < 2 ^ (8 - leading_zeros b)" using * by (metis of_nat_less_iff power)
  show "b \<noteq> 0 \<Longrightarrow> leading_zeros b < 8 \<and> 2 ^ (7 - leading_zeros b) \<le> unat b"
    using * by (metis of_nat_le_iff power unat_eq_zero)
qed

lemma leading_zeros_0 [simp]: "leading_zeros 0 = 8"
  by code_simp

lemma count_zeros_Cons:
  "count_zeros (b # bs) 0 = (if b = 0 then 8 + count_zeros bs 0 else leading_zeros b)"
  using leading_zeros_bounds(2) [of b] count_zeros_acc [of bs 8]
  by (auto simp: Let_def)

lemma leading_zeros_less:
  assumes "leading_zeros y < leading_zeros x" "y \<noteq> 0"
  shows "unat x < unat y"
proof -
  have "8 - leading_zeros x \<le> 7 - leading_zeros y" using assms(1) by simp
  then have "unat x < (2::nat) ^ (7 - leading_zeros y)"
    using leading_zeros_bounds(1) [of x] by (meson less_le_trans one_le_numeral power_increasing)
  with leading_zeros_bounds(2) [OF assms(2)] show ?thesis by simp
qed

lemma count_zeros_orders:
  "length a = length b \<Longrightarrow> count_zeros b 0 < count_zeros a 0 \<Longrightarrow> id_value a < id_value b"
proof (induction a b rule: list_induct2)
  case Nil
  then show ?case by simp
next
  case (Cons x a y b)
  consider "x = 0" "y = 0" | "y \<noteq> 0" "unat x < unat y" | "x \<noteq> 0" "y = 0"
    using Cons.prems leading_zeros_less [of y x] unat_gt_0 [of y]
    by (cases "x = 0"; cases "y = 0") (auto simp: count_zeros_Cons simp del: count_zeros.simps)
  then show ?case
  proof cases
    case 1
    with Cons show ?thesis by (simp add: count_zeros_Cons del: count_zeros.simps)
  next
    case 2
    have "id_value (x # a) < (unat x + 1) * 256 ^ length a" using id_value_bound [of a] by simp
    also have "\<dots> \<le> unat y * 256 ^ length a" using 2(2) by (intro mult_right_mono) simp_all
    also have "\<dots> \<le> id_value (y # b)" using Cons.hyps by simp
    finally show ?thesis .
  next
    case 3
    with Cons.prems leading_zeros_bounds(2) [of x] show ?thesis
      by (simp add: count_zeros_Cons del: count_zeros.simps)
  qed
qed

lemma prefix_orders_distance:
  assumes "common_prefix_length t b < common_prefix_length t a"
  shows "id_value (distance t a) < id_value (distance t b)"
  using assms by (intro count_zeros_orders) (simp_all add: common_prefix_length_def distance_def)

section \<open>The contract of a prefix length\<close>

text \<open>
  What the routing table relies on: prefix lengths are symmetric, bounded, largest for equal ids
  only, an ultrametric, and binary, in that two ids that leave a third one at the same place agree
  there.
\<close>

locale prefix_metric =
  fixes valid :: "'i \<Rightarrow> bool"
    and prefix :: "'i \<Rightarrow> 'i \<Rightarrow> nat"
    and bits :: nat
  assumes bounded: "valid a \<Longrightarrow> valid b \<Longrightarrow> prefix a b \<le> bits"
    and equal: "valid a \<Longrightarrow> valid b \<Longrightarrow> prefix a b = bits \<longleftrightarrow> a = b"
    and commute: "valid a \<Longrightarrow> valid b \<Longrightarrow> prefix a b = prefix b a"
    and ultrametric: "valid a \<Longrightarrow> valid b \<Longrightarrow> valid c \<Longrightarrow>
      min (prefix a b) (prefix b c) \<le> prefix a c"
    and binary: "valid r \<Longrightarrow> valid a \<Longrightarrow> valid b \<Longrightarrow> prefix r a = prefix r b \<Longrightarrow>
      prefix r a < bits \<Longrightarrow> prefix r a < prefix a b"
begin

lemma unequal: "valid a \<Longrightarrow> valid b \<Longrightarrow> a \<noteq> b \<Longrightarrow> prefix a b < bits"
  using bounded [of a b] equal [of a b] by simp

lemma isosceles:
  assumes "valid a" "valid b" "valid c" "prefix a b < prefix b c"
  shows "prefix a c = prefix a b"
  using ultrametric [OF assms(1,2,3)] ultrametric [OF assms(1,3,2)] commute [OF assms(3,2)] assms(4)
  by (auto simp: min_def split: if_splits)

text \<open>
  Where \<open>t\<close> and \<open>e\<close> leave the reference \<open>r\<close> at the same place and \<open>f\<close> at another, \<open>e\<close> is nearer to
  \<open>t\<close> than \<open>f\<close> is.
\<close>

lemma same_place_nearer:
  assumes "valid r" "valid t" "valid e" "valid f"
    and "prefix r e = prefix r t" "prefix r t < bits" "prefix r f \<noteq> prefix r t"
  shows "prefix t f < prefix t e"
proof -
  have "prefix r t < prefix t e" using binary [OF assms(1,2,3)] assms(5,6) by simp
  moreover have "prefix t f \<le> prefix r t"
  proof (cases "prefix r f < prefix r t")
    case True
    then have "prefix f t = prefix f r"
      using isosceles [OF assms(4,1,2)] commute [OF assms(4,1)] by simp
    with True show ?thesis using commute [OF assms(4,1)] commute [OF assms(4,2)] by simp
  next
    case False
    then have "prefix t f = prefix t r"
      using isosceles [OF assms(2,1,4)] commute [OF assms(2,1)] assms(7) by simp
    then show ?thesis using commute [OF assms(2,1)] by simp
  qed
  ultimately show ?thesis by simp
qed

end

lemma lcp_same:
  fixes r xs ys :: "bool list"
  shows "length r = length xs \<Longrightarrow> length xs = length ys \<Longrightarrow> lcp r xs = lcp r ys \<Longrightarrow>
    lcp r xs < length r \<Longrightarrow> lcp r xs < lcp xs ys"
  by (induction r xs ys rule: list_induct3) (auto split: if_splits)

interpretation node: prefix_metric wf_id common_prefix_length 160
proof
  fix a b c r
  show "wf_id a \<Longrightarrow> wf_id b \<Longrightarrow> common_prefix_length a b \<le> 160"
    "wf_id a \<Longrightarrow> wf_id b \<Longrightarrow> common_prefix_length a b = 160 \<longleftrightarrow> a = b"
    "wf_id a \<Longrightarrow> wf_id b \<Longrightarrow> common_prefix_length a b = common_prefix_length b a"
    by (rule prefix_bounds(1) prefix_bounds(2) prefix_commute; assumption)+
  show "min (common_prefix_length a b) (common_prefix_length b c) \<le> common_prefix_length a c"
    if "wf_id a" "wf_id b" "wf_id c"
    using that by (simp add: common_prefix_length_eq lcp_ultrametric)
  show "common_prefix_length r a < common_prefix_length a b"
    if "wf_id r" "wf_id a" "wf_id b" "common_prefix_length r a = common_prefix_length r b"
      "common_prefix_length r a < 160"
    using that lcp_same [of "id_bits r" "id_bits a" "id_bits b"]
    by (simp add: common_prefix_length_eq length_id_bits)
qed

section \<open>Reading several ids\<close>

lemma chunks_exact_eq:
  "0 < n \<Longrightarrow> chunks_exact n xs = map (\<lambda>i. take n (drop (i * n) xs)) [0..<length xs div n]"
proof (induction n xs rule: chunks_exact.induct)
  case (1 n xs)
  show ?case
  proof (cases "length xs < n")
    case True
    then show ?thesis by (simp add: chunks_exact.simps [of n xs])
  next
    case False
    then have "length xs div n = Suc (length (drop n xs) div n)"
      using 1(2) by (simp add: le_div_geq)
    moreover have "chunks_exact n (drop n xs) =
        map (\<lambda>i. take n (drop (Suc i * n) xs)) [0..<length (drop n xs) div n]"
      using 1 False by (simp add: add.commute)
    ultimately show ?thesis
      using 1(2) False
      by (simp add: chunks_exact.simps [of n xs] map_upt_Suc del: upt_Suc)
  qed
qed

lemma collect_map_Ok: "(\<And>x. x \<in> set xs \<Longrightarrow> f x = Ok (g x)) \<Longrightarrow> collect (map f xs) = Ok (map g xs)"
  by (induction xs) simp_all

lemma multiple_from_vec_eq:
  "multiple_from_vec v = Ok (map (\<lambda>i. take 20 (drop (i * 20) v)) [0..<length v div 20])"
proof -
  have "collect (map from_slice (chunks_exact 20 v)) = Ok (map (\<lambda>c. c) (chunks_exact 20 v))"
  proof (rule collect_map_Ok)
    fix c assume "c \<in> set (chunks_exact 20 v)"
    then obtain i where "i < length v div 20" "c = take 20 (drop (i * 20) v)"
      by (auto simp: chunks_exact_eq)
    moreover from this have "i * 20 + 20 \<le> length v"
      using div_times_less_eq_dividend [of "length v" 20] by linarith
    ultimately show "from_slice c = Ok c" by (simp add: from_slice_def)
  qed
  then show ?thesis by (simp add: multiple_from_vec_def chunks_exact_eq)
qed

section \<open>Properties\<close>

text \<open>
  C26. \<open>common_prefix_length\<close> is the number of leading bits in which two ids agree; it is 160 for
  equal ids only.
\<close>

theorem common_prefix_length_bits:
  assumes "wf_id a" "wf_id b"
  shows "common_prefix_length a b = lcp (id_bits a) (id_bits b) \<and>
    common_prefix_length a b \<le> 160 \<and> (common_prefix_length a b = 160 \<longleftrightarrow> a = b)"
  using common_prefix_length_eq [OF assms] prefix_bounds(1,2) [OF assms] by blast

theorem common_prefix_length_bits_witness:
  "common_prefix_length (replicate 20 0) (0 # 1 # replicate 18 0) = 15"
proof -
  have "lcp (id_bits (replicate 20 0)) (id_bits (0 # 1 # replicate 18 0)) = 15" by code_simp
  with common_prefix_length_bits [of "replicate 20 0" "0 # 1 # replicate 18 0"] show ?thesis
    by (simp add: wf_id_def)
qed

text \<open>
  A longer common prefix means a smaller XOR distance, so bucketing by prefix length respects
  the metric.
\<close>

theorem longer_prefix_nearer:
  assumes "common_prefix_length t b < common_prefix_length t a"
  shows "id_value (distance t a) < id_value (distance t b)"
  by (rule prefix_orders_distance [OF assms])

theorem longer_prefix_nearer_witness:
  "id_value (distance (replicate 20 0) (0 # 255 # replicate 18 255)) <
   id_value (distance (replicate 20 0) (1 # 0 # replicate 18 0))"
  by (rule longer_prefix_nearer) code_simp

text \<open>
  Prefix lengths form an ultrametric: of the three lengths between three ids the two shortest
  are equal.
\<close>

theorem prefix_triangle:
  assumes "wf_id a" "wf_id b" "wf_id c"
  shows "min (common_prefix_length a b) (common_prefix_length b c) \<le> common_prefix_length a c \<and>
    (common_prefix_length a b < common_prefix_length b c \<longrightarrow>
      common_prefix_length a c = common_prefix_length a b)"
  using node.ultrametric [OF assms] node.isosceles [OF assms] by blast

theorem prefix_triangle_witness:
  "common_prefix_length (128 # replicate 19 0) (1 # replicate 19 0) = 0"
proof -
  have "common_prefix_length (128 # replicate 19 0) (replicate 20 0) = 0"
    "common_prefix_length (replicate 20 0) (1 # replicate 19 0) = 7"
    by code_simp+
  with prefix_triangle [of "128 # replicate 19 0" "replicate 20 0" "1 # replicate 19 0"] show ?thesis
    by (simp add: wf_id_def)
qed

text \<open>
  \<open>multiple_from_vec\<close> never fails: it returns the complete twenty-byte chunks in order, all of
  them ids, and silently leaves out the up to nineteen bytes behind them.
\<close>

theorem multiple_from_vec_chunks:
  "\<exists>ids. multiple_from_vec v = Ok ids \<and> list_all wf_id ids \<and> length ids = length v div 20 \<and>
    concat ids = take (length v - length v mod 20) v"
proof -
  have "concat (map (\<lambda>i. take 20 (drop (i * 20) v)) [0..<n]) = take (n * 20) v" for n
    by (induction n) (simp_all add: take_add [symmetric] add.commute)
  moreover have "length v div 20 * 20 = length v - length v mod 20"
    by (simp add: minus_mod_eq_div_mult)
  moreover have "list_all wf_id (map (\<lambda>i. take 20 (drop (i * 20) v)) [0..<length v div 20])"
  proof -
    have "20 \<le> length v - i * 20" if "i < length v div 20" for i
      using that div_times_less_eq_dividend [of "length v" 20] by linarith
    then show ?thesis by (simp add: list_all_iff wf_id_def)
  qed
  ultimately show ?thesis by (simp add: multiple_from_vec_eq)
qed

end
