(* ===== verification/Fixed_Vec.thy ===== *)
theory Fixed_Vec
  imports Prelude "HOL-Library.Multiset"
begin

text \<open>
  \<open>rust/src/fixed_vec.rs\<close>: a vector of at most eight items in an array of \<open>MaybeUninit\<close>
  slots. A slot is \<open>None\<close> until it is written; moving an item out leaves the slot's bytes in
  place, so a slot behind \<open>length\<close> may still hold a stale copy. The panics of \<open>assert!\<close> and of
  array indexing and the undefined behaviour of the \<open>unsafe\<close> blocks are outcomes. The locale
  \<open>bounded_vec\<close> is the contract the routing table uses; it is interpreted on the model.
\<close>

section \<open>The type\<close>

definition BUCKET_SIZE :: nat where
  "BUCKET_SIZE = 8"

record 'a fixed_vec =
  data :: "'a option list"
  vec_length :: nat

definition new_vec :: "'a fixed_vec" where
  "new_vec = \<lparr>data = replicate BUCKET_SIZE None, vec_length = 0\<rparr>"

definition empty_slots :: "'a fixed_vec \<Rightarrow> nat panics" where
  "empty_slots v = usize_sub BUCKET_SIZE (vec_length v)"

definition is_full :: "'a fixed_vec \<Rightarrow> bool" where
  "is_full v \<longleftrightarrow> vec_length v = BUCKET_SIZE"

definition is_not_full :: "'a fixed_vec \<Rightarrow> bool" where
  "is_not_full v \<longleftrightarrow> vec_length v < BUCKET_SIZE"

section \<open>Reading and writing slots\<close>

text \<open>A raw read of \<open>n\<close> slots from the start, and a copy of slots over a part of the array.\<close>

definition read_slots :: "'a option list \<Rightarrow> nat \<Rightarrow> 'a list panics" where
  "read_slots d n =
     (if n \<le> length d \<and> list_all (\<lambda>s. s \<noteq> None) (take n d) then Ok (map the (take n d))
      else Crash UndefinedBehaviour)"

definition read_slot :: "'a option list \<Rightarrow> nat \<Rightarrow> 'a panics" where
  "read_slot d i =
     and_then (index_at d i) (\<lambda>s. case s of Some x \<Rightarrow> Ok x | None \<Rightarrow> Crash UndefinedBehaviour)"

definition copy_slots ::
    "'a option list \<Rightarrow> 'a option list \<Rightarrow> nat \<Rightarrow> nat \<Rightarrow> 'a option list panics" where
  "copy_slots src dst start n =
     (if n \<le> length src \<and> start + n \<le> length dst
      then Ok (take start dst @ take n src @ drop (start + n) dst)
      else Crash UndefinedBehaviour)"

section \<open>Operations\<close>

definition push :: "'a fixed_vec \<Rightarrow> 'a \<Rightarrow> 'a fixed_vec panics" where
  "push v item =
     and_then (assert (is_not_full v)) (\<lambda>_.
     and_then (index_at (data v) (vec_length v)) (\<lambda>_.
     and_then (usize_add (vec_length v) 1) (\<lambda>n.
       Ok (v\<lparr>data := (data v)[vec_length v := Some item], vec_length := n\<rparr>))))"

definition as_slice :: "'a fixed_vec \<Rightarrow> 'a list panics" where
  "as_slice v = read_slots (data v) (vec_length v)"

text \<open>
  \<open>swap_remove\<close> returns the item at \<open>index\<close> and moves the last item into its place; removing
  the last item only shortens the vector. The last slot keeps its bytes in both cases.
\<close>

definition swap_remove :: "'a fixed_vec \<Rightarrow> nat \<Rightarrow> ('a \<times> 'a fixed_vec) panics" where
  "swap_remove v index =
     and_then (assert (index < vec_length v)) (\<lambda>_.
     and_then (usize_sub (vec_length v) 1) (\<lambda>last_index.
     and_then (read_slot (data v) index) (\<lambda>item.
       if index < last_index
       then and_then (read_slot (data v) last_index) (\<lambda>moved.
         Ok (item, v\<lparr>data := (data v)[index := Some moved], vec_length := last_index\<rparr>))
       else Ok (item, v\<lparr>vec_length := last_index\<rparr>))))"

text \<open>
  \<open>append\<close> copies the other vector's items to the \<^emph>\<open>start\<close> of this one's array
  (\<open>self.data.as_mut_ptr()\<close>) and adds their number to the length.
\<close>

definition append :: "'a fixed_vec \<Rightarrow> 'a fixed_vec \<Rightarrow> 'a fixed_vec panics" where
  "append v other =
     and_then (empty_slots v) (\<lambda>free.
     and_then (assert (vec_length other \<le> free)) (\<lambda>_.
     and_then (copy_slots (data other) (data v) 0 (vec_length other)) (\<lambda>d.
     and_then (usize_add (vec_length v) (vec_length other)) (\<lambda>n.
       Ok (v\<lparr>data := d, vec_length := n\<rparr>)))))"

text \<open>
  \<open>append_vec\<close> copies to \<open>self.data[self.length]\<close>, whose index is bounds-checked even when
  there is nothing to copy.
\<close>

definition append_vec :: "'a fixed_vec \<Rightarrow> 'a list \<Rightarrow> 'a fixed_vec panics" where
  "append_vec v new_items =
     and_then (empty_slots v) (\<lambda>free.
     and_then (assert (length new_items \<le> free)) (\<lambda>_.
     and_then (index_at (data v) (vec_length v)) (\<lambda>_.
     and_then (copy_slots (map Some new_items) (data v) (vec_length v) (length new_items)) (\<lambda>d.
     and_then (usize_add (vec_length v) (length new_items)) (\<lambda>n.
       Ok (v\<lparr>data := d, vec_length := n\<rparr>))))))"

text \<open>\<open>Index\<close>, and \<open>IndexMut\<close> followed by a change \<open>f\<close> of the item it lends out.\<close>

definition index_vec :: "'a fixed_vec \<Rightarrow> nat \<Rightarrow> 'a panics" where
  "index_vec v i = and_then (assert (i < vec_length v)) (\<lambda>_. read_slot (data v) i)"

definition index_mut :: "'a fixed_vec \<Rightarrow> nat \<Rightarrow> ('a \<Rightarrow> 'a) \<Rightarrow> 'a fixed_vec panics" where
  "index_mut v i f =
     and_then (assert (i < vec_length v)) (\<lambda>_.
     and_then (read_slot (data v) i) (\<lambda>x.
       Ok (v\<lparr>data := (data v)[i := Some (f x)]\<rparr>)))"

text \<open>\<open>Drop\<close>: the items whose destructors run, in order.\<close>

definition drop_vec :: "'a fixed_vec \<Rightarrow> 'a list panics" where
  "drop_vec v = read_slots (data v) (vec_length v)"

definition eq_vec :: "'a fixed_vec \<Rightarrow> 'a fixed_vec \<Rightarrow> bool panics" where
  "eq_vec v w = and_then (as_slice v) (\<lambda>xs. and_then (as_slice w) (\<lambda>ys. Ok (xs = ys)))"

section \<open>Invariant and abstraction\<close>

definition wf_vec :: "'a fixed_vec \<Rightarrow> bool" where
  "wf_vec v \<longleftrightarrow> length (data v) = BUCKET_SIZE \<and> vec_length v \<le> BUCKET_SIZE \<and>
     list_all (\<lambda>s. s \<noteq> None) (take (vec_length v) (data v))"

definition view :: "'a fixed_vec \<Rightarrow> 'a list" where
  "view v = map the (take (vec_length v) (data v))"

lemma wf_vec_iff:
  "wf_vec v \<longleftrightarrow> length (data v) = BUCKET_SIZE \<and> vec_length v \<le> BUCKET_SIZE \<and>
     (\<forall>i < vec_length v. data v ! i = Some (view v ! i))"
  by (auto simp: wf_vec_def view_def list_all_length)

lemma length_view [simp]: "wf_vec v \<Longrightarrow> length (view v) = vec_length v"
  by (simp add: wf_vec_def view_def)

lemma view_Nil_iff [simp]: "wf_vec v \<Longrightarrow> view v = [] \<longleftrightarrow> vec_length v = 0"
  using length_view [of v] by (metis length_0_conv)

lemma view_bound: "wf_vec v \<Longrightarrow> length (view v) \<le> BUCKET_SIZE"
  by (simp add: wf_vec_def view_def)

lemma take_data: "wf_vec v \<Longrightarrow> take (vec_length v) (data v) = map Some (view v)"
  by (rule nth_equalityI) (auto simp: wf_vec_iff)

text \<open>Two descriptions of a well-formed vector with given contents.\<close>

lemma wf_vecI:
  assumes "length (data v) = BUCKET_SIZE" "vec_length v \<le> BUCKET_SIZE"
    and "take (vec_length v) (data v) = map Some xs"
  shows "wf_vec v \<and> view v = xs"
  using assms by (simp add: wf_vec_def view_def list_all_iff comp_def)

lemma wf_vec_sizes:
  "wf_vec v \<Longrightarrow> length (data v) = BUCKET_SIZE" "wf_vec v \<Longrightarrow> vec_length v \<le> BUCKET_SIZE"
  by (simp_all add: wf_vec_def)

lemma read_slot_view: "wf_vec v \<Longrightarrow> i < vec_length v \<Longrightarrow> read_slot (data v) i = Ok (view v ! i)"
  by (simp add: read_slot_def wf_vec_iff)

lemma as_slice_view [simp]: "wf_vec v \<Longrightarrow> as_slice v = Ok (view v)"
  by (simp add: as_slice_def read_slots_def wf_vec_def view_def)

lemma drop_vec_view [simp]: "wf_vec v \<Longrightarrow> drop_vec v = Ok (view v)"
  by (simp add: drop_vec_def read_slots_def wf_vec_def view_def)

lemma wf_new_vec [simp]: "wf_vec new_vec" and view_new_vec [simp]: "view new_vec = []"
  by (simp_all add: wf_vec_def new_vec_def view_def)

lemma is_full_iff: "wf_vec v \<Longrightarrow> is_full v \<longleftrightarrow> length (view v) = BUCKET_SIZE"
  by (simp add: is_full_def)

lemma is_not_full_iff: "wf_vec v \<Longrightarrow> is_not_full v \<longleftrightarrow> length (view v) < BUCKET_SIZE"
  by (simp add: is_not_full_def)

lemma index_vec_view: "wf_vec v \<Longrightarrow> i < length (view v) \<Longrightarrow> index_vec v i = Ok (view v ! i)"
  by (simp add: index_vec_def read_slot_view)

lemma push_view:
  assumes "wf_vec v" "length (view v) < BUCKET_SIZE"
  shows "\<exists>v'. push v x = Ok v' \<and> wf_vec v' \<and> view v' = view v @ [x]"
proof -
  let ?v' = "v\<lparr>data := (data v)[vec_length v := Some x], vec_length := vec_length v + 1\<rparr>"
  have "vec_length v < length (data v)" using assms by (simp add: wf_vec_sizes)
  then have "take (vec_length ?v') (data ?v') = map Some (view v @ [x])"
    using take_data [OF assms(1)] by (simp add: take_Suc_conv_app_nth)
  then have "wf_vec ?v' \<and> view ?v' = view v @ [x]"
    using assms by (intro wf_vecI) (simp_all add: wf_vec_sizes)
  moreover have "push v x = Ok ?v'"
    using assms by (simp add: push_def is_not_full_def wf_vec_def BUCKET_SIZE_def)
  ultimately show ?thesis by blast
qed

lemma push_full: "wf_vec v \<Longrightarrow> length (view v) = BUCKET_SIZE \<Longrightarrow> push v x = Crash AssertFailed"
  by (simp add: push_def is_not_full_def)

lemma swap_remove_view:
  assumes "wf_vec v" "i < length (view v)"
  shows "\<exists>v'. swap_remove v i = Ok (view v ! i, v') \<and> wf_vec v' \<and>
    view v' = (butlast (view v))[i := last (view v)]"
proof -
  let ?n = "vec_length v - 1"
  let ?xs = "(butlast (view v))[i := last (view v)]"
  let ?d = "if i < ?n then (data v)[i := Some (view v ! ?n)] else data v"
  let ?v' = "v\<lparr>data := ?d, vec_length := ?n\<rparr>"
  have n: "i \<le> ?n" "?n < vec_length v" "length (view v) = vec_length v" using assms by auto
  then have last: "last (view v) = view v ! ?n" by (subst last_conv_nth) auto
  have nth: "data v ! k = Some (view v ! k)" if "k < vec_length v" for k
    using assms(1) that by (simp add: wf_vec_iff)
  have "take ?n ?d = map Some ?xs"
    by (rule nth_equalityI)
      (use n assms(1) nth in \<open>auto simp: nth_list_update nth_butlast last wf_vec_def\<close>)
  then have "wf_vec ?v' \<and> view ?v' = ?xs"
    using n wf_vec_sizes [OF assms(1)] by (intro wf_vecI) (simp_all del: length_view)
  moreover have "swap_remove v i = Ok (view v ! i, ?v')"
    using assms n by (auto simp: swap_remove_def read_slot_view)
  ultimately show ?thesis by blast
qed

lemma swap_remove_OkD:
  assumes "wf_vec v" "i < length (view v)"
    and eq: "(swap_remove v i :: ('a \<times> 'a fixed_vec) panics) = Ok (x, v')"
  shows "x = view v ! i" "wf_vec v'" "view v' = (butlast (view v))[i := last (view v)]"
proof -
  obtain w where "(swap_remove v i :: ('a \<times> 'a fixed_vec) panics) = Ok (view v ! i, w)"
    "wf_vec w" "view w = (butlast (view v))[i := last (view v)]"
    using swap_remove_view [OF assms(1,2)] by blast
  with eq show "x = view v ! i" "wf_vec v'" "view v' = (butlast (view v))[i := last (view v)]"
    by simp_all
qed

lemma swap_remove_out:
  "wf_vec v \<Longrightarrow> length (view v) \<le> i \<Longrightarrow> swap_remove v i = Crash AssertFailed"
  by (simp add: swap_remove_def)

lemma index_mut_view:
  assumes "wf_vec v" "i < length (view v)"
  shows "\<exists>v'. index_mut v i f = Ok v' \<and> wf_vec v' \<and> view v' = (view v)[i := f (view v ! i)]"
proof -
  let ?v' = "v\<lparr>data := (data v)[i := Some (f (view v ! i))]\<rparr>"
  have "take (vec_length ?v') (data ?v') = map Some ((view v)[i := f (view v ! i)])"
    using assms by (simp add: take_update_swap take_data map_update)
  then have "wf_vec ?v' \<and> view ?v' = (view v)[i := f (view v ! i)]"
    using assms by (intro wf_vecI) (simp_all add: wf_vec_sizes)
  moreover have "index_mut v i f = Ok ?v'"
    using assms by (simp add: index_mut_def read_slot_view)
  ultimately show ?thesis by blast
qed

section \<open>Appending\<close>

lemma copy_slots_eq:
  "n \<le> length src \<Longrightarrow> start + n \<le> length dst \<Longrightarrow>
    copy_slots src dst start n = Ok (take start dst @ take n src @ drop (start + n) dst)"
  by (simp add: copy_slots_def)

lemma append_eq:
  assumes "wf_vec v" "wf_vec other" "length (view v) + length (view other) \<le> BUCKET_SIZE"
  shows "append v other = Ok (v\<lparr>data := map Some (view other) @ drop (length (view other)) (data v),
    vec_length := length (view v) + length (view other)\<rparr>)"
  using assms wf_vec_sizes [OF assms(1)] wf_vec_sizes [OF assms(2)]
  by (simp add: append_def empty_slots_def copy_slots_eq take_data BUCKET_SIZE_def)

lemma append_overflow:
  assumes "wf_vec v" "wf_vec other" "BUCKET_SIZE < length (view v) + length (view other)"
  shows "append v other = Crash AssertFailed"
  using assms wf_vec_sizes [OF assms(1)] by (simp add: append_def empty_slots_def)

text \<open>With one side empty, which is how the routing table calls it, \<open>append\<close> concatenates.\<close>

lemma append_view:
  assumes "wf_vec v" "wf_vec other" "view v = [] \<or> view other = []"
  shows "\<exists>v'. append v other = Ok v' \<and> wf_vec v' \<and> view v' = view v @ view other"
proof -
  let ?v' = "v\<lparr>data := map Some (view other) @ drop (length (view other)) (data v),
    vec_length := length (view v) + length (view other)\<rparr>"
  have fits: "length (view v) + length (view other) \<le> BUCKET_SIZE"
    using assms view_bound [of v] view_bound [of other] by auto
  have "take (vec_length ?v') (data ?v') = map Some (view v @ view other)"
    using assms(3) take_data [OF assms(1)] assms(1) by auto
  then have "wf_vec ?v' \<and> view ?v' = view v @ view other"
    using fits assms wf_vec_sizes [OF assms(1)] view_bound [OF assms(2)]
    by (intro wf_vecI) (simp_all del: length_view)
  with append_eq [OF assms(1,2) fits] show ?thesis by blast
qed

text \<open>A vector that only \<open>push\<close> has filled: nothing was written behind its length.\<close>

definition fresh :: "'a fixed_vec \<Rightarrow> bool" where
  "fresh v \<longleftrightarrow> drop (vec_length v) (data v) = replicate (BUCKET_SIZE - vec_length v) None"

lemma read_slots_uninit: "i < n \<Longrightarrow> d ! i = None \<Longrightarrow> read_slots d n = Crash UndefinedBehaviour"
  by (auto simp: read_slots_def list_all_length intro!: exI [of _ i])

lemma append_nonempty_undefined:
  assumes "wf_vec v" "fresh v" "wf_vec other" "view v \<noteq> []" "view other \<noteq> []"
    and "length (view v) + length (view other) \<le> BUCKET_SIZE"
  shows "\<exists>v'. append v other = Ok v' \<and> take (length (view other)) (data v') = map Some (view other) \<and>
    drop (length (view other)) (data v') = drop (length (view other)) (data v) \<and>
    vec_length v' = length (view v) + length (view other) \<and> as_slice v' = Crash UndefinedBehaviour"
proof -
  let ?m = "vec_length v" and ?n = "length (view other)"
  let ?d = "map Some (view other) @ drop ?n (data v)"
  let ?i = "max ?m ?n"
  have i: "?i < ?m + ?n" "?m + ?n \<le> BUCKET_SIZE" using assms by (auto simp: max_def)
  have "data v ! (?m + j) = None" if "?m + j < BUCKET_SIZE" for j
  proof -
    have "drop ?m (data v) ! j = None" using assms(2) that by (simp add: fresh_def)
    then show ?thesis using that wf_vec_sizes [OF assms(1)] by simp
  qed
  from this [of "?i - ?m"] have "?d ! ?i = None"
    using i wf_vec_sizes [OF assms(1)] by (auto simp: nth_append max_def)
  then have "read_slots ?d (?m + ?n) = Crash UndefinedBehaviour"
    using i by (intro read_slots_uninit [of ?i]) simp_all
  then have "as_slice (v\<lparr>data := ?d, vec_length := length (view v) + ?n\<rparr>) =
      Crash UndefinedBehaviour"
    using assms(1) by (simp add: as_slice_def)
  with append_eq [OF assms(1,3,6)] show ?thesis by (simp add: take_map)
qed

lemma append_vec_view:
  assumes "wf_vec v" "length (view v) < BUCKET_SIZE" "length (view v) + length xs \<le> BUCKET_SIZE"
  shows "\<exists>v'. append_vec v xs = Ok v' \<and> wf_vec v' \<and> view v' = view v @ xs"
proof -
  let ?n = "vec_length v"
  let ?d = "map Some (view v) @ map Some xs @ drop (?n + length xs) (data v)"
  let ?v' = "v\<lparr>data := ?d, vec_length := ?n + length xs\<rparr>"
  have "wf_vec ?v' \<and> view ?v' = view v @ xs"
    using assms by (intro wf_vecI) (simp_all add: wf_vec_sizes)
  moreover have "append_vec v xs = Ok ?v'"
    using assms wf_vec_sizes [OF assms(1)]
    by (simp add: append_vec_def empty_slots_def copy_slots_eq take_data BUCKET_SIZE_def)
  ultimately show ?thesis by blast
qed

lemma append_vec_full:
  "wf_vec v \<Longrightarrow> length (view v) = BUCKET_SIZE \<Longrightarrow> append_vec v [] = Crash IndexOutOfBounds"
  by (simp add: append_vec_def empty_slots_def index_at_def wf_vec_sizes)

lemma append_vec_overflow:
  "wf_vec v \<Longrightarrow> BUCKET_SIZE < length (view v) + length xs \<Longrightarrow> append_vec v xs = Crash AssertFailed"
  using wf_vec_sizes(2) [of v] by (simp add: append_vec_def empty_slots_def)

text \<open>
  \<open>append\<close> and \<open>append_vec\<close> take their argument by value and do not forget it: when the call
  ends, its destructor runs on the items that were just copied. The second component is the
  list of the items dropped by the call.
\<close>

definition append_and_drop ::
    "'a fixed_vec \<Rightarrow> 'a fixed_vec \<Rightarrow> ('a fixed_vec \<times> 'a list) panics" where
  "append_and_drop v other =
     and_then (append v other) (\<lambda>v'. and_then (drop_vec other) (\<lambda>dropped. Ok (v', dropped)))"

definition append_vec_and_drop ::
    "'a fixed_vec \<Rightarrow> 'a list \<Rightarrow> ('a fixed_vec \<times> 'a list) panics" where
  "append_vec_and_drop v new_items =
     and_then (append_vec v new_items) (\<lambda>v'. Ok (v', new_items))"

lemma mset_butlast_update:
  assumes "i < length xs"
  shows "add_mset (xs ! i) (mset ((butlast xs)[i := last xs])) = mset xs"
proof -
  obtain ys y where xs: "xs = ys @ [y]" using assms by (cases xs rule: rev_cases) auto
  show ?thesis
  proof (cases "i < length ys")
    case True
    then have "ys ! i \<in># mset ys" by simp
    with True show ?thesis by (simp add: xs nth_append mset_update)
  next
    case False
    with assms have "i = length ys" by (simp add: xs)
    then show ?thesis by (simp add: xs list_update_beyond)
  qed
qed

section \<open>The contract of a bounded vector\<close>

locale bounded_vec =
  fixes invar :: "'v \<Rightarrow> bool"
    and items :: "'v \<Rightarrow> 'a list"
    and capacity :: nat
    and add :: "'v \<Rightarrow> 'a \<Rightarrow> 'v panics"
    and take_out :: "'v \<Rightarrow> nat \<Rightarrow> ('a \<times> 'v) panics"
  assumes items_bound: "invar v \<Longrightarrow> length (items v) \<le> capacity"
    and add_room: "invar v \<Longrightarrow> length (items v) < capacity \<Longrightarrow>
      \<exists>v'. add v x = Ok v' \<and> invar v' \<and> items v' = items v @ [x]"
    and add_full: "invar v \<Longrightarrow> length (items v) = capacity \<Longrightarrow> add v x = Crash AssertFailed"
    and take_out_in: "invar v \<Longrightarrow> i < length (items v) \<Longrightarrow>
      \<exists>v'. take_out v i = Ok (items v ! i, v') \<and> invar v' \<and>
        items v' = (butlast (items v))[i := last (items v)]"
    and take_out_out: "invar v \<Longrightarrow> length (items v) \<le> i \<Longrightarrow> take_out v i = Crash AssertFailed"
begin

lemma add_cases:
  assumes "invar v"
  obtains (room) v' where "length (items v) < capacity" "add v x = Ok v'" "invar v'"
      "items v' = items v @ [x]"
    | (full) "length (items v) = capacity" "add v x = Crash AssertFailed"
  using assms items_bound [of v] add_room [of v x] add_full [of v x] by fastforce

lemma add_OkD: "invar v \<Longrightarrow> add v x = Ok v' \<Longrightarrow> invar v' \<and> items v' = items v @ [x]"
  by (erule add_cases [of v x]) auto

text \<open>Taking an item out keeps the others, whatever their order.\<close>

lemma take_out_mset:
  assumes "invar v" "i < length (items v)"
  shows "\<exists>v'. take_out v i = Ok (items v ! i, v') \<and> invar v' \<and>
    mset (items v) = add_mset (items v ! i) (mset (items v')) \<and>
    length (items v) = Suc (length (items v'))"
proof -
  obtain v' where v': "take_out v i = Ok (items v ! i, v')" "invar v'"
    "items v' = (butlast (items v))[i := last (items v)]"
    using take_out_in [OF assms] by blast
  moreover have "mset (items v) = add_mset (items v ! i) (mset (items v'))"
    using mset_butlast_update [OF assms(2)] v'(3) by simp
  moreover from this have "length (items v) = Suc (length (items v'))"
    by (metis size_add_mset size_mset)
  ultimately show ?thesis by blast
qed

end

interpretation fixed: bounded_vec wf_vec view BUCKET_SIZE push swap_remove
  by unfold_locales (simp_all add: view_bound push_view push_full swap_remove_view swap_remove_out
      del: length_view)

section \<open>Properties\<close>

text \<open>A vector that holds the given items and nothing behind them.\<close>

definition vec_of :: "'a list \<Rightarrow> 'a fixed_vec" where
  "vec_of xs = \<lparr>data = map Some xs @ replicate (BUCKET_SIZE - length xs) None, vec_length = length xs\<rparr>"

lemma vec_of:
  assumes "length xs \<le> BUCKET_SIZE"
  shows "wf_vec (vec_of xs)" "view (vec_of xs) = xs" "fresh (vec_of xs)"
  using assms wf_vecI [of "vec_of xs" xs] by (simp_all add: vec_of_def fresh_def)

text \<open>
  \<open>push\<close> refines appending to a list of at most eight items and panics on a full vector;
  the slice of the result is the list.
\<close>

theorem push_refines:
  assumes "wf_vec v"
  shows "if length (view v) < BUCKET_SIZE
    then \<exists>v'. push v x = Ok v' \<and> wf_vec v' \<and> as_slice v' = Ok (view v @ [x])
    else push v x = Crash AssertFailed"
  by (rule fixed.add_cases [OF assms, of x]) auto

theorem push_refines_witness:
  "(\<exists>v'. push (vec_of [1, 2, 3 :: nat]) 4 = Ok v' \<and> as_slice v' = Ok [1, 2, 3, 4]) \<and>
   push (vec_of [1, 2, 3, 4, 5, 6, 7, 8 :: nat]) 9 = Crash AssertFailed"
  using push_refines [of "vec_of [1, 2, 3 :: nat]" 4] push_refines [of "vec_of [1, 2, 3, 4, 5, 6, 7, 8 :: nat]" 9]
  by (simp add: vec_of BUCKET_SIZE_def) blast

text \<open>
  C30. \<open>swap_remove\<close> returns the item at the index, moves the last item into its place and loses
  nothing else; an index out of range panics.
\<close>

theorem swap_remove_refines:
  assumes "wf_vec v"
  shows "if i < length (view v)
    then \<exists>v'. swap_remove v i = Ok (view v ! i, v') \<and> wf_vec v' \<and>
      view v' = (butlast (view v))[i := last (view v)] \<and>
      mset (view v) = add_mset (view v ! i) (mset (view v'))
    else swap_remove v i = Crash AssertFailed"
proof (cases "i < length (view v)")
  case True
  with swap_remove_view [OF assms True] mset_butlast_update [OF True] show ?thesis by auto
next
  case False
  with swap_remove_out [OF assms, of i] show ?thesis by simp
qed

theorem swap_remove_refines_witness:
  "\<exists>v'. swap_remove (vec_of [1, 2, 3 :: nat]) 0 = Ok (1, v') \<and> view v' = [3, 2]"
  using swap_remove_refines [of "vec_of [1, 2, 3 :: nat]" 0]
  by (auto simp: vec_of BUCKET_SIZE_def split: if_splits)

text \<open>
  The index operators read and write in range and panic out of range, so a stale slot behind
  the length is never lent out.
\<close>

theorem index_refines:
  assumes "wf_vec v"
  shows "if i < length (view v)
    then index_vec v i = Ok (view v ! i) \<and>
      (\<exists>v'. index_mut v i f = Ok v' \<and> wf_vec v' \<and> view v' = (view v)[i := f (view v ! i)])
    else index_vec v i = Crash AssertFailed \<and> index_mut v i f = Crash AssertFailed"
  using index_vec_view [OF assms, of i] index_mut_view [OF assms, of i f] assms
  by (auto simp: index_vec_def index_mut_def)

theorem index_refines_witness:
  "\<exists>v'. index_mut (vec_of [1, 2, 3 :: nat]) 1 Suc = Ok v' \<and> view v' = [1, 3, 3]"
  using index_refines [of "vec_of [1, 2, 3 :: nat]" 1 Suc]
  by (auto simp: vec_of BUCKET_SIZE_def split: if_splits)

text \<open>
  \<open>append\<close> concatenates when one of the two vectors is empty, which is how the routing table
  calls it, and panics when the items do not fit.
\<close>

theorem append_one_empty:
  assumes "wf_vec v" "wf_vec other"
  shows "(view v = [] \<or> view other = [] \<longrightarrow>
      (\<exists>v'. append v other = Ok v' \<and> wf_vec v' \<and> view v' = view v @ view other)) \<and>
    (BUCKET_SIZE < length (view v) + length (view other) \<longrightarrow> append v other = Crash AssertFailed)"
  using append_view [OF assms] append_overflow [OF assms] by blast

theorem append_one_empty_witness:
  "\<exists>v'. append new_vec (vec_of [1, 2 :: nat]) = Ok v' \<and> view v' = [1, 2]"
  using append_one_empty [of new_vec "vec_of [1, 2 :: nat]"] by (simp add: vec_of BUCKET_SIZE_def) blast

text \<open>
  C31. With items on both sides \<open>append\<close> overwrites the receiver's first slots by the other's items,
  leaves every other slot as it was, and extends the length over slots that were never written: the
  next slice of the result is undefined behaviour.
\<close>

theorem append_exposes_uninit:
  assumes "wf_vec v" "fresh v" "wf_vec other" "view v \<noteq> []" "view other \<noteq> []"
    and "length (view v) + length (view other) \<le> BUCKET_SIZE"
  shows "\<exists>v'. append v other = Ok v' \<and> take (length (view other)) (data v') = map Some (view other) \<and>
    drop (length (view other)) (data v') = drop (length (view other)) (data v) \<and>
    vec_length v' = length (view v) + length (view other) \<and> as_slice v' = Crash UndefinedBehaviour"
  by (rule append_nonempty_undefined [OF assms])

theorem append_exposes_uninit_witness:
  "\<exists>v'. append (vec_of [1, 2 :: nat]) (vec_of [3]) = Ok v' \<and> take 3 (data v') = [Some 3, Some 2, None] \<and>
    as_slice v' = Crash UndefinedBehaviour"
proof -
  have "take 3 (d :: nat option list) = take 1 d @ take 2 (drop 1 d)" for d
    using take_add [of 1 2 d] by (simp add: eval_nat_numeral)
  then show ?thesis
    using append_exposes_uninit [of "vec_of [1, 2 :: nat]" "vec_of [3]"]
    by (auto simp: vec_of BUCKET_SIZE_def) (simp add: vec_of_def BUCKET_SIZE_def)
qed

text \<open>
  \<open>append_vec\<close> concatenates while there is a free slot, panics when the items do not fit, and
  also panics on a full vector when there is nothing to append.
\<close>

theorem append_vec_refines:
  assumes "wf_vec v"
  shows "append_vec v xs = Crash AssertFailed \<and> BUCKET_SIZE < length (view v) + length xs \<or>
    append_vec v xs = Crash IndexOutOfBounds \<and> length (view v) = BUCKET_SIZE \<and> xs = [] \<or>
    (\<exists>v'. append_vec v xs = Ok v' \<and> wf_vec v' \<and> view v' = view v @ xs)"
proof -
  consider "BUCKET_SIZE < length (view v) + length xs" | "length (view v) = BUCKET_SIZE" "xs = []"
    | "length (view v) < BUCKET_SIZE" "length (view v) + length xs \<le> BUCKET_SIZE"
    using view_bound [OF assms] by (cases xs) (auto simp: not_less le_less simp del: length_view, linarith)
  then show ?thesis
    by cases (use append_vec_overflow [OF assms, of xs] append_vec_full [OF assms]
      append_vec_view [OF assms, of xs] in blast)+
qed

text \<open>
  Both appending methods take their argument by value and let it be dropped at the end, so
  every appended item is dropped once by the call and once more with the vector.
\<close>

theorem append_drops_twice:
  assumes "wf_vec v" "wf_vec other" "view v = []"
  shows "\<exists>v'. append_and_drop v other = Ok (v', view other) \<and> drop_vec v' = Ok (view other)"
  using append_view [OF assms(1,2)] assms by (auto simp: append_and_drop_def)

end
