(* ===== verification/Socket_Addr.thy ===== *)
theory Socket_Addr
  imports Bencode Utf8
begin

text \<open>
  \<open>SocketAddrV4\<close> of Rust's standard library and its \<open>FromStr\<close> parser, which \<open>main\<close> calls on the
  text that the user enters for a bootstrap node: four decimal octets with dots between them, a
  colon and a port. As in the current standard library an octet has at most three digits and no
  leading zero, a port may have leading zeros (releases before 1.55 accepted zeros in octets).
\<close>

record socket_addr_v4 =
  ip :: "32 word"
  port :: u16

section \<open>The parser\<close>

text \<open>
  A parser takes the unread bytes and returns its value with the bytes it leaves, \<open>None\<close> when it
  fails. \<open>read_digits\<close> gives up at more digits than allowed, \<open>read_digits_u16\<close> when the value
  leaves the range of \<open>u16\<close>; both return the value, the number of digits and the rest.
\<close>

type_synonym 'a reader = "u8 list \<Rightarrow> ('a \<times> u8 list) option"

fun read_digits :: "nat \<Rightarrow> nat \<Rightarrow> nat \<Rightarrow> u8 list \<Rightarrow> (nat \<times> nat \<times> u8 list) option" where
  "read_digits max_digits result count [] = Some (result, count, [])"
| "read_digits max_digits result count (b # s) =
     (if is_ascii_digit b
      then if count + 1 > max_digits then None
           else read_digits max_digits (result * 10 + digit_value b) (count + 1) s
      else Some (result, count, b # s))"

fun read_digits_u16 :: "nat \<Rightarrow> nat \<Rightarrow> u8 list \<Rightarrow> (nat \<times> nat \<times> u8 list) option" where
  "read_digits_u16 result count [] = Some (result, count, [])"
| "read_digits_u16 result count (b # s) =
     (if is_ascii_digit b
      then if result * 10 \<ge> 65536 then None
           else if result * 10 + digit_value b \<ge> 65536 then None
           else read_digits_u16 (result * 10 + digit_value b) (count + 1) s
      else Some (result, count, b # s))"

definition has_leading_zero :: "u8 list \<Rightarrow> bool" where
  "has_leading_zero s = (case s of b # _ \<Rightarrow> b = byte CHR ''0'' | [] \<Rightarrow> False)"

definition read_octet :: "nat reader" where
  "read_octet s =
     (case read_digits 3 0 0 s of
        None \<Rightarrow> None
      | Some (result, count, rest) \<Rightarrow>
          if count = 0 then None
          else if has_leading_zero s \<and> count > 1 then None
          else if result < 256 then Some (result, rest) else None)"

definition read_port :: "nat reader" where
  "read_port s =
     (case read_digits_u16 0 0 s of
        None \<Rightarrow> None
      | Some (result, count, rest) \<Rightarrow> if count = 0 then None else Some (result, rest))"

definition read_given :: "char \<Rightarrow> unit reader" where
  "read_given c s =
     (case s of b # rest \<Rightarrow> if b = byte c then Some ((), rest) else None | [] \<Rightarrow> None)"

definition and_read :: "'a reader \<Rightarrow> ('a \<Rightarrow> 'b reader) \<Rightarrow> 'b reader" where
  "and_read p f s = (case p s of None \<Rightarrow> None | Some (x, rest) \<Rightarrow> f x rest)"

definition ipv4_new :: "nat \<Rightarrow> nat \<Rightarrow> nat \<Rightarrow> nat \<Rightarrow> 32 word" where
  "ipv4_new a b c d = of_nat (((a * 256 + b) * 256 + c) * 256 + d)"

definition read_ipv4_addr :: "32 word reader" where
  "read_ipv4_addr =
     and_read read_octet (\<lambda>a.
     and_read (read_given CHR ''.'') (\<lambda>_. and_read read_octet (\<lambda>b.
     and_read (read_given CHR ''.'') (\<lambda>_. and_read read_octet (\<lambda>c.
     and_read (read_given CHR ''.'') (\<lambda>_. and_read read_octet (\<lambda>d rest.
       Some (ipv4_new a b c d, rest))))))))"

definition read_socket_addr_v4 :: "socket_addr_v4 reader" where
  "read_socket_addr_v4 =
     and_read read_ipv4_addr (\<lambda>i.
     and_read (read_given CHR '':'') (\<lambda>_. and_read read_port (\<lambda>p rest.
       Some (\<lparr>ip = i, port = of_nat p\<rparr>, rest))))"

text \<open>\<open>str::parse\<close>: the parser must read all of the text. The error has no contents.\<close>

definition parse_socket_addr :: "rust_string \<Rightarrow> (socket_addr_v4, unit) outcome" where
  "parse_socket_addr s =
     (case read_socket_addr_v4 (as_bytes s) of
        Some (a, []) \<Rightarrow> Ok a
      | _ \<Rightarrow> Err ())"

section \<open>What the parser accepts\<close>

text \<open>An address as text: the octets of \<open>ip\<close> from the highest, in decimal.\<close>

definition octet_of :: "nat \<Rightarrow> 32 word \<Rightarrow> nat" where
  "octet_of i w = unat w div 2 ^ i mod 256"

definition dotted :: "32 word \<Rightarrow> u8 list" where
  "dotted w =
     nat_to_string (octet_of 24 w) @ bytes ''.'' @ nat_to_string (octet_of 16 w) @ bytes ''.'' @
     nat_to_string (octet_of 8 w) @ bytes ''.'' @ nat_to_string (octet_of 0 w)"

definition no_digit :: "u8 list \<Rightarrow> bool" where
  "no_digit s \<longleftrightarrow> s = [] \<or> \<not> is_ascii_digit (hd s)"

text \<open>A digit string without a leading zero is the numeral of its value.\<close>

lemma numeral_value_Cons: "numeral_value (b # ds) = digit_value b * 10 ^ length ds + numeral_value ds"
proof (induction ds rule: rev_induct)
  case Nil
  show ?case using numeral_value_snoc [of "[]" b] by simp
next
  case (snoc x ds)
  then show ?case using numeral_value_snoc [of "b # ds" x] by (simp add: algebra_simps)
qed

lemma digit_digit_value: "is_ascii_digit b \<Longrightarrow> digit (digit_value b) = b"
  by (simp add: digit_def digit_value_def)

lemma digit_value_0_iff: "is_ascii_digit b \<Longrightarrow> digit_value b = 0 \<longleftrightarrow> b = byte CHR ''0''"
  by (simp add: digit_value_def unat_eq_0)

lemma numeral_value_pos:
  assumes "list_all is_ascii_digit ds" "ds \<noteq> []" "\<not> has_leading_zero ds"
  shows "0 < numeral_value ds"
  using assms by (cases ds) (auto simp: numeral_value_Cons has_leading_zero_def simp flip: digit_value_0_iff)

lemma nat_to_string_numeral_value:
  assumes "list_all is_ascii_digit ds" "ds \<noteq> []" "has_leading_zero ds \<longrightarrow> length ds \<le> 1"
  shows "nat_to_string (numeral_value ds) = ds"
  using assms
proof (induction ds rule: rev_induct)
  case Nil
  then show ?case by simp
next
  case (snoc b ds)
  then have b: "is_ascii_digit b" "digit_value b < 10" "digit (digit_value b) = b"
    by (simp_all add: digit_value_less digit_digit_value)
  show ?case
  proof (cases "ds = []")
    case True
    with b show ?thesis
      using numeral_value_snoc [of "[]" b] by (simp add: nat_to_string.simps [of "digit_value b"])
  next
    case False
    with snoc.prems have nz: "\<not> has_leading_zero ds"
      by (auto simp: has_leading_zero_def split: list.splits)
    with snoc False have "nat_to_string (numeral_value ds) = ds" by simp
    moreover have "0 < numeral_value ds" using numeral_value_pos [OF _ False nz] snoc.prems by simp
    ultimately show ?thesis
      using b by (simp add: nat_to_string.simps [of "10 * numeral_value ds + digit_value b"])
  qed
qed

lemma has_leading_zero_nat_to_string:
  "has_leading_zero (nat_to_string n @ s) \<longleftrightarrow> n = 0"
proof (induction n arbitrary: s rule: nat_to_string.induct)
  case (1 n)
  show ?case
  proof (cases "n < 10")
    case True
    have "unat (digit n) = 48 + n" using True by (rule unat_digit)
    then have "digit n = byte CHR ''0'' \<longleftrightarrow> n = 0"
      by (auto simp: word_unat_eq_iff byte_values)
    with True show ?thesis by (simp add: nat_to_string.simps [of n] has_leading_zero_def)
  next
    case False
    with 1 show ?thesis by (simp add: nat_to_string.simps [of n])
  qed
qed

lemma nat_to_string_short_iff:
  "0 < k \<Longrightarrow> length (nat_to_string n) \<le> k \<longleftrightarrow> n < 10 ^ k"
proof (induction n arbitrary: k rule: nat_to_string.induct)
  case (1 n)
  show ?case
  proof (cases "n < 10")
    case True
    then have "n < 10 ^ k" using 1(2) by (metis One_nat_def Suc_leI less_le_trans one_le_numeral power_one_right power_increasing)
    with True 1(2) show ?thesis by (simp add: nat_to_string.simps [of n])
  next
    case False
    show ?thesis
    proof (cases "k = 1")
      case True
      with False show ?thesis
        by (simp add: nat_to_string.simps [of n])
    next
      case k: False
      then obtain j where j: "k = Suc j" "0 < j" using 1(2) by (cases k) auto
      have "n div 10 < 10 ^ j \<longleftrightarrow> n < 10 ^ k" using j by (simp add: div_less_iff_less_mult mult.commute)
      with False 1(1) [OF False j(2)] j show ?thesis by (simp add: nat_to_string.simps [of n])
    qed
  qed
qed

text \<open>The two loops read the longest run of digits, when it is short or small enough.\<close>

lemma read_digits_eq:
  "count \<le> m \<Longrightarrow> read_digits m r count s =
    (let ds = takeWhile is_ascii_digit s in
     if count + length ds \<le> m
     then Some (r * 10 ^ length ds + numeral_value ds, count + length ds, dropWhile is_ascii_digit s)
     else None)"
proof (induction s arbitrary: r count)
  case Nil
  then show ?case by simp
next
  case (Cons b s)
  then show ?case by (auto simp: Let_def numeral_value_Cons algebra_simps)
qed

lemma read_digits_u16_eq:
  "r < 65536 \<Longrightarrow> read_digits_u16 r count s =
    (let ds = takeWhile is_ascii_digit s; n = r * 10 ^ length ds + numeral_value ds in
     if n < 65536 then Some (n, count + length ds, dropWhile is_ascii_digit s) else None)"
proof (induction s arbitrary: r count)
  case Nil
  then show ?case by simp
next
  case (Cons b s)
  let ?ds = "takeWhile is_ascii_digit s"
  have "r * 10 + digit_value b \<le> (r * 10 + digit_value b) * 10 ^ length ?ds" by simp
  then have "r * 10 + digit_value b \<ge> 65536 \<Longrightarrow>
      \<not> (r * 10 + digit_value b) * 10 ^ length ?ds + numeral_value ?ds < 65536"
    by linarith
  with Cons show ?case
    by (auto simp: Let_def numeral_value_Cons algebra_simps simp del: mult_le_cancel1)
qed

text \<open>Each reader accepts a prefix of its input, described by the numeral that it spells.\<close>

lemma digits_split:
  obtains ds rest where "s = ds @ rest" "list_all is_ascii_digit ds" "no_digit rest"
    "takeWhile is_ascii_digit s = ds" "dropWhile is_ascii_digit s = rest"
  using hd_dropWhile [of is_ascii_digit s] set_takeWhileD [of _ is_ascii_digit s]
    takeWhile_dropWhile_id [of is_ascii_digit s]
  by (metis no_digit_def list_all_iff)

lemma digits_of:
  assumes "list_all is_ascii_digit ds" "no_digit rest"
  shows "takeWhile is_ascii_digit (ds @ rest) = ds" "dropWhile is_ascii_digit (ds @ rest) = rest"
  using assms by (simp_all add: takeWhile_digits dropWhile_digits no_digit_def)

lemma has_leading_zero_append: "ds \<noteq> [] \<Longrightarrow> has_leading_zero (ds @ s) \<longleftrightarrow> has_leading_zero ds"
  by (cases ds) (simp_all add: has_leading_zero_def)

lemma read_octet_numeral:
  assumes "n < 256" "no_digit rest"
  shows "read_octet (nat_to_string n @ rest) = Some (n, rest)"
proof -
  have "length (nat_to_string n) \<le> 3" using assms(1) by (simp add: nat_to_string_short_iff)
  moreover have "\<not> (n = 0 \<and> length (nat_to_string n) > 1)"
    by (auto simp: nat_to_string.simps [of 0])
  ultimately show ?thesis
    using assms
    by (simp add: read_octet_def read_digits_eq digits_of [OF nat_to_string_digits]
        has_leading_zero_nat_to_string)
qed

lemma read_octet_iff:
  "read_octet s = Some (n, rest) \<longleftrightarrow> n < 256 \<and> s = nat_to_string n @ rest \<and> no_digit rest"
proof
  assume read: "read_octet s = Some (n, rest)"
  obtain ds r where s: "s = ds @ r" "list_all is_ascii_digit ds" "no_digit r"
    "takeWhile is_ascii_digit s = ds" "dropWhile is_ascii_digit s = r" by (rule digits_split)
  with read have n: "ds \<noteq> []" "numeral_value ds = n" "r = rest" "n < 256"
    "has_leading_zero s \<longrightarrow> length ds \<le> 1"
    by (auto simp: read_octet_def read_digits_eq Let_def simp del: append_eq_append_conv
        split: if_splits)
  then have "nat_to_string (numeral_value ds) = ds"
    using s by (intro nat_to_string_numeral_value) (simp_all add: has_leading_zero_append)
  with n s show "n < 256 \<and> s = nat_to_string n @ rest \<and> no_digit rest" by simp
qed (auto simp: read_octet_numeral)

lemma read_port_numeral:
  assumes "ds \<noteq> []" "list_all is_ascii_digit ds" "numeral_value ds < 65536" "no_digit rest"
  shows "read_port (ds @ rest) = Some (numeral_value ds, rest)"
  using assms by (simp add: read_port_def read_digits_u16_eq digits_of Let_def)

lemma read_port_iff:
  "read_port s = Some (n, rest) \<longleftrightarrow>
    (\<exists>ds. ds \<noteq> [] \<and> list_all is_ascii_digit ds \<and> numeral_value ds = n \<and> n < 65536 \<and>
      s = ds @ rest \<and> no_digit rest)"
proof
  assume read: "read_port s = Some (n, rest)"
  obtain ds r where s: "s = ds @ r" "list_all is_ascii_digit ds" "no_digit r"
    "takeWhile is_ascii_digit s = ds" "dropWhile is_ascii_digit s = r" by (rule digits_split)
  with read have "ds \<noteq> []" "numeral_value ds = n" "r = rest" "n < 65536"
    by (auto simp: read_port_def read_digits_u16_eq Let_def split: if_splits)
  with s show "\<exists>ds. ds \<noteq> [] \<and> list_all is_ascii_digit ds \<and> numeral_value ds = n \<and> n < 65536 \<and>
      s = ds @ rest \<and> no_digit rest" by blast
qed (auto simp: read_port_numeral)

lemma read_given_iff: "read_given c s = Some (u, rest) \<longleftrightarrow> s = byte c # rest"
  by (auto simp: read_given_def split: list.splits)

lemma and_read_iff: "and_read p f s = Some y \<longleftrightarrow> (\<exists>x rest. p s = Some (x, rest) \<and> f x rest = Some y)"
  by (auto simp: and_read_def split: option.splits)

lemmas reader_iffs = and_read_iff read_octet_iff read_port_iff read_given_iff

lemma no_digit_sep [simp]: "no_digit (byte CHR ''.'' # s)" "no_digit (byte CHR '':'' # s)" "no_digit []"
  by (simp_all add: no_digit_def is_ascii_digit_def byte_def)

text \<open>The four octets of an address.\<close>

lemma unat_ipv4_new:
  assumes "a < 256" "b < 256" "c < 256" "d < 256"
  shows "unat (ipv4_new a b c d) = ((a * 256 + b) * 256 + c) * 256 + d"
  unfolding ipv4_new_def unat_of_nat using assms by (intro mod_less) simp

lemma octet_of_eq:
  "octet_of 24 w = unat w div 256 div 256 div 256 mod 256"
  "octet_of 16 w = unat w div 256 div 256 mod 256"
  "octet_of 8 w = unat w div 256 mod 256"
  "octet_of 0 w = unat w mod 256"
  by (simp_all add: octet_of_def flip: div_mult2_eq)

lemma octets_ipv4_new:
  assumes "a < 256" "b < 256" "c < 256" "d < 256"
  shows "octet_of 24 (ipv4_new a b c d) = a" "octet_of 16 (ipv4_new a b c d) = b"
    "octet_of 8 (ipv4_new a b c d) = c" "octet_of 0 (ipv4_new a b c d) = d"
proof -
  define p where "p = a * 256 + b"
  define q where "q = p * 256 + c"
  have "unat (ipv4_new a b c d) = q * 256 + d" using assms by (simp add: unat_ipv4_new p_def q_def)
  moreover have "p div 256 = a" "p mod 256 = b" using assms by (simp_all add: p_def)
  moreover have "q div 256 = p" "q mod 256 = c" using assms by (simp_all add: q_def)
  ultimately show "octet_of 24 (ipv4_new a b c d) = a" "octet_of 16 (ipv4_new a b c d) = b"
    "octet_of 8 (ipv4_new a b c d) = c" "octet_of 0 (ipv4_new a b c d) = d"
    using assms by (simp_all add: octet_of_eq)
qed

lemma octet_of_less: "octet_of i w < 256"
  by (simp add: octet_of_def)

lemma ipv4_new_octets: "ipv4_new (octet_of 24 w) (octet_of 16 w) (octet_of 8 w) (octet_of 0 w) = w"
proof -
  define q where "q = unat w div 256"
  define p where "p = q div 256"
  have "p div 256 < 256"
    using unsigned_less [of w] by (simp add: p_def q_def div_less_iff_less_mult)
  then have "octet_of 24 w * 256 + octet_of 16 w = p" by (simp add: octet_of_eq p_def q_def)
  moreover have "p * 256 + octet_of 8 w = q" by (simp add: octet_of_eq p_def q_def)
  moreover have "q * 256 + octet_of 0 w = unat w" by (simp add: octet_of_eq q_def)
  ultimately have "unat (ipv4_new (octet_of 24 w) (octet_of 16 w) (octet_of 8 w) (octet_of 0 w)) =
      unat w"
    using octet_of_less by (simp only: unat_ipv4_new)
  then show ?thesis by (simp add: word_unat_eq_iff)
qed

lemma read_ipv4_addr_dotted:
  "no_digit rest \<Longrightarrow> read_ipv4_addr (dotted w @ rest) = Some (w, rest)"
  by (simp add: read_ipv4_addr_def and_read_def read_octet_numeral read_given_def dotted_def
      bytes_def octet_of_less ipv4_new_octets)

lemma read_ipv4_addr_iff:
  "read_ipv4_addr s = Some (w, rest) \<longleftrightarrow> s = dotted w @ rest \<and> no_digit rest"
proof
  assume "read_ipv4_addr s = Some (w, rest)"
  then obtain a b c d where "a < 256" "b < 256" "c < 256" "d < 256" "w = ipv4_new a b c d"
    "s = nat_to_string a @ byte CHR ''.'' # nat_to_string b @ byte CHR ''.'' #
      nat_to_string c @ byte CHR ''.'' # nat_to_string d @ rest" "no_digit rest"
    by (auto simp: read_ipv4_addr_def reader_iffs)
  then show "s = dotted w @ rest \<and> no_digit rest"
    by (simp add: dotted_def octets_ipv4_new bytes_def)
qed (auto simp: read_ipv4_addr_dotted)

lemma parse_socket_addr_Ok:
  "parse_socket_addr s = Ok a \<longleftrightarrow> read_socket_addr_v4 (as_bytes s) = Some (a, [])"
  by (auto simp: parse_socket_addr_def split: option.splits list.splits)

lemma parse_socket_addr_not_crash [simp]: "parse_socket_addr s \<noteq> Crash p"
  by (simp add: parse_socket_addr_def split: option.split list.split)

lemma parse_socket_addr_text:
  assumes "as_bytes s = dotted (ip a) @ bytes '':'' @ ds" "ds \<noteq> []"
    "list_all is_ascii_digit ds" "numeral_value ds = unat (port a)"
  shows "parse_socket_addr s = Ok a"
proof -
  have "read_ipv4_addr (as_bytes s) = Some (ip a, byte CHR '':'' # ds)"
    using assms(1) read_ipv4_addr_dotted by (simp add: bytes_def)
  moreover have "read_port ds = Some (unat (port a), [])"
    using assms unsigned_less [of "port a"] by (auto simp: read_port_iff)
  ultimately show ?thesis
    by (simp add: parse_socket_addr_Ok read_socket_addr_v4_def and_read_def read_given_def)
qed

text \<open>
  The text that the dialog for a bootstrap node opens with, a host name, is no address. A dotted
  address is.
\<close>

definition BOOTSTRAP_NODE :: rust_string where
  "BOOTSTRAP_NODE = str_of ''router.bittorrent.com:6881''"

lemma bootstrap_node_no_address: "parse_socket_addr BOOTSTRAP_NODE = Err ()"
  by code_simp

lemma loopback_address:
  "parse_socket_addr (str_of ''127.0.0.1:6881'') = Ok \<lparr>ip = 0x7F000001, port = 6881\<rparr>"
proof -
  have o: "octet_of 24 0x7F000001 = 127" "octet_of 16 0x7F000001 = 0"
    "octet_of 8 0x7F000001 = 0" "octet_of 0 0x7F000001 = 1"
    by (simp_all add: octet_of_def)
  have n: "nat_to_string 127 = bytes ''127''" "nat_to_string 0 = bytes ''0''"
    "nat_to_string 1 = bytes ''1''"
    by code_simp+
  have "as_bytes (str_of ''127.0.0.1:6881'') = dotted 0x7F000001 @ bytes '':'' @ bytes ''6881''"
    unfolding dotted_def o n by code_simp
  moreover have "list_all is_ascii_digit (bytes ''6881'')" by code_simp
  moreover have "numeral_value (bytes ''6881'') = 6881"
    by (simp add: numeral_value_def digit_value_def bytes_def byte_def)
  ultimately show ?thesis by (intro parse_socket_addr_text) (simp_all add: bytes_def)
qed

section \<open>Properties\<close>

text \<open>
  A text is read as an address exactly when it is the dotted decimal form of the address's
  octets, a colon, and digits whose value is the port: nothing else is accepted, so no text
  denotes two addresses.
\<close>

theorem parse_socket_addr_iff:
  "parse_socket_addr s = Ok a \<longleftrightarrow>
    (\<exists>ds. as_bytes s = dotted (ip a) @ bytes '':'' @ ds \<and> ds \<noteq> [] \<and>
      list_all is_ascii_digit ds \<and> numeral_value ds = unat (port a))"
proof
  assume "parse_socket_addr s = Ok a"
  then obtain w ds where "as_bytes s = dotted w @ byte CHR '':'' # ds" "ds \<noteq> []"
    "list_all is_ascii_digit ds" "numeral_value ds < 65536"
    "a = \<lparr>ip = w, port = of_nat (numeral_value ds)\<rparr>"
    by (auto simp: parse_socket_addr_Ok read_socket_addr_v4_def and_read_iff read_ipv4_addr_iff
        read_port_iff read_given_iff)
  then show "\<exists>ds. as_bytes s = dotted (ip a) @ bytes '':'' @ ds \<and> ds \<noteq> [] \<and>
      list_all is_ascii_digit ds \<and> numeral_value ds = unat (port a)"
    by (intro exI [of _ ds]) (simp add: bytes_def unat_of_nat take_bit_nat_eq_self)
qed (auto intro: parse_socket_addr_text)

end
