(* ===== verification/Routing_Table.thy ===== *)
theory Routing_Table
  imports Node_Id Fixed_Vec Socket_Addr
begin

text \<open>
  The routing table of \<open>rust/src/main.rs\<close>: contacts, entries with their ratings, buckets and
  the two operations \<open>find\<close> and \<open>update\<close>. References into the table are the values they point
  to. A call reads the clock (\<open>Instant::now\<close>) several times; every reading is a parameter.
\<close>

section \<open>Contacts and entries\<close>

record node_contact_info =
  contact_id :: node_id
  address :: socket_addr_v4

datatype node_rating = Good | Questionable | Bad

text \<open>An \<open>Instant\<close> is a time on the monotonic clock in nanoseconds.\<close>

type_synonym instant = int

record routing_entry =
  node :: node_contact_info
  last_response :: "instant option"
  last_query :: "instant option"

datatype seen_in = Query | Response | Referral

definition entry_new :: "node_contact_info \<Rightarrow> routing_entry" where
  "entry_new n = \<lparr>node = n, last_response = None, last_query = None\<rparr>"

text \<open>
  \<open>instant.elapsed().as_secs() / 60\<close> at the clock reading \<open>now\<close>: \<open>elapsed\<close> saturates at zero,
  \<open>as_secs\<close> drops the fraction and the division rounds down.
\<close>

definition elapsed_minutes :: "instant \<Rightarrow> instant \<Rightarrow> int" where
  "elapsed_minutes now t = max 0 (now - t) div 10 ^ 9 div 60"

text \<open>\<open>rating\<close> reads the clock once for each timestamp that is set.\<close>

definition rating :: "routing_entry \<Rightarrow> instant \<Rightarrow> instant \<Rightarrow> node_rating" where
  "rating e query_now response_now =
     (let minutes_since_last_query = map_option (elapsed_minutes query_now) (last_query e);
          minutes_since_last_response =
            map_option (elapsed_minutes response_now) (last_response e)
      in case (minutes_since_last_query, minutes_since_last_response) of
           (q, Some r) \<Rightarrow>
             if r \<le> 15 then Good
             else (case q of Some q \<Rightarrow> if q \<le> 15 then Good else Bad | None \<Rightarrow> Bad)
         | (None, None) \<Rightarrow> Questionable
         | (Some _, None) \<Rightarrow> Bad)"

definition entry_update :: "routing_entry \<Rightarrow> seen_in \<Rightarrow> instant \<Rightarrow> routing_entry" where
  "entry_update e seen now =
     (case seen of
        Query \<Rightarrow> e\<lparr>last_query := Some now\<rparr>
      | Response \<Rightarrow> e\<lparr>last_response := Some now\<rparr>
      | Referral \<Rightarrow> e)"

section \<open>Buckets and the table\<close>

record range_u32 =
  range_start :: nat
  range_end :: nat

definition contains :: "range_u32 \<Rightarrow> nat \<Rightarrow> bool" where
  "contains r p \<longleftrightarrow> range_start r \<le> p \<and> p < range_end r"

record bucket =
  entries :: "routing_entry fixed_vec"
  bounds :: range_u32

definition bucket_new :: "range_u32 \<Rightarrow> bucket" where
  "bucket_new b = \<lparr>entries = new_vec, bounds = b\<rparr>"

record routing_table =
  buckets :: "bucket list"
  reference_id :: node_id

datatype node_match = Exact node_contact_info | Closest "node_contact_info fixed_vec"

definition table_new :: "node_id \<Rightarrow> routing_table" where
  "table_new ref =
     \<lparr>buckets = [bucket_new \<lparr>range_start = 0, range_end = 160\<rparr>], reference_id = ref\<rparr>"

text \<open>The linear search for the bucket of a prefix length, and its \<open>expect\<close>.\<close>

definition bucket_for :: "bucket list \<Rightarrow> nat \<Rightarrow> (nat \<times> bucket) panics" where
  "bucket_for bs prefix_len =
     and_then (expect (iter_position (\<lambda>b. contains (bounds b) prefix_len) bs))
       (\<lambda>i. Ok (i, bs ! i))"

section \<open>Finding a node\<close>

text \<open>The first loop of \<open>find\<close>: an exact match ends it, other contacts are collected.\<close>

fun scan_bucket :: "node_id \<Rightarrow> routing_entry list \<Rightarrow> node_contact_info fixed_vec \<Rightarrow>
    (node_contact_info + node_contact_info fixed_vec) panics" where
  "scan_bucket target [] result = Ok (Inr result)"
| "scan_bucket target (e # es) result =
     (if contact_id (node e) = target then Ok (Inl (node e))
      else and_then (push result (node e)) (scan_bucket target es))"

text \<open>The loop over a neighbouring bucket stops as soon as the result is full.\<close>

fun push_entries :: "routing_entry list \<Rightarrow> node_contact_info fixed_vec \<Rightarrow>
    node_contact_info fixed_vec panics" where
  "push_entries [] result = Ok result"
| "push_entries (e # es) result =
     and_then (push result (node e)) (\<lambda>result.
       if is_full result then Ok result else push_entries es result)"

definition push_bucket :: "bucket list \<Rightarrow> nat \<Rightarrow> node_contact_info fixed_vec \<Rightarrow>
    node_contact_info fixed_vec panics" where
  "push_bucket bs i result =
     and_then (expect (if i < length bs then Some (bs ! i) else None)) (\<lambda>b.
     and_then (as_slice (entries b)) (\<lambda>es. push_entries es result))"

text \<open>
  The \<open>while\<close> loop: the buckets below and above at growing distance, until the result is full
  or both ends are passed.
\<close>

function spread :: "bucket list \<Rightarrow> nat \<Rightarrow> nat \<Rightarrow> node_contact_info fixed_vec \<Rightarrow>
    node_contact_info fixed_vec panics" where
  "spread bs bucket_index offset result =
     (if is_not_full result \<and> (bucket_index \<ge> offset \<or> bucket_index + offset < length bs)
      then
        and_then (if bucket_index \<ge> offset then push_bucket bs (bucket_index - offset) result
                  else Ok result) (\<lambda>result.
        and_then (if bucket_index + offset < length bs \<and> is_not_full result
                  then push_bucket bs (bucket_index + offset) result
                  else Ok result) (\<lambda>result.
        spread bs bucket_index (offset + 1) result))
      else Ok result)"
  by pat_completeness auto
termination
  by (relation "measure (\<lambda>(bs, i, offset, _). i + length bs + 1 - offset)") auto

declare spread.simps [simp del]

definition find_node :: "routing_table \<Rightarrow> node_id \<Rightarrow> node_match panics" where
  "find_node rt target =
     (let prefix_len = common_prefix_length (reference_id rt) target in
      and_then (bucket_for (buckets rt) prefix_len) (\<lambda>(bucket_index, b).
      and_then (as_slice (entries b)) (\<lambda>es.
      and_then (scan_bucket target es new_vec) (\<lambda>r. case r of
        Inl c \<Rightarrow> Ok (Exact c)
      | Inr result \<Rightarrow>
          and_then (spread (buckets rt) bucket_index 1 result) (\<lambda>result.
            Ok (Closest result))))))"

section \<open>Updating the table\<close>

text \<open>
  The clock readings of one call of \<open>update\<close>: when the node is recorded as seen, and the two
  that \<open>rating\<close> makes for the \<open>i\<close>-th entry of the bucket.
\<close>

record clock =
  seen_now :: instant
  query_now :: "nat \<Rightarrow> instant"
  response_now :: "nat \<Rightarrow> instant"

definition bad_position :: "clock \<Rightarrow> routing_entry list \<Rightarrow> nat option" where
  "bad_position clk es =
     iter_position (\<lambda>(i, e). rating e (query_now clk i) (response_now clk i) = Bad)
       (enumerate 0 es)"

text \<open>Draining the entries that belong to the upper half, by \<open>swap_remove\<close>.\<close>

function drain_upper :: "node_id \<Rightarrow> range_u32 \<Rightarrow> nat \<Rightarrow> routing_entry fixed_vec \<Rightarrow>
    routing_entry fixed_vec \<Rightarrow> (routing_entry fixed_vec \<times> routing_entry fixed_vec) panics" where
  "drain_upper ref upper_bounds i es drained =
     (if i = vec_length es then Ok (es, drained)
      else
        and_then (index_vec es i) (\<lambda>e.
        let prefix_len = common_prefix_length ref (contact_id (node e)) in
        if contains upper_bounds prefix_len
        then and_then (swap_remove es i) (\<lambda>(x, es).
             and_then (push drained x) (\<lambda>drained.
               drain_upper ref upper_bounds i es drained))
        else drain_upper ref upper_bounds (i + 1) es drained))"
  by pat_completeness auto
termination
proof (relation "measure (\<lambda>(_, _, i, es, _). vec_length es - i)", goal_cases)
  case (2 ref upper_bounds i es drained e p xes x es' drained')
  then have "vec_length es' < vec_length es" "i < vec_length es"
    by (auto simp: swap_remove_def index_vec_def assert_def usize_sub_def and_then_eq_Ok_iff
        split: if_splits)
  then show ?case by simp
qed (auto simp: index_vec_def assert_def and_then_eq_Ok_iff split: if_splits)

declare drain_upper.simps [simp del]

definition deque_insert :: "'a list \<Rightarrow> nat \<Rightarrow> 'a \<Rightarrow> 'a list panics" where
  "deque_insert xs i x =
     (if i \<le> length xs then Ok (take i xs @ x # drop i xs) else Crash IndexOutOfBounds)"

text \<open>
  Case 3 of \<open>update\<close>: split the bucket at its first prefix length, or put everything back and
  discard the new entry.
\<close>

definition split_bucket :: "routing_table \<Rightarrow> nat \<Rightarrow> bucket \<Rightarrow> nat \<Rightarrow> routing_entry \<Rightarrow>
    routing_table panics" where
  "split_bucket rt bucket_index b prefix_len new_entry =
     and_then (u32_sub (range_end (bounds b)) (range_start (bounds b))) (\<lambda>width.
     if \<not> width > 1 then Ok rt else
     and_then (u32_add (range_start (bounds b)) 1) (\<lambda>middle.
     let lower_bounds = \<lparr>range_start = range_start (bounds b), range_end = middle\<rparr>;
         upper_bounds = \<lparr>range_start = middle, range_end = range_end (bounds b)\<rparr> in
     and_then (drain_upper (reference_id rt) upper_bounds 0 (entries b) new_vec)
       (\<lambda>(lower_entries, drained).
     let lower_has_slot = is_not_full lower_entries; upper_has_slot = is_not_full drained;
         upper_bucket = bucket_new upper_bounds in
     if lower_has_slot \<and> contains lower_bounds prefix_len then
       and_then (append (entries upper_bucket) drained) (\<lambda>upper_entries.
       and_then (push lower_entries new_entry) (\<lambda>lower_entries.
       and_then (deque_insert
           ((buckets rt)[bucket_index := \<lparr>entries = lower_entries, bounds = lower_bounds\<rparr>])
           (bucket_index + 1) (upper_bucket\<lparr>entries := upper_entries\<rparr>)) (\<lambda>bs.
         Ok (rt\<lparr>buckets := bs\<rparr>))))
     else if upper_has_slot \<and> contains upper_bounds prefix_len then
       and_then (append (entries upper_bucket) drained) (\<lambda>upper_entries.
       and_then (push upper_entries new_entry) (\<lambda>upper_entries.
       and_then (deque_insert
           ((buckets rt)[bucket_index := \<lparr>entries = lower_entries, bounds = lower_bounds\<rparr>])
           (bucket_index + 1) (upper_bucket\<lparr>entries := upper_entries\<rparr>)) (\<lambda>bs.
         Ok (rt\<lparr>buckets := bs\<rparr>))))
     else
       and_then (append lower_entries drained) (\<lambda>restored.
         Ok (rt\<lparr>buckets := (buckets rt)[bucket_index := b\<lparr>entries := restored\<rparr>]\<rparr>)))))"

definition set_entries :: "routing_table \<Rightarrow> nat \<Rightarrow> bucket \<Rightarrow> routing_entry fixed_vec \<Rightarrow> routing_table"
  where
  "set_entries rt i b es = rt\<lparr>buckets := (buckets rt)[i := b\<lparr>entries := es\<rparr>]\<rparr>"

definition update :: "routing_table \<Rightarrow> node_contact_info \<Rightarrow> seen_in \<Rightarrow> clock \<Rightarrow>
    routing_table panics" where
  "update rt n seen clk =
     and_then (assert (buckets rt \<noteq> [])) (\<lambda>_.
     let prefix_len = common_prefix_length (reference_id rt) (contact_id n) in
     and_then (bucket_for (buckets rt) prefix_len) (\<lambda>(bucket_index, b).
     and_then (as_slice (entries b)) (\<lambda>es.
     case iter_position (\<lambda>e. contact_id (node e) = contact_id n) es of
       Some entry_position \<Rightarrow>
         and_then (index_mut (entries b) entry_position (\<lambda>e. entry_update e seen (seen_now clk)))
           (\<lambda>v. Ok (set_entries rt bucket_index b v))
     | None \<Rightarrow>
         let new_entry = entry_update (entry_new n) seen (seen_now clk) in
         if is_not_full (entries b) then
           and_then (push (entries b) new_entry) (\<lambda>v. Ok (set_entries rt bucket_index b v))
         else (case bad_position clk es of
           Some bad_node \<Rightarrow>
             and_then (index_mut (entries b) bad_node (\<lambda>_. new_entry))
               (\<lambda>v. Ok (set_entries rt bucket_index b v))
         | None \<Rightarrow> split_bucket rt bucket_index b prefix_len new_entry))))"

end
