(* ===== verification/Krpc.thy ===== *)
theory Krpc
  imports Bencode_Roundtrip Bencode_Display Node_Distance Routing_Table
begin

text \<open>
  The KRPC messages of \<open>rust/src/main.rs\<close>: building a request, reading the response to
  \<open>find_node\<close>, and dispatching a received message. Random bytes are parameters; what a call
  prints is part of its result.
\<close>

section \<open>Requests\<close>

record my_info =
  client_version :: "rust_string option"
  my_id :: node_id
  my_port :: u16

text \<open>The transaction id is drawn from the random generator: it is the first argument.\<close>

definition krpc_request :: "u8 list \<Rightarrow> rust_string \<Rightarrow> dict \<Rightarrow> my_info \<Rightarrow> bencode" where
  "krpc_request transaction_id method args info =
     (let d = bt_insert (bytes ''t'') (Bytes transaction_id) [];
          d = bt_insert (bytes ''y'') (Bytes (bytes ''q'')) d;
          d = bt_insert (bytes ''q'') (Bytes (as_bytes method)) d;
          d = bt_insert (bytes ''a'') (Dict args) d;
          d = (case client_version info of
                 Some version \<Rightarrow> bt_insert (bytes ''v'') (Bytes (as_bytes version)) d
               | None \<Rightarrow> d)
      in Dict d)"

text \<open>The enum of failures, which no code constructs yet.\<close>

datatype krpc_error =
    SendError
  | ResponseTimeout
  | MalformedResponse
  | InvalidResponse
  | ErrorResponse

section \<open>The response to \<open>find_node\<close>\<close>

record find_node_response =
  resp_transaction_id :: "u8 list"
  resp_client_version :: "rust_string option"
  responder_id :: node_id
  node_ids :: "node_id list"

definition from_bencode :: "dict \<Rightarrow> (find_node_response, string) outcome" where
  "from_bencode d =
     (let (t, d) = bt_remove (bytes ''t'') d in
      case t of Some (Bytes transaction_id) \<Rightarrow>
        (let (v, d) = bt_remove (bytes ''v'') d;
             version = (case v of Some (Bytes b) \<Rightarrow> Some (from_utf8_lossy b) | _ \<Rightarrow> None);
             (r, d) = bt_remove (bytes ''r'') d
         in case r of Some (Dict return_values) \<Rightarrow>
              (let (i, return_values) = bt_remove (bytes ''id'') return_values in
               case i of Some (Bytes b) \<Rightarrow>
                 and_then (from_vec b) (\<lambda>responder.
                 let (n, return_values) = bt_remove (bytes ''nodes'') return_values in
                 case n of Some (Bytes b) \<Rightarrow>
                   and_then (multiple_from_vec b) (\<lambda>ids.
                     Ok \<lparr>resp_transaction_id = transaction_id, resp_client_version = version,
                         responder_id = responder, node_ids = ids\<rparr>)
                 | _ \<Rightarrow> Err ''No or invalid node ids'')
               | _ \<Rightarrow> Err ''No or invalid responder id'')
            | _ \<Rightarrow> Err ''No or invalid return value dict'')
      | _ \<Rightarrow> Err ''No or invalid transaction id'')"

definition transaction_id :: "find_node_response \<Rightarrow> u8 list" where
  "transaction_id r = resp_transaction_id r"

section \<open>Dispatch\<close>

text \<open>A handler returns its result and the lines it printed.\<close>

definition krpc_on_return :: "dict \<Rightarrow> (unit, string) outcome \<times> rust_string list" where
  "krpc_on_return msg = (Ok (), [str_of ''Received response: '' @ display (Dict msg)])"

definition krpc_on_error :: "dict \<Rightarrow> (unit, string) outcome \<times> rust_string list" where
  "krpc_on_error msg = (Ok (), [str_of ''Received error response: '' @ display (Dict msg)])"

definition krpc_handle :: "bencode \<Rightarrow> (unit, string) outcome \<times> rust_string list" where
  "krpc_handle b =
     (case b of
        Dict msg \<Rightarrow>
          (case bt_get msg (bytes ''y'') of
             Some (Bytes y) \<Rightarrow>
               if y = bytes ''r'' then krpc_on_return msg
               else if y = bytes ''e'' then krpc_on_error msg
               else (Err ''Unhandled KRPC message type'', [])
           | _ \<Rightarrow> (Err ''KRPC message does not contain key y or invalid value type'', []))
      | _ \<Rightarrow> (Err ''KRPC message is not a Dict'', []))"

section \<open>Keys\<close>

text \<open>The message keys are distinct and in the order the requests are encoded in.\<close>

lemma key_order:
  "bytes ''a'' < bytes ''q''" "bytes ''a'' < bytes ''t''" "bytes ''a'' < bytes ''v''"
  "bytes ''a'' < bytes ''y''" "bytes ''q'' < bytes ''t''" "bytes ''q'' < bytes ''v''"
  "bytes ''q'' < bytes ''y''" "bytes ''t'' < bytes ''v''" "bytes ''t'' < bytes ''y''"
  "bytes ''v'' < bytes ''y''" "bytes ''r'' < bytes ''t''" "bytes ''r'' < bytes ''v''"
  "bytes ''id'' < bytes ''target''" "bytes ''id'' < bytes ''nodes''"
  by code_simp+

lemmas key_order_simps = key_order key_order [THEN order.strict_implies_not_eq]
  key_order [THEN order.strict_implies_not_eq, symmetric] key_order [THEN less_not_sym]

lemma krpc_request_eq:
  "krpc_request t m args info =
    Dict ([(bytes ''a'', Dict args), (bytes ''q'', Bytes (as_bytes m)), (bytes ''t'', Bytes t)] @
      (case client_version info of Some v \<Rightarrow> [(bytes ''v'', Bytes (as_bytes v))] | None \<Rightarrow> []) @
      [(bytes ''y'', Bytes (bytes ''q''))])"
  by (simp add: krpc_request_def key_order_simps split: option.split)

text \<open>Removing one key leaves the others, so the reader sees the message it was given.\<close>

lemma bt_remove_eq: "bt_remove k m = (bt_get m k, snd (bt_remove k m))"
  by (simp add: bt_remove_def bt_get_def)

lemma bt_get_remove_other: "k' \<noteq> k \<Longrightarrow> bt_get (snd (bt_remove k m)) k' = bt_get m k'"
  by (simp add: bt_get_def map_of_bt_remove)

section \<open>The reader, without the removals\<close>

definition read_version :: "bencode option \<Rightarrow> rust_string option" where
  "read_version v = (case v of Some (Bytes b) \<Rightarrow> Some (from_utf8_lossy b) | _ \<Rightarrow> None)"

definition read_response :: "dict \<Rightarrow> (find_node_response, string) outcome" where
  "read_response d =
     (case (bt_get d (bytes ''t''), bt_get d (bytes ''r'')) of
        (Some (Bytes t), Some (Dict r)) \<Rightarrow>
          (case (bt_get r (bytes ''id''), bt_get r (bytes ''nodes'')) of
             (Some (Bytes i), nodes) \<Rightarrow>
               if length i \<noteq> 20 then Err ''Invalid node id - must be 20 bytes long''
               else (case nodes of
                 Some (Bytes ns) \<Rightarrow>
                   Ok \<lparr>resp_transaction_id = t, resp_client_version = read_version (bt_get d (bytes ''v'')),
                     responder_id = i,
                     node_ids = map (\<lambda>k. take 20 (drop (k * 20) ns)) [0..<length ns div 20]\<rparr>
               | _ \<Rightarrow> Err ''No or invalid node ids'')
           | _ \<Rightarrow> Err ''No or invalid responder id'')
      | (Some (Bytes t), _) \<Rightarrow> Err ''No or invalid return value dict''
      | _ \<Rightarrow> Err ''No or invalid transaction id'')"

lemma from_bencode_eq: "from_bencode d = read_response d"
proof -
  have rm: "bt_remove k m = (bt_get m k, snd (bt_remove k m))" for k and m :: dict
    by (rule bt_remove_eq)
  show ?thesis
    unfolding from_bencode_def Let_def
    by (subst rm, simp only: prod.case, subst rm, simp only: prod.case, subst rm, simp only: prod.case,
        subst rm, simp only: prod.case, subst rm, simp only: prod.case)
      (simp add: bt_get_remove_other key_order_simps read_response_def read_version_def from_vec_def
        from_slice_def multiple_from_vec_eq split: option.split bencode.split)
qed

section \<open>The bytes of a request\<close>

lemma find_node_bytes:
  assumes "wf_id me" "wf_id target" "length t = 2" "client_version info = None"
  shows "encode (krpc_request t (str_of ''find_node'')
      (bt_insert (bytes ''target'') (Bytes target) (bt_insert (bytes ''id'') (Bytes me) [])) info) =
    bytes ''d1:ad2:id20:'' @ me @ bytes ''6:target20:'' @ target @
    bytes ''e1:q9:find_node1:t2:'' @ t @ bytes ''1:y1:qe''"
proof -
  have "encode_bytes (bytes ''a'') = bytes ''1:a''" "encode_bytes (bytes ''q'') = bytes ''1:q''"
    "encode_bytes (bytes ''t'') = bytes ''1:t''" "encode_bytes (bytes ''y'') = bytes ''1:y''"
    "encode_bytes (bytes ''id'') = bytes ''2:id''" "encode_bytes (bytes ''target'') = bytes ''6:target''"
    "encode_bytes (as_bytes (str_of ''find_node'')) = bytes ''9:find_node''"
    "nat_to_string 20 = bytes ''20''" "nat_to_string 2 = bytes ''2''"
    by code_simp+
  with assms show ?thesis
    by (simp add: krpc_request_eq key_order_simps encode_bytes_def wf_id_def)
      (simp add: bytes_def)
qed

section \<open>Lists of 26-byte infos\<close>

lemma length_concat_26: "\<forall>i \<in> set infos. length i = 26 \<Longrightarrow> length (concat infos) = 26 * length infos"
  by (induction infos) simp_all

lemma drop_concat_26:
  "\<forall>i \<in> set infos. length i = 26 \<Longrightarrow> drop n (concat infos) = drop (n mod 26) (concat (drop (n div 26) infos))"
proof (induction infos arbitrary: n)
  case (Cons i infos)
  show ?case
  proof (cases "n < 26")
    case False
    then have "n div 26 = Suc ((n - 26) div 26)" "n mod 26 = (n - 26) mod 26"
      by (simp_all add: le_div_geq le_mod_geq)
    with False Cons show ?thesis by simp
  qed simp
qed simp

section \<open>Properties\<close>

text \<open>
  A request can be decoded again, whatever bytes follow it: the receiver reads back the
  dictionary that was built, with the client version if there is one.
\<close>

theorem request_roundtrip:
  assumes "wf_bencode (krpc_request t m args info)"
    and "wf_bytes (encode (krpc_request t m args info) @ rest)"
  shows "\<exists>d. decode (encode (krpc_request t m args info) @ rest) = Ok (Dict d) \<and>
    bt_get d (bytes ''t'') = Some (Bytes t) \<and> bt_get d (bytes ''y'') = Some (Bytes (bytes ''q'')) \<and>
    bt_get d (bytes ''q'') = Some (Bytes (as_bytes m)) \<and> bt_get d (bytes ''a'') = Some (Dict args) \<and>
    bt_get d (bytes ''v'') = map_option (\<lambda>v. Bytes (as_bytes v)) (client_version info)"
  using decode_encode_append [OF assms]
  by (simp add: krpc_request_eq bt_get_def key_order_simps split: option.split)

theorem request_roundtrip_witness:
  "\<exists>d. decode (encode (krpc_request [1, 2] (str_of ''ping'') []
      \<lparr>client_version = Some (str_of ''LT''), my_id = replicate 20 9, my_port = 6881\<rparr>) @ bytes ''xyz'') =
      Ok (Dict d) \<and>
    bt_get d (bytes ''v'') = Some (Bytes (bytes ''LT''))"
proof -
  let ?info = "\<lparr>client_version = Some (str_of ''LT''), my_id = replicate 20 9, my_port = 6881\<rparr>"
  have "wf_bencode (krpc_request [1, 2] (str_of ''ping'') [] ?info)"
    "wf_bytes (encode (krpc_request [1, 2] (str_of ''ping'') [] ?info) @ bytes ''xyz'')"
    "as_bytes (str_of ''LT'') = bytes ''LT''"
    by code_simp+
  with request_roundtrip [of "[1, 2]" "str_of ''ping''" "[]" ?info "bytes ''xyz''"] show ?thesis
    by auto
qed

text \<open>
  C32. Reading a response: the five removals see the message as it came, the errors are those of
  the first missing or mistyped field in the order \<open>t\<close>, \<open>r\<close>, \<open>id\<close>, \<open>nodes\<close>, a client
  version is optional, and reading the node ids never fails.
\<close>

theorem from_bencode_spec: "from_bencode d = read_response d"
  by (rule from_bencode_eq)

text \<open>
  Reading never panics, on any dictionary, and a response that is read is well typed: the ids
  are arrays of twenty bytes and the client version is a string of Unicode scalar values.
\<close>

theorem from_bencode_typed:
  "case from_bencode d of
     Ok r \<Rightarrow> wf_id (responder_id r) \<and> list_all wf_id (node_ids r) \<and>
       pred_option (list_all scalar) (resp_client_version r)
   | Err _ \<Rightarrow> True
   | Crash _ \<Rightarrow> False"
proof -
  have "20 \<le> length ns - k * 20" if "k < length ns div 20" for k and ns :: "u8 list"
    using that by linarith
  then show ?thesis
    by (auto simp: from_bencode_eq read_response_def read_version_def wf_id_def list_all_iff
        from_utf8_lossy_scalar [unfolded list_all_iff] split: option.split bencode.split)
qed

text \<open>
  C33. A response whose \<open>nodes\<close> are plain twenty-byte ids survives encoding, decoding and reading,
  the client version as a string.
\<close>

theorem response_roundtrip:
  fixes t version me ids
  defines "reply \<equiv> Dict [(bytes ''r'', Dict [(bytes ''id'', Bytes me), (bytes ''nodes'', Bytes (concat ids))]),
    (bytes ''t'', Bytes t), (bytes ''v'', Bytes (as_bytes version)), (bytes ''y'', Bytes (bytes ''r''))]"
  assumes "wf_bencode reply" "wf_bytes (encode reply)"
    and "wf_id me" "list_all wf_id ids" "list_all scalar version"
  shows "\<exists>d. decode (encode reply) = Ok (Dict d) \<and> from_bencode d =
    Ok \<lparr>resp_transaction_id = t, resp_client_version = Some version, responder_id = me, node_ids = ids\<rparr>"
proof -
  have len: "length (concat ids) = 20 * length ids"
    using assms(5) by (induction ids) (simp_all add: wf_id_def)
  have "take 20 (drop (k * 20) (concat ids)) = ids ! k" if "k < length ids" for k
    using that assms(5)
  proof (induction ids arbitrary: k)
    case (Cons i ids)
    then show ?case by (cases k) (simp_all add: wf_id_def)
  qed simp
  then have "map (\<lambda>k. take 20 (drop (k * 20) (concat ids))) [0..<length (concat ids) div 20] = ids"
    by (intro nth_equalityI) (simp_all add: len)
  moreover have "decode (encode reply) = Ok reply"
    using decode_encode_append [OF assms(2), of "[]"] assms(3) by simp
  moreover have "from_utf8_lossy (as_bytes version) = version"
    using assms(6) by (intro from_utf8_lossy_valid from_utf8_as_bytes)
  ultimately show ?thesis
    using assms(4)
    by (simp add: reply_def from_bencode_eq read_response_def read_version_def bt_get_def
        key_order_simps wf_id_def)
qed

theorem response_roundtrip_witness:
  "\<exists>d. decode (encode (Dict [(bytes ''r'', Dict [(bytes ''id'', Bytes (replicate 20 1)),
        (bytes ''nodes'', Bytes (concat [replicate 20 2, replicate 20 3]))]),
      (bytes ''t'', Bytes [5, 6]), (bytes ''v'', Bytes (as_bytes (str_of ''LT''))),
      (bytes ''y'', Bytes (bytes ''r''))])) = Ok (Dict d) \<and>
    from_bencode d = Ok \<lparr>resp_transaction_id = [5, 6], resp_client_version = Some (str_of ''LT''),
      responder_id = replicate 20 1, node_ids = [replicate 20 2, replicate 20 3]\<rparr>"
proof (rule response_roundtrip)
  show "list_all scalar (str_of ''LT'')" by (rule scalar_str_of)
  show "wf_id (replicate 20 1)" "list_all wf_id [replicate 20 2, replicate 20 3]"
    by (simp_all add: wf_id_def)
qed code_simp+

text \<open>
  C40. BEP 5 sends \<open>nodes\<close> as 26-byte compact node infos (id, IPv4 address, port). The reader cuts
  them into 20-byte pieces: piece \<open>k\<close> starts \<open>20 k mod 26\<close> bytes into info \<open>20 k div 26\<close>, so that only
  every thirteenth piece begins where an info does and is a node's id, that of every tenth node.
  The second piece already is the first node's address and the beginning of the second node's id.
\<close>

theorem compact_nodes_misread:
  assumes "bt_get d (bytes ''t'') = Some (Bytes t)" "bt_get d (bytes ''r'') = Some (Dict r)"
    and "bt_get r (bytes ''id'') = Some (Bytes me)" "wf_id me"
    and "bt_get r (bytes ''nodes'') = Some (Bytes (concat infos))" "\<forall>i \<in> set infos. length i = 26"
  shows "\<exists>resp. from_bencode d = Ok resp \<and> length (node_ids resp) = 26 * length infos div 20 \<and>
    (\<forall>k < length (node_ids resp).
      node_ids resp ! k = take 20 (drop (20 * k mod 26) (concat (drop (20 * k div 26) infos))) \<and>
      (20 * k mod 26 = 0 \<longleftrightarrow> k mod 13 = 0)) \<and>
    (\<forall>j. 10 * j < length infos \<longrightarrow> node_ids resp ! (13 * j) = take 20 (infos ! (10 * j))) \<and>
    (2 \<le> length infos \<longrightarrow> node_ids resp ! 1 = drop 20 (infos ! 0) @ take 14 (infos ! 1))"
proof -
  let ?ids = "map (\<lambda>k. take 20 (drop (k * 20) (concat infos))) [0..<length (concat infos) div 20]"
  have "from_bencode d = Ok \<lparr>resp_transaction_id = t,
      resp_client_version = read_version (bt_get d (bytes ''v'')), responder_id = me, node_ids = ?ids\<rparr>"
    using assms(1-5) by (simp add: from_bencode_eq read_response_def wf_id_def)
  moreover have len: "length (concat infos) = 26 * length infos" by (rule length_concat_26 [OF assms(6)])
  moreover have ids: "?ids ! k = take 20 (drop (20 * k mod 26) (concat (drop (20 * k div 26) infos)))"
    if "k < 26 * length infos div 20" for k
    using that len drop_concat_26 [OF assms(6), of "20 * k"] by (simp add: mult.commute)
  moreover have "20 * k mod 26 = 0 \<longleftrightarrow> k mod 13 = 0" for k :: nat by presburger
  moreover have "?ids ! (13 * j) = take 20 (infos ! (10 * j))" if j: "10 * j < length infos" for j
  proof -
    have "13 * j < 26 * length infos div 20" using j by linarith
    moreover have "20 * (13 * j) mod 26 = 0" "20 * (13 * j) div 26 = 10 * j" by presburger+
    moreover have "length (infos ! (10 * j)) = 26" using assms(6) j by simp
    ultimately show ?thesis using ids [of "13 * j"] Cons_nth_drop_Suc [OF j, symmetric] by simp
  qed
  moreover have "?ids ! 1 = drop 20 (infos ! 0) @ take 14 (infos ! 1)" if "2 \<le> length infos"
  proof -
    obtain a b rest where "infos = a # b # rest" using \<open>2 \<le> length infos\<close>
      by (cases infos; cases "tl infos") auto
    moreover have "1 < 26 * length infos div 20" using \<open>2 \<le> length infos\<close> by linarith
    ultimately show ?thesis using ids [of 1] assms(6) by simp
  qed
  ultimately show ?thesis by (intro exI conjI) (assumption, simp_all)
qed

theorem compact_nodes_misread_witness:
  "\<exists>resp. from_bencode [(bytes ''r'', Dict [(bytes ''id'', Bytes (replicate 20 1)),
      (bytes ''nodes'', Bytes (concat [replicate 20 2 @ replicate 6 127, replicate 20 3 @ replicate 6 128]))]),
      (bytes ''t'', Bytes [5, 6])] = Ok resp \<and>
    node_ids resp ! 1 = replicate 6 127 @ replicate 14 3"
  using compact_nodes_misread [of "[(bytes ''r'', Dict [(bytes ''id'', Bytes (replicate 20 1)),
      (bytes ''nodes'', Bytes (concat [replicate 20 2 @ replicate 6 127, replicate 20 3 @ replicate 6 128]))]),
      (bytes ''t'', Bytes [5, 6])]" "[5, 6]" "[(bytes ''id'', Bytes (replicate 20 1)),
      (bytes ''nodes'', Bytes (concat [replicate 20 2 @ replicate 6 127, replicate 20 3 @ replicate 6 128]))]"
      "replicate 20 1" "[replicate 20 2 @ replicate 6 127, replicate 20 3 @ replicate 6 128]"]
  by (auto simp: bt_get_def key_order_simps wf_id_def)

text \<open>
  A received message is accepted exactly when it is a dictionary whose \<open>y\<close> is the byte string
  \<open>r\<close> or \<open>e\<close>, and it prints one line then and nothing otherwise. Queries are not handled.
\<close>

theorem krpc_handle_accepts:
  "(fst (krpc_handle b) = Ok () \<longleftrightarrow>
     (\<exists>d y. b = Dict d \<and> bt_get d (bytes ''y'') = Some (Bytes y) \<and> (y = bytes ''r'' \<or> y = bytes ''e''))) \<and>
   length (snd (krpc_handle b)) = (if fst (krpc_handle b) = Ok () then 1 else 0) \<and>
   \<not> crashes (fst (krpc_handle b))"
  by (simp add: krpc_handle_def krpc_on_return_def krpc_on_error_def
      split: bencode.split option.split)

end
