(* ===== verification/Net_Loop.thy ===== *)
theory Net_Loop
  imports Krpc Bencode_Local
begin

text \<open>
  The network thread of \<open>main\<close> in \<open>rust/src/main.rs\<close>: its start and one round of its loop as a
  function of what the outside gives it (a command from the user interface, random bytes, the
  result of \<open>send_to\<close>, a datagram). The thread runs until it panics, so a run is a finite list of
  rounds. What it sends and shows is part of its state.
\<close>

section \<open>State and input\<close>

datatype net_command = Bootstrap socket_addr_v4

record net_thread =
  info :: my_info
  buf :: "u8 list"
  sent :: "(u8 list \<times> socket_addr_v4) list"
  shown :: "rust_string list"

text \<open>
  One round: the result of \<open>net_rx.try_recv()\<close>, the two bytes \<open>krpc_request\<close> draws, whether
  \<open>send_to\<close> succeeds, and the datagram waiting on the socket (\<open>None\<close>: \<open>recv\<close> would block).
\<close>

record net_round =
  command :: "net_command option"
  random_bytes :: "u8 list"
  send_ok :: bool
  datagram :: "u8 list option"

text \<open>The thread's variables once its socket is set up.\<close>

definition net_start :: "u8 list \<Rightarrow> net_thread" where
  "net_start my_node_id =
     \<lparr>info = \<lparr>client_version = None, my_id = my_node_id, my_port = 6881\<rparr>,
      buf = replicate 1024 0, sent = [], shown = []\<rparr>"

text \<open>
  The start of the thread: binding the socket and making it nonblocking are unwrapped. \<open>bound\<close> and
  \<open>nonblocking\<close> are what the two calls return.
\<close>

definition net_spawn :: "(unit, unit) outcome \<Rightarrow> (unit, unit) outcome \<Rightarrow> u8 list \<Rightarrow>
    net_thread panics" where
  "net_spawn bound nonblocking my_node_id =
     and_then (unwrap bound) (\<lambda>_. and_then (unwrap nonblocking) (\<lambda>_. Ok (net_start my_node_id)))"

section \<open>The loop\<close>

definition show_line :: "rust_string \<Rightarrow> net_thread \<Rightarrow> net_thread" where
  "show_line s th = th\<lparr>shown := shown th @ [s]\<rparr>"

definition bootstrap_request :: "my_info \<Rightarrow> u8 list \<Rightarrow> bencode" where
  "bootstrap_request i t =
     (let args = bt_insert (bytes ''id'') (Bytes (my_id i)) [];
          args = bt_insert (bytes ''target'') (Bytes (my_id i)) args
      in krpc_request t (str_of ''find_node'') args i)"

definition run_command :: "net_round \<Rightarrow> net_thread \<Rightarrow> net_thread" where
  "run_command r th =
     (case command r of
        Some (Bootstrap addr) \<Rightarrow>
          (let req = bootstrap_request (info th) (random_bytes r);
               th = show_line (str_of ''sending: '' @ display req) th
           in if send_ok r then th\<lparr>sent := sent th @ [(encode req, addr)]\<rparr>
              else show_line (str_of ''error sending'') th)
      | None \<Rightarrow> th)"

text \<open>\<open>recv\<close> copies as much of the datagram as the buffer holds and drops the rest.\<close>

definition recv :: "u8 list \<Rightarrow> u8 list \<Rightarrow> nat \<times> u8 list" where
  "recv b d = (let num = min (length d) (length b) in (num, take num d @ drop num b))"

definition receive :: "net_round \<Rightarrow> net_thread \<Rightarrow> net_thread panics" where
  "receive r th =
     (case datagram r of
        Some d \<Rightarrow>
          (let (num, b) = recv (buf th) d in
           and_then (slice_to b num) (\<lambda>s.
           and_then (unwrap (decode s)) (\<lambda>result.
             Ok (show_line (str_of ''received: '' @ display result) (th\<lparr>buf := b\<rparr>)))))
      | None \<Rightarrow> Ok th)"

definition net_step :: "net_round \<Rightarrow> net_thread \<Rightarrow> net_thread panics" where
  "net_step r th = receive r (run_command r th)"

fun net_run :: "net_round list \<Rightarrow> net_thread \<Rightarrow> net_thread panics" where
  "net_run [] th = Ok th"
| "net_run (r # rs) th = and_then (net_step r th) (net_run rs)"

section \<open>One round\<close>

text \<open>What the thread reads of a datagram, and the invariant of its state.\<close>

definition received :: "u8 list \<Rightarrow> u8 list" where
  "received d = take 1024 d"

definition decodable :: "net_round \<Rightarrow> bool" where
  "decodable r = (case datagram r of
     None \<Rightarrow> True | Some d \<Rightarrow> (case decode (received d) of Ok _ \<Rightarrow> True | _ \<Rightarrow> False))"

definition wf_thread :: "net_thread \<Rightarrow> bool" where
  "wf_thread th \<longleftrightarrow> length (buf th) = 1024 \<and> client_version (info th) = None \<and> wf_id (my_id (info th))"

lemma wf_net_start: "wf_id me \<Longrightarrow> wf_thread (net_start me)"
  by (simp add: wf_thread_def net_start_def)

lemma wf_received: "wf_bytes (received d)"
proof -
  have "int (length (received d)) \<le> 1024" by (simp add: received_def)
  then show ?thesis by (simp add: wf_bytes_def)
qed

lemma recv_slice:
  assumes "length b = 1024"
  shows "fst (recv b d) \<le> 1024" "length (snd (recv b d)) = 1024"
    "take (fst (recv b d)) (snd (recv b d)) = received d"
  using assms by (simp_all add: recv_def received_def Let_def min_def)

lemma run_command_keeps:
  "buf (run_command r th) = buf th" "info (run_command r th) = info th"
  by (simp_all add: run_command_def show_line_def Let_def split: option.split net_command.split)

lemma net_step_cases:
  assumes "wf_thread th"
  shows "if decodable r
    then \<exists>th'. net_step r th = Ok th' \<and> wf_thread th' \<and> info th' = info th \<and>
      sent th' = sent (run_command r th)
    else net_step r th = Crash UnwrapFailed"
proof (cases "datagram r")
  case None
  with assms show ?thesis
    by (simp add: net_step_def receive_def decodable_def wf_thread_def run_command_keeps)
next
  case (Some d)
  have b: "length (buf (run_command r th)) = 1024" using assms by (simp add: wf_thread_def run_command_keeps)
  obtain num b' where recv: "recv (buf (run_command r th)) d = (num, b')" by (cases "recv (buf (run_command r th)) d")
  have "num \<le> length b'" "take num b' = received d" "length b' = 1024"
    using recv_slice [OF b, of d] recv by simp_all
  moreover have "\<not> crashes (decode (received d))" by (rule decode_not_crash [OF wf_received])
  ultimately show ?thesis
    using assms Some recv
    by (cases "decode (received d)")
      (simp_all add: net_step_def receive_def decodable_def wf_thread_def run_command_keeps show_line_def)
qed

lemma net_step_receives:
  assumes "wf_thread th" "datagram r = Some d" "decode (received d) = Ok v"
  obtains b where "net_step r th =
    Ok (show_line (str_of ''received: '' @ display v) (run_command r th\<lparr>buf := b\<rparr>))"
proof -
  let ?b = "buf (run_command r th)"
  have b: "length ?b = 1024" using assms(1) by (simp add: wf_thread_def run_command_keeps)
  obtain num b' where recv: "recv ?b d = (num, b')" by (cases "recv ?b d")
  then have "num \<le> length b'" "take num b' = received d" using recv_slice [OF b, of d] by simp_all
  then show thesis using assms(2,3) recv by (intro that [of b']) (simp add: net_step_def receive_def)
qed

section \<open>Runs\<close>

text \<open>The bytes of the bootstrap request: a \<open>find_node\<close> query for the node's own id.\<close>

lemma bootstrap_request_bytes:
  assumes "wf_id (my_id i)" "client_version i = None" "length t = 2"
  shows "encode (bootstrap_request i t) = bytes ''d1:ad2:id20:'' @ my_id i @
    bytes ''6:target20:'' @ my_id i @ bytes ''e1:q9:find_node1:t2:'' @ t @ bytes ''1:y1:qe''"
  using find_node_bytes [OF assms(1) assms(1) assms(3) assms(2)]
  by (simp add: bootstrap_request_def del: bt_insert.simps)

text \<open>The bootstrap requests of a run that the socket accepted.\<close>

definition requests :: "my_info \<Rightarrow> net_round list \<Rightarrow> (u8 list \<times> socket_addr_v4) list" where
  "requests i rs = concat (map (\<lambda>r. case command r of
     Some (Bootstrap addr) \<Rightarrow>
       if send_ok r then [(encode (bootstrap_request i (random_bytes r)), addr)] else []
   | None \<Rightarrow> []) rs)"

lemma sent_run_command: "sent (run_command r th) = sent th @ requests (info th) [r]"
  by (simp add: run_command_def requests_def show_line_def Let_def split: option.split net_command.split)

lemma requests_Cons: "requests i (r # rs) = requests i [r] @ requests i rs"
  by (simp add: requests_def)

lemma net_run_cases:
  assumes "wf_thread th"
  shows "if list_all decodable rs
    then \<exists>th'. net_run rs th = Ok th' \<and> wf_thread th' \<and> info th' = info th \<and>
      sent th' = sent th @ requests (info th) rs
    else net_run rs th = Crash UnwrapFailed"
  using assms
proof (induction rs arbitrary: th)
  case Nil
  then show ?case by (simp add: requests_def)
next
  case (Cons r rs)
  show ?case
  proof (cases "decodable r")
    case True
    then obtain th1 where th1: "net_step r th = Ok th1" "wf_thread th1" "info th1 = info th"
      "sent th1 = sent th @ requests (info th) [r]"
      using net_step_cases [OF Cons.prems, of r] by (auto simp: sent_run_command)
    with Cons.IH [OF th1(2)] True show ?thesis
      by (auto simp: requests_Cons [of _ r rs])
  next
    case False
    with net_step_cases [OF Cons.prems, of r] show ?thesis by simp
  qed
qed

section \<open>Properties\<close>

text \<open>A round in which nothing happens.\<close>

definition quiet_round :: net_round where
  "quiet_round = \<lparr>command = None, random_bytes = [0, 0], send_ok = True, datagram = None\<rparr>"

text \<open>
  C8. The network thread panics exactly when the socket cannot be bound or made nonblocking, or when a
  datagram arrives of which the first 1024 bytes do not decode: nothing else in its loop can fail.
\<close>

theorem net_thread_panics_iff:
  assumes "wf_id me"
  shows "crashes (and_then (net_spawn bound nonblocking me) (net_run rs)) \<longleftrightarrow>
    bound \<noteq> Ok () \<or> nonblocking \<noteq> Ok () \<or>
    (\<exists>r \<in> set rs. \<exists>d. datagram r = Some d \<and> (\<forall>v. decode (take 1024 d) \<noteq> Ok v))"
proof (cases "bound = Ok () \<and> nonblocking = Ok ()")
  case True
  have "decodable r \<longleftrightarrow> \<not> (\<exists>d. datagram r = Some d \<and> (\<forall>v. decode (take 1024 d) \<noteq> Ok v))" for r
    by (auto simp: decodable_def received_def split: option.split outcome.split)
  then have "list_all decodable rs \<longleftrightarrow>
      \<not> (\<exists>r \<in> set rs. \<exists>d. datagram r = Some d \<and> (\<forall>v. decode (take 1024 d) \<noteq> Ok v))"
    by (auto simp: list_all_iff)
  with True net_run_cases [OF wf_net_start [OF assms], of rs] show ?thesis
    by (auto simp: net_spawn_def split: if_splits)
next
  case False
  then have "crashes (net_spawn bound nonblocking me)"
    by (auto simp: net_spawn_def unwrap_def split: outcome.split)
  with False show ?thesis by (auto simp: crashes_and_then)
qed

theorem net_thread_panics_iff_witness:
  "crashes (and_then (net_spawn (Ok ()) (Ok ()) (replicate 20 0))
      (net_run [quiet_round, quiet_round\<lparr>datagram := Some []\<rparr>])) \<and>
   crashes (and_then (net_spawn (Err ()) (Ok ()) (replicate 20 0)) (net_run [])) \<and>
   \<not> crashes (and_then (net_spawn (Ok ()) (Ok ()) (replicate 20 0)) (net_run [quiet_round]))"
proof -
  have "decode [] = Err EndOfStream" by code_simp
  then show ?thesis
    using net_thread_panics_iff [of "replicate 20 0"] by (simp add: wf_id_def quiet_round_def del: net_run.simps)
qed

text \<open>
  C34. Any other run returns to the top of the loop, and has sent one datagram for every bootstrap
  command whose \<open>send_to\<close> succeeded: the bytes of a \<open>find_node\<close> query for the node's own id.
\<close>

theorem net_thread_sends:
  assumes "wf_id me" "net_run rs (net_start me) = Ok th"
    and "\<forall>r \<in> set rs. length (random_bytes r) = 2"
  shows "sent th = concat (map (\<lambda>r. case command r of
     Some (Bootstrap addr) \<Rightarrow>
       if send_ok r then [(bytes ''d1:ad2:id20:'' @ me @ bytes ''6:target20:'' @ me @
         bytes ''e1:q9:find_node1:t2:'' @ random_bytes r @ bytes ''1:y1:qe'', addr)] else []
   | None \<Rightarrow> []) rs)"
proof -
  have "encode (bootstrap_request (info (net_start me)) t) = bytes ''d1:ad2:id20:'' @ me @
      bytes ''6:target20:'' @ me @ bytes ''e1:q9:find_node1:t2:'' @ t @ bytes ''1:y1:qe''"
    if "length t = 2" for t
    using bootstrap_request_bytes [OF _ _ that, of "info (net_start me)"] assms(1)
    by (simp add: net_start_def)
  then have "requests (info (net_start me)) rs = concat (map (\<lambda>r. case command r of
     Some (Bootstrap addr) \<Rightarrow>
       if send_ok r then [(bytes ''d1:ad2:id20:'' @ me @ bytes ''6:target20:'' @ me @
         bytes ''e1:q9:find_node1:t2:'' @ random_bytes r @ bytes ''1:y1:qe'', addr)] else []
   | None \<Rightarrow> []) rs)"
    unfolding requests_def using assms(3)
    by (intro arg_cong [where f = concat] map_cong refl) (auto split: option.split net_command.split)
  moreover have "sent th = requests (info (net_start me)) rs"
    using net_run_cases [OF wf_net_start [OF assms(1)], of rs] assms(2)
    by (simp add: net_start_def split: if_splits)
  ultimately show ?thesis by simp
qed

theorem net_thread_sends_witness:
  "\<exists>th addr. net_run [quiet_round\<lparr>command := Some (Bootstrap addr)\<rparr>] (net_start (replicate 20 7)) = Ok th \<and>
    sent th = [(bytes ''d1:ad2:id20:'' @ replicate 20 7 @ bytes ''6:target20:'' @ replicate 20 7 @
      bytes ''e1:q9:find_node1:t2:'' @ [0, 0] @ bytes ''1:y1:qe'', addr)]"
proof -
  let ?rs = "[quiet_round\<lparr>command := Some (Bootstrap \<lparr>ip = 1, port = 2\<rparr>)\<rparr>]"
  obtain th where "net_run ?rs (net_start (replicate 20 7)) = Ok th"
    by (simp add: quiet_round_def net_step_def receive_def run_command_def Let_def)
  with net_thread_sends [OF _ this] show ?thesis by (auto simp: wf_id_def quiet_round_def)
qed

text \<open>
  C35. A well-formed message is shown if its encoding fits into the receive buffer of 1024 bytes; a
  longer one is cut off, does not decode and kills the thread.
\<close>

theorem net_thread_receives:
  assumes "wf_id me" "net_run rs (net_start me) = Ok th"
    and "wf_bencode v" "wf_bytes (encode v)" "datagram r = Some (encode v)"
  shows "if length (encode v) \<le> 1024
    then \<exists>th'. net_step r th = Ok th' \<and> last (shown th') = str_of ''received: '' @ display v
    else net_step r th = Crash UnwrapFailed"
proof -
  have wf: "wf_thread th"
    using net_run_cases [OF wf_net_start [OF assms(1)], of rs] assms(2) by (simp split: if_splits)
  show ?thesis
  proof (cases "length (encode v) \<le> 1024")
    case True
    then have dec: "received (encode v) = encode v" "decode (encode v) = Ok v"
      using decode_encode_append [OF assms(3), of "[]"] assms(4) by (simp_all add: received_def)
    then obtain b where "net_step r th =
        Ok (show_line (str_of ''received: '' @ display v) (run_command r th\<lparr>buf := b\<rparr>))"
      using net_step_receives [OF wf assms(5), of v] by auto
    with True show ?thesis by (simp add: show_line_def)
  next
    case False
    then have "\<not> decodable r"
      using decode_truncated_not_Ok [OF assms(3,4), of 1024] assms(5)
      by (auto simp: decodable_def received_def split: outcome.split)
    with net_step_cases [OF wf, of r] False show ?thesis by simp
  qed
qed

theorem net_thread_receives_witness:
  "\<exists>th'. net_step (quiet_round\<lparr>datagram := Some (encode sample)\<rparr>) (net_start (replicate 20 7)) = Ok th' \<and>
    last (shown th') = str_of ''received: '' @ display sample"
proof -
  have "length (encode sample) \<le> 1024" by code_simp
  then show ?thesis
    using net_thread_receives [of "replicate 20 7" "[]" "net_start (replicate 20 7)" sample
        "quiet_round\<lparr>datagram := Some (encode sample)\<rparr>"] sample_wf
    by (simp add: wf_id_def)
qed

end
