(* ===== verification/Channel.thy ===== *)
theory Channel
  imports Prelude "HOL-Library.Sublist"
begin

text \<open>
  The channels of \<open>std::sync::mpsc\<close> between the two threads of \<open>main\<close>: an unbounded queue that one
  end fills with \<open>send\<close> and the other reads with \<open>try_recv\<close>, without blocking. Dropping the
  receiver discards what is queued and makes every later \<open>send\<close> fail; what was queued when the
  sender went away can still be received. The locale \<open>fifo\<close> is what the program relies on.
\<close>

section \<open>The model\<close>

record 'a channel =
  queue :: "'a list"
  receiver_alive :: bool

definition channel_new :: "'a channel" where
  "channel_new = \<lparr>queue = [], receiver_alive = True\<rparr>"

text \<open>\<open>send\<close> returns an error when the receiver is gone; the program ignores it.\<close>

definition send :: "'a \<Rightarrow> 'a channel \<Rightarrow> 'a channel" where
  "send x c = (if receiver_alive c then c\<lparr>queue := queue c @ [x]\<rparr> else c)"

text \<open>\<open>try_recv().ok()\<close>: both the empty and the disconnected channel give \<open>None\<close>.\<close>

definition try_recv :: "'a channel \<Rightarrow> 'a option \<times> 'a channel" where
  "try_recv c = (case queue c of [] \<Rightarrow> (None, c) | x # xs \<Rightarrow> (Some x, c\<lparr>queue := xs\<rparr>))"

definition drop_receiver :: "'a channel \<Rightarrow> 'a channel" where
  "drop_receiver c = c\<lparr>queue := [], receiver_alive := False\<rparr>"

lemma channel_simps [simp]:
  "queue channel_new = []" "receiver_alive channel_new"
  "receiver_alive (send x c) = receiver_alive c"
  "queue (send x c) = queue c @ (if receiver_alive c then [x] else [])"
  "queue (drop_receiver c) = []" "\<not> receiver_alive (drop_receiver c)"
  by (simp_all add: channel_new_def send_def drop_receiver_def)

lemma send_list [simp]:
  "receiver_alive (fold send xs c) = receiver_alive c"
  "queue (fold send xs c) = queue c @ (if receiver_alive c then xs else [])"
  by (induction xs arbitrary: c) simp_all

lemma try_recv_simps [simp]:
  "fst (try_recv c) = (case queue c of [] \<Rightarrow> None | x # _ \<Rightarrow> Some x)"
  "queue (snd (try_recv c)) = tl (queue c)"
  "receiver_alive (snd (try_recv c)) = receiver_alive c"
  by (simp_all add: try_recv_def split: list.split)

section \<open>The contract\<close>

locale fifo =
  fixes put :: "'a \<Rightarrow> 'c \<Rightarrow> 'c"
    and get :: "'c \<Rightarrow> 'a option \<times> 'c"
    and pending :: "'c \<Rightarrow> 'a list"
    and open_end :: "'c \<Rightarrow> bool"
  assumes pending_put: "open_end c \<Longrightarrow> pending (put x c) = pending c @ [x]"
    and open_put: "open_end (put x c) = open_end c"
    and get_pending: "pending c = (case fst (get c) of None \<Rightarrow> [] | Some x \<Rightarrow> x # pending (snd (get c)))"
    and get_None: "fst (get c) = None \<Longrightarrow> snd (get c) = c"
    and open_get: "open_end (snd (get c)) = open_end c"
begin

text \<open>What went in is what came out, followed by what is under way.\<close>

definition carries :: "'a list \<Rightarrow> 'a list \<Rightarrow> 'c \<Rightarrow> bool" where
  "carries ins outs c \<longleftrightarrow> ins = outs @ pending c"

lemma carries_start: "pending c = [] \<Longrightarrow> carries outs outs c"
  by (simp add: carries_def)

lemma carries_put: "carries ins outs c \<Longrightarrow> open_end c \<Longrightarrow> carries (ins @ [x]) outs (put x c)"
  by (simp add: carries_def pending_put)

lemma carries_get:
  "carries ins outs c \<Longrightarrow>
    carries ins (outs @ (case fst (get c) of None \<Rightarrow> [] | Some x \<Rightarrow> [x])) (snd (get c))"
  using get_pending [of c] get_None [of c] by (auto simp: carries_def split: option.splits)

lemma carries_put_list:
  "carries ins outs c \<Longrightarrow> open_end c \<Longrightarrow>
    carries (ins @ xs) outs (fold put xs c) \<and> open_end (fold put xs c)"
proof (induction xs arbitrary: ins c)
  case Nil
  then show ?case by simp
next
  case (Cons x xs)
  from Cons.IH [OF carries_put [OF Cons.prems, of x]] Cons.prems show ?case by (simp add: open_put)
qed

lemma delivered_in_order: "carries ins outs c \<Longrightarrow> prefix outs ins"
  by (simp add: carries_def)

end

interpretation mpsc: fifo send try_recv queue receiver_alive
  by unfold_locales (auto simp: try_recv_def split: list.split)

end
