(* ===== verification/Main_App.thy ===== *)
theory Main_App
  imports Net_Loop Channel Socket_Addr
begin

text \<open>
  The function \<open>main\<close> of \<open>rust/src/main.rs\<close> as a whole: the user interface and the network thread,
  joined by two channels. The cursive library calls the program back (a key, an edit, a submitted
  dialog), the main loop shows at most one message per frame, and the network thread runs round by
  round. These events interleave in any order: a run is a list of them. A panic of the main thread
  ends the process; a panic of the network thread ends that thread only.
\<close>

section \<open>State and events\<close>

text \<open>
  \<open>main_content\<close> is the text of the view with that id, \<open>dialogs\<close> the texts in the open bootstrap dialogs,
  the top one first; \<open>user_data\<close> tells whether the sender was stored with \<open>set_user_data\<close>. Of a thread that panicked \<open>thread\<close> keeps what it sent and showed.
\<close>

record app =
  user_data :: bool
  main_content :: rust_string
  dialogs :: "rust_string list"
  cmd_channel :: "net_command channel"
  msg_channel :: "rust_string channel"
  thread :: net_thread
  alive :: bool

datatype event =
    KeyB
  | Edit rust_string
  | Submit
  | Frame
  | Round net_round

definition first_text :: rust_string where
  "first_text = str_of ''Hello Dialog as das da sd asd as d asd!''"

definition app_start :: "(unit, unit) outcome \<Rightarrow> (unit, unit) outcome \<Rightarrow> u8 list \<Rightarrow> app" where
  "app_start bound nonblocking me =
     (let a = \<lparr>user_data = True, main_content = first_text, dialogs = [], cmd_channel = channel_new, msg_channel = channel_new,
               thread = net_start me, alive = True\<rparr> in
      case net_spawn bound nonblocking me of
        Ok th \<Rightarrow> a\<lparr>thread := th\<rparr>
      | _ \<Rightarrow> a\<lparr>cmd_channel := drop_receiver (cmd_channel a), alive := False\<rparr>)"

section \<open>The user interface\<close>

text \<open>The callback for the key \<open>b\<close> opens a dialog; editing its text is the library's part.\<close>

definition on_key_b :: "app \<Rightarrow> app" where
  "on_key_b a = a\<lparr>dialogs := BOOTSTRAP_NODE # dialogs a\<rparr>"

definition on_edit :: "rust_string \<Rightarrow> app \<Rightarrow> app" where
  "on_edit s a = (case dialogs a of [] \<Rightarrow> a | _ # ds \<Rightarrow> a\<lparr>dialogs := s # ds\<rparr>)"

text \<open>
  The callback \<open>on_submit\<close> takes the sender from the user data and unwraps it, parses the text,
  unwraps, sends the command and closes the dialog. The error of a \<open>send\<close> to a dead thread is dropped.
\<close>

definition on_submit :: "app \<Rightarrow> app panics" where
  "on_submit a =
     (case dialogs a of
        [] \<Rightarrow> Ok a
      | val # ds \<Rightarrow>
          and_then (unwrap (if user_data a then Ok () else Err ())) (\<lambda>_.
          and_then (unwrap (parse_socket_addr val)) (\<lambda>addr.
            Ok (a\<lparr>cmd_channel := send (Bootstrap addr) (cmd_channel a), dialogs := ds\<rparr>))))"

text \<open>The body of the main loop: a message is appended to the view.\<close>

definition message_line :: "rust_string \<Rightarrow> rust_string" where
  "message_line msg = [10] @ str_of ''==='' @ [10] @ msg"

definition frame :: "app \<Rightarrow> app" where
  "frame a =
     (case try_recv (msg_channel a) of
        (Some msg, ch) \<Rightarrow> a\<lparr>msg_channel := ch, main_content := main_content a @ message_line msg\<rparr>
      | (None, _) \<Rightarrow> a)"

section \<open>The network thread\<close>

text \<open>
  One round of the thread takes its command from the channel and sends its messages into the
  other. \<open>shown\<close> lists all messages of the thread; those added in the round are sent.
\<close>

definition new_messages :: "net_thread \<Rightarrow> net_thread \<Rightarrow> rust_string list" where
  "new_messages th th' = drop (length (shown th)) (shown th')"

definition thread_round :: "net_round \<Rightarrow> app \<Rightarrow> app" where
  "thread_round r a =
     (if \<not> alive a then a else
      let (cmd, ch) = try_recv (cmd_channel a);
          r = r\<lparr>command := cmd\<rparr>;
          th = run_command r (thread a)
      in case receive r th of
           Ok th' \<Rightarrow>
             a\<lparr>cmd_channel := ch, thread := th',
               msg_channel := fold send (new_messages (thread a) th') (msg_channel a)\<rparr>
         | _ \<Rightarrow>
             a\<lparr>cmd_channel := drop_receiver ch, thread := th, alive := False,
               msg_channel := fold send (new_messages (thread a) th) (msg_channel a)\<rparr>)"

fun app_step :: "event \<Rightarrow> app \<Rightarrow> app panics" where
  "app_step KeyB a = Ok (on_key_b a)"
| "app_step (Edit s) a = Ok (on_edit s a)"
| "app_step Submit a = on_submit a"
| "app_step Frame a = Ok (frame a)"
| "app_step (Round r) a = Ok (thread_round r a)"

fun app_run :: "event list \<Rightarrow> app \<Rightarrow> app panics" where
  "app_run [] a = Ok a"
| "app_run (e # es) a = and_then (app_step e a) (app_run es)"

lemma app_run_append: "app_run (es @ es') a = and_then (app_run es a) (app_run es')"
proof (induction es arbitrary: a)
  case Nil
  show ?case by simp
next
  case (Cons e es)
  then show ?case by (cases "app_step e a") simp_all
qed

section \<open>What is submitted\<close>

text \<open>The texts in the dialogs after an event, and the text that an event submits.\<close>

fun dialogs_after :: "event \<Rightarrow> rust_string list \<Rightarrow> rust_string list" where
  "dialogs_after KeyB ds = BOOTSTRAP_NODE # ds"
| "dialogs_after (Edit s) ds = (case ds of [] \<Rightarrow> [] | _ # ds' \<Rightarrow> s # ds')"
| "dialogs_after Submit ds = tl ds"
| "dialogs_after _ ds = ds"

fun submitted :: "event \<Rightarrow> rust_string list \<Rightarrow> rust_string list" where
  "submitted Submit ds = take 1 ds"
| "submitted _ ds = []"

fun submissions :: "rust_string list \<Rightarrow> event list \<Rightarrow> rust_string list" where
  "submissions ds [] = []"
| "submissions ds (e # es) = submitted e ds @ submissions (dialogs_after e ds) es"

lemma thread_round_dialogs [simp]: "dialogs (thread_round r a) = dialogs a"
  by (simp add: thread_round_def Let_def split: prod.split outcome.split)

lemma app_step_dialogs: "app_step e a = Ok a' \<Longrightarrow> dialogs a' = dialogs_after e (dialogs a)"
  by (cases e) (auto simp: on_key_b_def on_edit_def on_submit_def frame_def and_then_eq_Ok_iff
      split: list.splits option.splits prod.splits)

lemma thread_round_user_data [simp]: "user_data (thread_round r a) = user_data a"
  by (simp add: thread_round_def Let_def split: prod.split outcome.split)

lemma app_step_user_data: "app_step e a = Ok a' \<Longrightarrow> user_data a' = user_data a"
  by (cases e) (auto simp: on_key_b_def on_edit_def on_submit_def frame_def and_then_eq_Ok_iff
      split: list.splits option.splits prod.splits)

lemma app_run_dialogs: "app_run es a = Ok a' \<Longrightarrow> dialogs a' = fold dialogs_after es (dialogs a)"
  by (induction es arbitrary: a) (auto simp: and_then_eq_Ok_iff dest: app_step_dialogs)

lemma app_step_crashes:
  "user_data a \<Longrightarrow> crashes (app_step e a) \<longleftrightarrow> Err () \<in> parse_socket_addr ` set (submitted e (dialogs a))"
  by (cases e; cases "dialogs a"; cases "parse_socket_addr (hd (dialogs a))" rule: outcome.exhaust)
    (auto simp: on_submit_def parse_socket_addr_not_crash)

lemma app_step_not_Err: "app_step e a \<noteq> Err u"
  by (cases e; cases "dialogs a"; cases "parse_socket_addr (hd (dialogs a))" rule: outcome.exhaust)
    (auto simp: on_submit_def)

lemma app_run_not_Err: "app_run es a \<noteq> Err u"
proof (induction es arbitrary: a)
  case (Cons e es)
  then show ?case by (cases "app_step e a") (simp_all add: app_step_not_Err)
qed simp

lemma app_run_crashes:
  "user_data a \<Longrightarrow> crashes (app_run es a) \<longleftrightarrow> Err () \<in> parse_socket_addr ` set (submissions (dialogs a) es)"
proof (induction es arbitrary: a)
  case Nil
  show ?case by simp
next
  case (Cons e es)
  show ?case
  proof (cases "app_step e a")
    case (Ok a')
    then have "Err () \<notin> parse_socket_addr ` set (submitted e (dialogs a))"
      using app_step_crashes [of a e] Cons.prems by simp
    with Ok Cons.IH [of a'] Cons.prems app_step_dialogs [OF Ok] app_step_user_data [OF Ok] show ?thesis
      by (simp add: image_Un)
  next
    case (Crash p)
    then show ?thesis using app_step_crashes [of a e] Cons.prems by (simp add: image_Un)
  qed (simp add: app_step_not_Err)
qed

section \<open>The network thread in the application\<close>

definition wf_app :: "app \<Rightarrow> bool" where
  "wf_app a \<longleftrightarrow> user_data a \<and> wf_thread (thread a) \<and> receiver_alive (msg_channel a) \<and>
     (receiver_alive (cmd_channel a) \<longleftrightarrow> alive a) \<and> (alive a \<or> queue (cmd_channel a) = [])"

text \<open>What a round adds to the messages and the datagrams of the thread.\<close>

lemma shown_run_command: "\<exists>ls. shown (run_command r th) = shown th @ ls"
  by (simp add: run_command_def show_line_def Let_def split: option.split net_command.split)

lemma shown_receive: "receive r th = Ok th' \<Longrightarrow> \<exists>ls. shown th' = shown th @ ls"
  by (auto simp: receive_def and_then_eq_Ok_iff show_line_def split: option.splits prod.splits)

lemma new_messages_run_command:
  "shown (run_command r th) = shown th @ new_messages th (run_command r th)"
  using shown_run_command [of r th] by (auto simp: new_messages_def)

lemma new_messages_receive:
  "receive r (run_command r th) = Ok th' \<Longrightarrow> shown th' = shown th @ new_messages th th'"
  using shown_run_command [of r th] shown_receive [of r "run_command r th" th']
  by (auto simp: new_messages_def)

text \<open>The command of a round is the oldest one in the channel.\<close>

definition with_command :: "net_round \<Rightarrow> app \<Rightarrow> net_round" where
  "with_command r a = r\<lparr>command := fst (try_recv (cmd_channel a))\<rparr>"

lemma decodable_with_command [simp]: "decodable (with_command r a) = decodable r"
  by (simp add: with_command_def decodable_def)

lemma thread_round_dead [simp]: "\<not> alive a \<Longrightarrow> thread_round r a = a"
  by (simp add: thread_round_def)

lemma thread_round_alive:
  assumes "wf_app a" "alive a"
  obtains (goes_on) th' where "decodable r" "net_step (with_command r a) (thread a) = Ok th'"
      "wf_thread th'" "info th' = info (thread a)"
      "sent th' = sent (run_command (with_command r a) (thread a))"
      "shown th' = shown (thread a) @ new_messages (thread a) th'"
      "thread_round r a = a\<lparr>cmd_channel := snd (try_recv (cmd_channel a)), thread := th',
        msg_channel := fold send (new_messages (thread a) th') (msg_channel a)\<rparr>"
    | (panics) th' where "\<not> decodable r" "net_step (with_command r a) (thread a) = Crash UnwrapFailed"
      "th' = run_command (with_command r a) (thread a)"
      "shown th' = shown (thread a) @ new_messages (thread a) th'"
      "thread_round r a = a\<lparr>cmd_channel := drop_receiver (snd (try_recv (cmd_channel a))),
        thread := th', alive := False,
        msg_channel := fold send (new_messages (thread a) th') (msg_channel a)\<rparr>"
proof (cases "decodable r")
  case True
  then obtain th' where th': "net_step (with_command r a) (thread a) = Ok th'" "wf_thread th'"
    "info th' = info (thread a)" "sent th' = sent (run_command (with_command r a) (thread a))"
    using net_step_cases [of "thread a" "with_command r a"] assms(1) by (auto simp: wf_app_def)
  moreover from th'(1) have "thread_round r a = a\<lparr>cmd_channel := snd (try_recv (cmd_channel a)),
      thread := th', msg_channel := fold send (new_messages (thread a) th') (msg_channel a)\<rparr>"
    using assms(2) by (simp add: thread_round_def with_command_def net_step_def case_prod_beta Let_def)
  moreover have "shown th' = shown (thread a) @ new_messages (thread a) th'"
    using th'(1) unfolding net_step_def by (rule new_messages_receive)
  ultimately show thesis using True goes_on by blast
next
  case False
  then have step: "net_step (with_command r a) (thread a) = Crash UnwrapFailed"
    using net_step_cases [of "thread a" "with_command r a"] assms(1) by (auto simp: wf_app_def)
  then have "thread_round r a = a\<lparr>cmd_channel := drop_receiver (snd (try_recv (cmd_channel a))),
        thread := run_command (with_command r a) (thread a), alive := False,
        msg_channel := fold send (new_messages (thread a)
          (run_command (with_command r a) (thread a))) (msg_channel a)\<rparr>"
    using assms(2) by (simp add: thread_round_def with_command_def net_step_def case_prod_beta Let_def)
  with False step new_messages_run_command show thesis using panics by blast
qed

lemma wf_app_thread_round:
  assumes "wf_app a"
  shows "wf_app (thread_round r a)"
proof (cases "alive a")
  case True
  from assms True show ?thesis
    by (cases rule: thread_round_alive [where r = r])
      (use assms True in \<open>auto simp: wf_app_def wf_thread_def run_command_keeps\<close>)
qed (use assms in simp)

lemma wf_app_step: "app_step e a = Ok a' \<Longrightarrow> wf_app a \<Longrightarrow> wf_app a'"
proof (cases e)
  case (Round r)
  then show "app_step e a = Ok a' \<Longrightarrow> wf_app a \<Longrightarrow> wf_app a'"
    using wf_app_thread_round by auto
qed (auto simp: on_key_b_def on_edit_def on_submit_def frame_def wf_app_def and_then_eq_Ok_iff
    try_recv_def split: list.splits option.splits prod.splits)

lemma other_step_thread: "app_step e a = Ok a' \<Longrightarrow> (\<And>r. e \<noteq> Round r) \<Longrightarrow> thread a' = thread a"
  by (cases e) (auto simp: on_key_b_def on_edit_def on_submit_def frame_def and_then_eq_Ok_iff
      split: list.splits option.splits prod.splits)

lemma info_thread_round:
  assumes "wf_app a"
  shows "info (thread (thread_round r a)) = info (thread a)"
proof (cases "alive a")
  case True
  from assms True show ?thesis
    by (cases rule: thread_round_alive [where r = r]) (simp_all add: run_command_keeps)
qed simp

lemma info_run:
  "app_run es a = Ok a' \<Longrightarrow> wf_app a \<Longrightarrow> info (thread a') = info (thread a)"
proof (induction es arbitrary: a)
  case Nil
  then show ?case by simp
next
  case (Cons e es)
  then obtain a1 where a1: "app_step e a = Ok a1" "app_run es a1 = Ok a'"
    by (auto simp: and_then_eq_Ok_iff)
  have "info (thread a1) = info (thread a)"
  proof (cases "\<exists>r. e = Round r")
    case True
    then show ?thesis using a1(1) info_thread_round [OF Cons.prems(2)] by auto
  next
    case False
    then show ?thesis using other_step_thread [OF a1(1)] by auto
  qed
  with Cons.IH [OF a1(2) wf_app_step [OF a1(1) Cons.prems(2)]] show ?case by simp
qed

end
