(* ===== verification/Main_Runs.thy ===== *)
theory Main_Runs
  imports Main_App
begin

text \<open>
  Runs of the whole program: what reaches the screen, which datagrams are sent for the texts that
  the user submits, what is left when the network thread has panicked, and that everything under
  way is delivered.
\<close>

section \<open>The messages on the screen\<close>

text \<open>The view shows the messages of the thread in their order, up to those in the channel.\<close>

definition on_screen :: "app \<Rightarrow> rust_string list \<Rightarrow> bool" where
  "on_screen a outs \<longleftrightarrow> main_content a = first_text @ concat (map message_line outs) \<and>
     mpsc.carries (shown (thread a)) outs (msg_channel a)"

lemma on_screen_thread_round:
  assumes "wf_app a" "on_screen a outs"
  shows "on_screen (thread_round r a) outs"
proof (cases "alive a")
  case True
  have *: "mpsc.carries (shown (thread a) @ ls) outs (fold send ls (msg_channel a))" for ls
    using mpsc.carries_put_list assms by (auto simp: on_screen_def wf_app_def)
  from assms(1) True show ?thesis
    by (cases rule: thread_round_alive [where r = r]) (use assms * in \<open>simp_all add: on_screen_def\<close>)
qed (use assms in simp)

lemma on_screen_frame:
  assumes "on_screen a outs"
  shows "on_screen (frame a) (outs @ take 1 (queue (msg_channel a)))"
  using assms mpsc.carries_get [of "shown (thread a)" outs "msg_channel a"]
  by (cases "queue (msg_channel a)") (auto simp: on_screen_def frame_def try_recv_def)

lemma on_screen_step:
  assumes "app_step e a = Ok a'" "wf_app a" "on_screen a outs"
  shows "\<exists>outs'. on_screen a' (outs @ outs')"
proof (cases e)
  case Frame
  with assms show ?thesis using on_screen_frame by auto
next
  case (Round r)
  with assms have "on_screen a' (outs @ [])" using on_screen_thread_round [of a outs r] by simp
  then show ?thesis by (rule exI)
next
  case KeyB
  with assms have "on_screen a' (outs @ [])" by (auto simp: on_screen_def on_key_b_def)
  then show ?thesis by (rule exI)
next
  case (Edit s)
  with assms have "on_screen a' (outs @ [])" by (auto simp: on_screen_def on_edit_def split: list.splits)
  then show ?thesis by (rule exI)
next
  case Submit
  with assms have "on_screen a' (outs @ [])"
    by (auto simp: on_screen_def on_submit_def and_then_eq_Ok_iff split: list.splits)
  then show ?thesis by (rule exI)
qed

lemma wf_app_run: "app_run es a = Ok a' \<Longrightarrow> wf_app a \<Longrightarrow> wf_app a'"
  by (induction es arbitrary: a) (auto simp: and_then_eq_Ok_iff dest: wf_app_step)

lemma on_screen_run:
  "app_run es a = Ok a' \<Longrightarrow> wf_app a \<Longrightarrow> on_screen a outs \<Longrightarrow> \<exists>outs'. on_screen a' (outs @ outs')"
proof (induction es arbitrary: a outs)
  case Nil
  then show ?case by (auto intro: exI [of _ "[]"])
next
  case (Cons e es)
  then obtain a1 where a1: "app_step e a = Ok a1" "app_run es a1 = Ok a'"
    by (auto simp: and_then_eq_Ok_iff)
  then obtain o1 where "on_screen a1 (outs @ o1)" using on_screen_step Cons.prems by blast
  with Cons.IH [OF a1(2) wf_app_step [OF a1(1)]] Cons.prems show ?case by fastforce
qed

section \<open>Commands and datagrams\<close>

primrec target_of :: "net_command \<Rightarrow> socket_addr_v4" where
  "target_of (Bootstrap addr) = addr"

text \<open>The addresses under way to the thread, and those that a list of texts denotes.\<close>

definition under_way :: "app \<Rightarrow> socket_addr_v4 list" where
  "under_way a = map target_of (queue (cmd_channel a))"

definition addresses_of :: "rust_string list \<Rightarrow> socket_addr_v4 list \<Rightarrow> bool" where
  "addresses_of texts addrs \<longleftrightarrow> map parse_socket_addr texts = map Ok addrs"

text \<open>
  The thread takes the addresses \<open>taken\<close> and sends datagrams to some of them, in order: to all of
  them when every \<open>send_to\<close> succeeds. A thread that panics leaves addresses behind.
\<close>

definition carried_out :: "bool \<Rightarrow> socket_addr_v4 list \<Rightarrow> app \<Rightarrow> app \<Rightarrow> bool" where
  "carried_out sends_ok addrs a a' \<longleftrightarrow>
     (\<exists>new taken rest. sent (thread a') = sent (thread a) @ new \<and>
       under_way a @ addrs = taken @ rest \<and> subseq (map snd new) taken \<and>
       (sends_ok \<longrightarrow> map snd new = taken) \<and> (alive a \<or> taken = []) \<and>
       (alive a' \<longrightarrow> alive a \<and> rest = under_way a'))"

fun sends_ok :: "event \<Rightarrow> bool" where
  "sends_ok (Round r) = send_ok r"
| "sends_ok _ = True"

lemma carried_out_round:
  assumes "wf_app a"
  shows "carried_out (send_ok r) [] a (thread_round r a)"
proof -
  let ?r = "with_command r a"
  let ?new = "requests (info (thread a)) [?r]"
  let ?taken = "take 1 (under_way a)"
  have sent: "sent (run_command ?r (thread a)) = sent (thread a) @ ?new" by (rule sent_run_command)
  have taken: "subseq (map snd ?new) ?taken" "send_ok r \<longrightarrow> map snd ?new = ?taken"
    by (auto simp: requests_def with_command_def under_way_def try_recv_def
        split: list.split net_command.split)
  have rest: "under_way a = ?taken @ map target_of (tl (queue (cmd_channel a)))"
    by (cases "queue (cmd_channel a)") (simp_all add: under_way_def)
  show ?thesis
  proof (cases "alive a")
    case True
    from assms True show ?thesis
    proof (cases rule: thread_round_alive [where r = r])
      case (goes_on th')
      with True sent taken rest show ?thesis
        unfolding carried_out_def
        by (intro exI [of _ ?new] exI [of _ ?taken] exI [of _ "map target_of (tl (queue (cmd_channel a)))"])
          (simp add: under_way_def)
    next
      case (panics th')
      with True sent taken rest show ?thesis
        unfolding carried_out_def
        by (intro exI [of _ ?new] exI [of _ ?taken] exI [of _ "map target_of (tl (queue (cmd_channel a)))"])
          simp
    qed
  next
    case False
    then have "under_way a = []" using assms by (simp add: wf_app_def under_way_def)
    with False show ?thesis by (auto simp: carried_out_def)
  qed
qed

lemma carried_out_step:
  assumes "app_step e a = Ok a'" "wf_app a"
  shows "\<exists>addrs. addresses_of (submitted e (dialogs a)) addrs \<and> carried_out (sends_ok e) addrs a a'"
proof (cases e)
  case (Round r)
  with assms carried_out_round [of a r] show ?thesis by (simp add: addresses_of_def)
next
  case Submit
  show ?thesis
  proof (cases "dialogs a")
    case Nil
    with Submit assms show ?thesis by (simp add: addresses_of_def on_submit_def carried_out_def)
  next
    case (Cons val ds)
    with Submit assms obtain addr where "parse_socket_addr val = Ok addr"
      "a' = a\<lparr>cmd_channel := send (Bootstrap addr) (cmd_channel a), dialogs := ds\<rparr>"
      by (auto simp: on_submit_def and_then_eq_Ok_iff unwrap_def split: outcome.splits)
    with Cons Submit assms(2) show ?thesis
      by (intro exI [of _ "[addr]"])
        (auto simp: addresses_of_def carried_out_def under_way_def wf_app_def)
  qed
next
  case Frame
  with assms show ?thesis
    by (auto simp: addresses_of_def carried_out_def under_way_def frame_def try_recv_def split: list.splits)
qed (use assms in \<open>auto simp: addresses_of_def carried_out_def under_way_def on_key_b_def on_edit_def
    split: list.splits\<close>)

lemma carried_out_refl: "carried_out s [] a a"
  unfolding carried_out_def by (intro exI [of _ "[]"] exI [of _ "under_way a"]) simp

lemma carried_out_trans:
  assumes "carried_out s1 addrs1 a b" "carried_out s2 addrs2 b c"
  shows "carried_out (s1 \<and> s2) (addrs1 @ addrs2) a c"
proof -
  obtain n1 t1 r1 where 1: "sent (thread b) = sent (thread a) @ n1"
    "under_way a @ addrs1 = t1 @ r1" "subseq (map snd n1) t1" "s1 \<longrightarrow> map snd n1 = t1"
    "alive a \<or> t1 = []" "alive b \<longrightarrow> alive a \<and> r1 = under_way b"
    using assms(1) by (auto simp: carried_out_def)
  obtain n2 t2 r2 where 2: "sent (thread c) = sent (thread b) @ n2"
    "under_way b @ addrs2 = t2 @ r2" "subseq (map snd n2) t2" "s2 \<longrightarrow> map snd n2 = t2"
    "alive b \<or> t2 = []" "alive c \<longrightarrow> alive b \<and> r2 = under_way c"
    using assms(2) by (auto simp: carried_out_def)
  have sub: "subseq (map snd (n1 @ n2)) (t1 @ t2)" using 1(3) 2(3) by (simp add: list_emb_append_mono)
  show ?thesis
  proof (cases "alive b")
    case True
    with 1 2 have "under_way a @ addrs1 @ addrs2 = (t1 @ t2) @ r2"
      by (metis append.assoc)
    with True 1 2 sub show ?thesis
      unfolding carried_out_def by (intro exI [of _ "n1 @ n2"] exI [of _ "t1 @ t2"] exI [of _ r2]) simp
  next
    case False
    with 2 have "t2 = []" by simp
    with 1 have "under_way a @ addrs1 @ addrs2 = (t1 @ t2) @ r1 @ addrs2"
      by (metis append.assoc append_Nil2)
    with False \<open>t2 = []\<close> 1 2 sub show ?thesis
      unfolding carried_out_def
      by (intro exI [of _ "n1 @ n2"] exI [of _ "t1 @ t2"] exI [of _ "r1 @ addrs2"]) auto
  qed
qed

lemma carried_out_run:
  "app_run es a = Ok a' \<Longrightarrow> wf_app a \<Longrightarrow>
    \<exists>addrs. addresses_of (submissions (dialogs a) es) addrs \<and>
      carried_out (list_all sends_ok es) addrs a a'"
proof (induction es arbitrary: a)
  case Nil
  then show ?case by (auto simp: addresses_of_def intro: carried_out_refl)
next
  case (Cons e es)
  then obtain a1 where a1: "app_step e a = Ok a1" "app_run es a1 = Ok a'"
    by (auto simp: and_then_eq_Ok_iff)
  obtain addrs1 where 1: "addresses_of (submitted e (dialogs a)) addrs1"
    "carried_out (sends_ok e) addrs1 a a1" using carried_out_step [OF a1(1) Cons.prems(2)] by blast
  obtain addrs2 where 2: "addresses_of (submissions (dialogs a1) es) addrs2"
    "carried_out (list_all sends_ok es) addrs2 a1 a'"
    using Cons.IH [OF a1(2) wf_app_step [OF a1(1) Cons.prems(2)]] by blast
  have "addresses_of (submissions (dialogs a) (e # es)) (addrs1 @ addrs2)"
    using 1(1) 2(1) app_step_dialogs [OF a1(1)] by (simp add: addresses_of_def)
  with carried_out_trans [OF 1(2) 2(2)] show ?case by auto
qed

section \<open>The start and the end of the thread\<close>

lemma app_start_simps:
  "app_start (Ok ()) (Ok ()) me =
     \<lparr>user_data = True, main_content = first_text, dialogs = [], cmd_channel = channel_new, msg_channel = channel_new,
      thread = net_start me, alive = True\<rparr>"
  by (simp add: app_start_def net_spawn_def)

lemma app_start_dialogs [simp]: "dialogs (app_start b n me) = []"
  by (simp add: app_start_def Let_def split: outcome.split)

lemma app_start_user_data [simp]: "user_data (app_start b n me)"
  by (simp add: app_start_def Let_def split: outcome.split)

lemma wf_app_start: "wf_id me \<Longrightarrow> wf_app (app_start b n me)"
  by (auto simp: app_start_def wf_app_def wf_net_start net_spawn_def unwrap_def split: outcome.split)

lemma on_screen_start: "on_screen (app_start b n me) []"
  by (auto simp: app_start_def on_screen_def mpsc.carries_def net_spawn_def net_start_def unwrap_def
      split: outcome.split)

lemma dead_step:
  assumes "app_step e a = Ok a'" "wf_app a" "\<not> alive a"
  shows "thread a' = thread a \<and> \<not> alive a' \<and> queue (cmd_channel a') = []"
  using assms
  by (cases e) (auto simp: wf_app_def on_key_b_def on_edit_def on_submit_def frame_def and_then_eq_Ok_iff
      split: list.splits option.splits prod.splits)

lemma dead_run:
  "app_run es a = Ok a' \<Longrightarrow> wf_app a \<Longrightarrow> \<not> alive a \<Longrightarrow>
    thread a' = thread a \<and> \<not> alive a' \<and> queue (cmd_channel a') = []"
proof (induction es arbitrary: a)
  case Nil
  then show ?case by (simp add: wf_app_def)
next
  case (Cons e es)
  then obtain a1 where "app_step e a = Ok a1" "app_run es a1 = Ok a'"
    by (auto simp: and_then_eq_Ok_iff)
  with Cons dead_step [of e a a1] wf_app_step [of e a a1] show ?case by metis
qed

section \<open>Delivery\<close>

text \<open>Quiet rounds empty the command channel, frames the message channel.\<close>

lemma quiet_decodable [simp]: "decodable quiet_round" "send_ok quiet_round"
  by (simp_all add: decodable_def quiet_round_def)

lemma quiet_round_step:
  assumes "wf_app a" "alive a"
  shows "alive (thread_round quiet_round a)"
    "under_way (thread_round quiet_round a) = tl (under_way a)"
    "main_content (thread_round quiet_round a) = main_content a"
  using assms
  by (cases rule: thread_round_alive [where r = quiet_round]; simp add: under_way_def map_tl)+

lemma quiet_rounds:
  assumes "wf_app a" "alive a"
  shows "\<exists>a'. app_run (replicate (length (under_way a)) (Round quiet_round)) a = Ok a' \<and> wf_app a' \<and>
    alive a' \<and> under_way a' = []"
  using assms
proof (induction "under_way a" arbitrary: a)
  case Nil
  then show ?case by (intro exI [of _ a]) simp
next
  case (Cons x xs)
  then have "xs = under_way (thread_round quiet_round a)"
    using quiet_round_step by (metis list.sel(3))
  moreover have "wf_app (thread_round quiet_round a)" "alive (thread_round quiet_round a)"
    using Cons.prems quiet_round_step wf_app_thread_round by blast+
  ultimately show ?case using Cons.hyps(1) by (simp flip: Cons.hyps(2))
qed

lemma frames:
  "\<exists>a'. app_run (replicate (length (queue (msg_channel a))) Frame) a = Ok a' \<and>
    queue (msg_channel a') = [] \<and> thread a' = thread a \<and> alive a' = alive a \<and>
    cmd_channel a' = cmd_channel a"
proof (induction "queue (msg_channel a)" arbitrary: a)
  case Nil
  then show ?case by (intro exI [of _ a]) simp
next
  case (Cons x xs)
  then have "xs = queue (msg_channel (frame a))" "thread (frame a) = thread a"
    "alive (frame a) = alive a" "cmd_channel (frame a) = cmd_channel a"
    by (auto simp: frame_def try_recv_def split: list.splits)
  with Cons.hyps(1) [of "frame a"] show ?case by (simp flip: Cons.hyps(2))
qed

lemma quiet_delivery:
  assumes "wf_app a" "alive a" "on_screen a outs"
  shows "\<exists>m a'. app_run (replicate (length (under_way a)) (Round quiet_round) @ replicate m Frame) a = Ok a' \<and>
    alive a' \<and> main_content a' = first_text @ concat (map message_line (shown (thread a'))) \<and>
    map snd (sent (thread a')) = map snd (sent (thread a)) @ under_way a"
proof -
  let ?rounds = "replicate (length (under_way a)) (Round quiet_round)"
  obtain a1 where a1: "app_run ?rounds a = Ok a1" "wf_app a1" "alive a1" "under_way a1 = []"
    using quiet_rounds [OF assms(1,2)] by blast
  obtain a2 where a2: "app_run (replicate (length (queue (msg_channel a1))) Frame) a1 = Ok a2"
    "queue (msg_channel a2) = []" "thread a2 = thread a1" "alive a2 = alive a1"
    "cmd_channel a2 = cmd_channel a1"
    using frames by blast
  have run: "app_run (?rounds @ replicate (length (queue (msg_channel a1))) Frame) a = Ok a2"
    using a1(1) a2(1) by (simp add: app_run_append)
  obtain outs' where "on_screen a2 (outs @ outs')" using on_screen_run [OF run assms(1,3)] by blast
  then have shown: "main_content a2 = first_text @ concat (map message_line (shown (thread a2)))"
    using a2(2) by (simp add: on_screen_def mpsc.carries_def)
  have "list_all sends_ok ?rounds" by (simp add: list_all_iff)
  moreover have "submissions ds (replicate k (Round quiet_round)) = []" for ds k
    by (induction k) simp_all
  ultimately have "carried_out True [] a a1"
    using carried_out_run [OF a1(1) assms(1)] by (auto simp: addresses_of_def)
  then have "map snd (sent (thread a1)) = map snd (sent (thread a)) @ under_way a"
    using a1(3,4) by (auto simp: carried_out_def)
  with run shown a1(3) a2(3,4) show ?thesis by metis
qed

section \<open>Rounds of the thread\<close>

fun rounds :: "event list \<Rightarrow> net_round list" where
  "rounds [] = []"
| "rounds (Round r # es) = r # rounds es"
| "rounds (_ # es) = rounds es"

definition commanded :: "net_round list \<Rightarrow> net_command option list \<Rightarrow> net_round list" where
  "commanded rs cs = map2 (\<lambda>r c. r\<lparr>command := c\<rparr>) rs cs"

text \<open>
  The rounds \<open>rs\<close> of the thread alone do what the program does from \<open>a\<close> to \<open>a'\<close>: the commands \<open>cs\<close>
  that they are given are those waiting and submitted, less those still waiting.
\<close>

definition mirrored :: "net_round list \<Rightarrow> socket_addr_v4 list \<Rightarrow> app \<Rightarrow> app \<Rightarrow> bool" where
  "mirrored rs addrs a a' \<longleftrightarrow>
     (\<exists>cs. length cs = length rs \<and> net_run (commanded rs cs) (thread a) = Ok (thread a') \<and>
       queue (cmd_channel a) @ map Bootstrap addrs = [c. Some c \<leftarrow> cs] @ queue (cmd_channel a'))"

lemma alive_before: "app_step e a = Ok a' \<Longrightarrow> wf_app a \<Longrightarrow> alive a' \<Longrightarrow> alive a"
  using dead_step by blast

lemma mirrored_round:
  assumes "wf_app a" "alive (thread_round r a)"
  shows "mirrored [r] [] a (thread_round r a)"
proof -
  have "alive a" using assms by (cases "alive a") simp_all
  from assms(1) this show ?thesis
  proof (cases rule: thread_round_alive [where r = r])
    case (goes_on th')
    moreover have "with_command r a = r\<lparr>command := command (with_command r a)\<rparr>"
      by (simp add: with_command_def)
    moreover have "queue (cmd_channel a) = [c. Some c \<leftarrow> [command (with_command r a)]] @ tl (queue (cmd_channel a))"
      by (simp add: with_command_def split: list.split)
    ultimately show ?thesis
      unfolding mirrored_def commanded_def
      by (intro exI [of _ "[command (with_command r a)]"]) simp
  qed (use assms(2) in simp)
qed

lemma mirrored_step:
  assumes "app_step e a = Ok a'" "wf_app a" "alive a'"
  shows "\<exists>addrs. addresses_of (submitted e (dialogs a)) addrs \<and> mirrored (rounds [e]) addrs a a'"
proof (cases e)
  case (Round r)
  with assms mirrored_round [of a r] show ?thesis by (simp add: addresses_of_def)
next
  case Submit
  show ?thesis
  proof (cases "dialogs a")
    case Nil
    with Submit assms show ?thesis
      by (simp add: addresses_of_def on_submit_def mirrored_def commanded_def)
  next
    case (Cons val ds)
    with Submit assms obtain addr where "parse_socket_addr val = Ok addr"
      "a' = a\<lparr>cmd_channel := send (Bootstrap addr) (cmd_channel a), dialogs := ds\<rparr>"
      by (auto simp: on_submit_def and_then_eq_Ok_iff unwrap_def split: outcome.splits)
    with Cons Submit assms(2,3) show ?thesis
      by (intro exI [of _ "[addr]"])
        (auto simp: addresses_of_def mirrored_def commanded_def wf_app_def)
  qed
next
  case Frame
  with assms show ?thesis
    by (auto simp: addresses_of_def mirrored_def commanded_def frame_def try_recv_def split: list.splits)
qed (use assms in \<open>auto simp: addresses_of_def mirrored_def commanded_def on_key_b_def on_edit_def
    split: list.splits\<close>)

lemma net_run_append: "net_run (rs @ rs') th = and_then (net_run rs th) (net_run rs')"
proof (induction rs arbitrary: th)
  case Nil
  show ?case by simp
next
  case (Cons r rs)
  then show ?case by (cases "net_step r th") simp_all
qed

lemma mirrored_trans:
  assumes "mirrored rs1 addrs1 a b" "mirrored rs2 addrs2 b c"
  shows "mirrored (rs1 @ rs2) (addrs1 @ addrs2) a c"
proof -
  obtain c1 where 1: "length c1 = length rs1" "net_run (commanded rs1 c1) (thread a) = Ok (thread b)"
    "queue (cmd_channel a) @ map Bootstrap addrs1 = [c. Some c \<leftarrow> c1] @ queue (cmd_channel b)"
    using assms(1) by (auto simp: mirrored_def)
  obtain c2 where 2: "length c2 = length rs2" "net_run (commanded rs2 c2) (thread b) = Ok (thread c)"
    "queue (cmd_channel b) @ map Bootstrap addrs2 = [c. Some c \<leftarrow> c2] @ queue (cmd_channel c)"
    using assms(2) by (auto simp: mirrored_def)
  have "net_run (commanded (rs1 @ rs2) (c1 @ c2)) (thread a) = Ok (thread c)"
    using 1(1,2) 2(2) by (simp add: commanded_def net_run_append)
  moreover have "queue (cmd_channel a) @ map Bootstrap (addrs1 @ addrs2) =
      [c. Some c \<leftarrow> c1 @ c2] @ queue (cmd_channel c)"
    using 1(3) 2(3) by (metis append.assoc concat_append map_append)
  ultimately show ?thesis
    using 1(1) 2(1) unfolding mirrored_def by (intro exI [of _ "c1 @ c2"]) simp
qed

lemma rounds_Cons: "rounds (e # es) = rounds [e] @ rounds es"
  by (cases e) simp_all

lemma mirrored_run:
  "app_run es a = Ok a' \<Longrightarrow> wf_app a \<Longrightarrow> alive a' \<Longrightarrow>
    \<exists>addrs. addresses_of (submissions (dialogs a) es) addrs \<and> mirrored (rounds es) addrs a a'"
proof (induction es arbitrary: a)
  case Nil
  then show ?case by (simp add: mirrored_def commanded_def addresses_of_def)
next
  case (Cons e es)
  then obtain a1 where a1: "app_step e a = Ok a1" "app_run es a1 = Ok a'"
    by (auto simp: and_then_eq_Ok_iff)
  have wf: "wf_app a1" using wf_app_step [OF a1(1) Cons.prems(2)] .
  have "alive a1" using dead_run [OF a1(2) wf] Cons.prems(3) by blast
  then obtain addrs1 where 1: "addresses_of (submitted e (dialogs a)) addrs1"
    "mirrored (rounds [e]) addrs1 a a1" using mirrored_step [OF a1(1) Cons.prems(2)] by blast
  obtain addrs2 where 2: "addresses_of (submissions (dialogs a1) es) addrs2"
    "mirrored (rounds es) addrs2 a1 a'" using Cons.IH [OF a1(2) wf Cons.prems(3)] by blast
  have "addresses_of (submissions (dialogs a) (e # es)) (addrs1 @ addrs2)"
    using 1(1) 2(1) app_step_dialogs [OF a1(1)] by (simp add: addresses_of_def)
  with mirrored_trans [OF 1(2) 2(2)] show ?case by (subst rounds_Cons) auto
qed

text \<open>A user types an address and submits it.\<close>

definition typed :: "event list" where
  "typed = [KeyB, Edit (str_of ''127.0.0.1:6881''), Submit]"

definition loopback :: socket_addr_v4 where
  "loopback = \<lparr>ip = 0x7F000001, port = 6881\<rparr>"

definition typed_app :: app where
  "typed_app = (app_start (Ok ()) (Ok ()) (replicate 20 7))
     \<lparr>cmd_channel := \<lparr>queue = [Bootstrap loopback], receiver_alive = True\<rparr>\<rparr>"

lemma typed_run: "app_run typed (app_start (Ok ()) (Ok ()) (replicate 20 7)) = Ok typed_app"
  by (simp add: typed_def typed_app_def on_key_b_def on_edit_def on_submit_def app_start_simps
      loopback_address loopback_def send_def channel_new_def)

lemma typed_app_simps [simp]:
  "alive typed_app" "queue (cmd_channel typed_app) = [Bootstrap loopback]"
  "thread typed_app = net_start (replicate 20 7)"
  by (simp_all add: typed_app_def app_start_simps)

lemma example_id [simp]: "wf_id (replicate 20 7)"
  by (simp add: wf_id_def)

section \<open>Properties\<close>

text \<open>
  C9. The program ends with a panic exactly when a submitted text is not an address. The text that
  the dialog opens with is a host name: submitting it as it is panics, whatever happened before.
\<close>

theorem program_panics_iff:
  "(crashes (app_run es (app_start bound nonblocking me)) \<longleftrightarrow>
      Err () \<in> parse_socket_addr ` set (submissions [] es)) \<and>
   crashes (app_run (es @ [KeyB, Submit]) (app_start bound nonblocking me))"
proof -
  have "Err () \<in> parse_socket_addr ` set (submissions ds (es @ [KeyB, Submit]))" for ds
  proof (induction es arbitrary: ds)
    case Nil
    show ?case using bootstrap_node_no_address by simp
  next
    case (Cons e es)
    then show ?case by (simp add: image_Un)
  qed
  then show ?thesis by (simp add: app_run_crashes)
qed

text \<open>
  C13. At every moment the screen shows the messages of the network thread, in their order and none
  twice; those it does not show yet are exactly those in the channel.
\<close>

theorem messages_in_order:
  assumes "wf_id me" "app_run es (app_start bound nonblocking me) = Ok a"
  shows "\<exists>outs. main_content a = first_text @ concat (map message_line outs) \<and>
    shown (thread a) = outs @ queue (msg_channel a)"
  using on_screen_run [OF assms(2) wf_app_start [OF assms(1)] on_screen_start]
  by (simp add: on_screen_def mpsc.carries_def)

theorem messages_in_order_witness:
  "\<exists>a outs. app_run [Round quiet_round, Frame] (app_start (Ok ()) (Ok ()) (replicate 20 7)) = Ok a \<and>
    main_content a = first_text @ concat (map message_line outs) \<and> shown (thread a) = outs @ queue (msg_channel a)"
proof -
  obtain a where a: "app_run [Round quiet_round, Frame] (app_start (Ok ()) (Ok ()) (replicate 20 7)) = Ok a"
    by simp
  with messages_in_order [OF _ a] show ?thesis by (auto simp: wf_id_def)
qed

text \<open>
  C15. Datagrams go only to addresses that the user submitted, in the order of submission. While the
  network thread lives and \<open>send_to\<close> succeeds, every submitted address has been sent a datagram or
  is still in the channel.
\<close>

theorem commands_in_order:
  assumes "wf_id me" "app_run es (app_start bound nonblocking me) = Ok a"
  shows "\<exists>addrs. map parse_socket_addr (submissions [] es) = map Ok addrs \<and>
    subseq (map snd (sent (thread a))) addrs \<and>
    (alive a \<and> list_all sends_ok es \<longrightarrow>
      addrs = map snd (sent (thread a)) @ map target_of (queue (cmd_channel a)))"
proof -
  let ?a = "app_start bound nonblocking me"
  have start: "under_way ?a = []" "sent (thread ?a) = []"
    by (auto simp: app_start_def under_way_def net_spawn_def net_start_def unwrap_def split: outcome.split)
  obtain addrs where addrs: "addresses_of (submissions [] es) addrs"
    "carried_out (list_all sends_ok es) addrs ?a a"
    using carried_out_run [OF assms(2) wf_app_start [OF assms(1)]] by auto
  from addrs(2) obtain taken rest where "addrs = taken @ rest"
    "subseq (map snd (sent (thread a))) taken"
    "list_all sends_ok es \<longrightarrow> map snd (sent (thread a)) = taken" "alive a \<longrightarrow> rest = under_way a"
    using start by (auto simp: carried_out_def)
  moreover from this have "subseq (map snd (sent (thread a)) @ []) (taken @ rest)"
    by (intro list_emb_append_mono) simp_all
  ultimately show ?thesis
    using addrs(1) by (intro exI [of _ addrs]) (auto simp: addresses_of_def under_way_def)
qed

theorem commands_in_order_witness:
  "\<exists>addrs. map parse_socket_addr (submissions [] typed) = map Ok addrs \<and>
    addrs = map snd (sent (thread typed_app)) @ [loopback]"
  using commands_in_order [OF example_id typed_run] by (auto simp: typed_def)

text \<open>
  C10. While it lives, the network thread inside the program is in the state that it reaches on its
  own with the same datagrams and socket results, and with the submitted addresses as its commands,
  in order, less those still in the channel.
\<close>

theorem thread_runs_as_alone:
  assumes "wf_id me" "app_run es (app_start bound nonblocking me) = Ok a" "alive a"
  shows "\<exists>addrs cs. map parse_socket_addr (submissions [] es) = map Ok addrs \<and>
    length cs = length (rounds es) \<and>
    map Bootstrap addrs = [c. Some c \<leftarrow> cs] @ queue (cmd_channel a) \<and>
    net_run (map2 (\<lambda>r c. r\<lparr>command := c\<rparr>) (rounds es) cs) (net_start me) = Ok (thread a)"
proof -
  have "thread (app_start bound nonblocking me) = net_start me"
    "queue (cmd_channel (app_start bound nonblocking me)) = []"
    by (auto simp: app_start_def net_spawn_def unwrap_def split: outcome.split)
  with mirrored_run [OF assms(2) wf_app_start [OF assms(1)] assms(3)] show ?thesis
    unfolding addresses_of_def mirrored_def commanded_def by auto
qed

theorem thread_runs_as_alone_witness:
  "\<exists>addrs. map parse_socket_addr (submissions [] typed) = map Ok addrs \<and>
    map Bootstrap addrs = queue (cmd_channel typed_app) \<and> net_start (replicate 20 7) = thread typed_app"
  using thread_runs_as_alone [OF example_id typed_run typed_app_simps(1)]
  by (auto simp: typed_def)

text \<open>
  C11. A datagram that does not decode ends the network thread for good: the commands in the channel
  and all later ones are lost, and nothing more is sent or shown but what was under way. The user
  interface goes on and does not notice: whatever the user does then, only a text that is no address
  ends it, and otherwise every event is handled.
\<close>

theorem bad_datagram_silences:
  assumes "wf_id me" "app_run es (app_start bound nonblocking me) = Ok a" "alive a"
    and "datagram r = Some d" "\<And>v. decode (take 1024 d) \<noteq> Ok v"
  shows "if Err () \<in> parse_socket_addr ` set (submissions (dialogs a) es')
    then crashes (app_run (Round r # es') a)
    else \<exists>a'. app_run (Round r # es') a = Ok a' \<and> dialogs a' = fold dialogs_after es' (dialogs a) \<and>
      \<not> alive a' \<and> queue (cmd_channel a') = [] \<and>
      thread a' = run_command (r\<lparr>command := fst (try_recv (cmd_channel a))\<rparr>) (thread a)"
proof -
  let ?run = "app_run (Round r # es') a"
  have wf: "wf_app a" using wf_app_run [OF assms(2) wf_app_start [OF assms(1)]] .
  then have panics: "crashes ?run \<longleftrightarrow> Err () \<in> parse_socket_addr ` set (submissions (dialogs a) es')"
    using app_run_crashes [of a "Round r # es'"] by (simp add: wf_app_def)
  have bad: "\<not> decodable r"
    using assms(4,5) by (auto simp: decodable_def received_def split: outcome.split)
  from wf assms(3) have gone: "\<not> alive (thread_round r a) \<and>
      thread (thread_round r a) = run_command (with_command r a) (thread a)"
    by (cases rule: thread_round_alive [where r = r]) (use bad in simp_all)
  show ?thesis
  proof (cases ?run)
    case (Ok a')
    then have "app_run es' (thread_round r a) = Ok a'" by simp
    with gone panics Ok dead_run [of es' "thread_round r a" a'] wf_app_thread_round [OF wf]
      app_run_dialogs [OF Ok] show ?thesis
      by (simp add: with_command_def)
  next
    case (Crash p)
    with panics show ?thesis by simp
  next
    case (Err u)
    then show ?thesis using app_run_not_Err by blast
  qed
qed

theorem bad_datagram_silences_witness:
  "\<exists>a'. app_run (Round (quiet_round\<lparr>datagram := Some []\<rparr>) # typed) typed_app = Ok a' \<and>
    \<not> alive a' \<and> queue (cmd_channel a') = []"
proof -
  let ?r = "quiet_round\<lparr>datagram := Some []\<rparr>"
  have "decode [] = Err EndOfStream" by code_simp
  moreover have "Err () \<notin> parse_socket_addr ` set (submissions (dialogs typed_app) typed)"
    by (simp add: typed_def typed_app_def loopback_address)
  ultimately show ?thesis
    using bad_datagram_silences [OF example_id typed_run typed_app_simps(1), of ?r "[]" typed] by auto
qed

text \<open>
  C12. From every state of the program in which the network thread lives, quiet rounds and frames
  alone bring everything under way to its end: one round per waiting command, then enough frames to
  show all messages.
\<close>

theorem everything_delivered:
  assumes "wf_id me" "app_run es (app_start bound nonblocking me) = Ok a" "alive a"
  shows "\<exists>m a'. app_run (replicate (length (queue (cmd_channel a))) (Round quiet_round) @
      replicate m Frame) a = Ok a' \<and> alive a' \<and>
    main_content a' = first_text @ concat (map message_line (shown (thread a'))) \<and>
    map snd (sent (thread a')) = map snd (sent (thread a)) @ map target_of (queue (cmd_channel a))"
proof -
  have wf: "wf_app a" using wf_app_run [OF assms(2) wf_app_start [OF assms(1)]] .
  obtain outs where "on_screen a outs"
    using on_screen_run [OF assms(2) wf_app_start [OF assms(1)] on_screen_start] by auto
  from quiet_delivery [OF wf assms(3) this] show ?thesis by (simp add: under_way_def)
qed

theorem everything_delivered_witness:
  "\<exists>m a'. app_run (Round quiet_round # replicate m Frame) typed_app = Ok a' \<and>
    map snd (sent (thread a')) = [loopback]"
  using everything_delivered [OF example_id typed_run typed_app_simps(1)]
  by (elim ex_forward) (simp add: net_start_def)

text \<open>
  C14. The way of a bootstrap from the key to the network: the user opens a dialog, enters the text of
  an address and submits it; with nothing else waiting, the next round of the thread sends one
  \<open>find_node\<close> query for the node's own id to that address.
\<close>

theorem bootstrap_sends_query:
  assumes "wf_id me" "app_run es (app_start bound nonblocking me) = Ok a" "alive a"
    and "queue (cmd_channel a) = []" "parse_socket_addr text = Ok addr"
    and "send_ok r" "datagram r = None" "length (random_bytes r) = 2"
  shows "\<exists>a'. app_run [KeyB, Edit text, Submit, Round r] a = Ok a' \<and>
    sent (thread a') = sent (thread a) @ [(bytes ''d1:ad2:id20:'' @ me @ bytes ''6:target20:'' @ me @
      bytes ''e1:q9:find_node1:t2:'' @ random_bytes r @ bytes ''1:y1:qe'', addr)]"
proof -
  let ?e = "[KeyB, Edit text, Submit]"
  have wf: "wf_app a" using wf_app_run [OF assms(2) wf_app_start [OF assms(1)]] .
  have "info (thread (app_start bound nonblocking me)) = info (net_start me)"
    by (auto simp: app_start_def net_spawn_def unwrap_def split: outcome.split)
  then have info: "my_id (info (thread a)) = me" "client_version (info (thread a)) = None"
    using info_run [OF assms(2) wf_app_start [OF assms(1)]] by (simp_all add: net_start_def)
  define b where "b = a\<lparr>cmd_channel := send (Bootstrap addr) (cmd_channel a)\<rparr>"
  have run: "app_run ?e a = Ok b"
    using assms(5) wf by (simp add: b_def on_key_b_def on_edit_def on_submit_def wf_app_def)
  have wf_b: "wf_app b" using wf_app_run [OF run wf] .
  have cmd: "command (with_command r b) = Some (Bootstrap addr)"
    using assms(3,4) wf by (simp add: with_command_def b_def wf_app_def)
  have "sent (run_command (with_command r b) (thread a)) = sent (thread a) @
      [(encode (bootstrap_request (info (thread a)) (random_bytes r)), addr)]"
    using cmd assms(6) by (simp add: sent_run_command requests_def with_command_def)
  moreover have "sent (thread (thread_round r b)) = sent (run_command (with_command r b) (thread b))"
  proof -
    have "decodable r" using assms(7) by (simp add: decodable_def)
    have "alive b" using assms(3) by (simp add: b_def)
    from wf_b this show ?thesis
      by (cases rule: thread_round_alive [where r = r]) (use \<open>decodable r\<close> in simp_all)
  qed
  moreover have "app_run [KeyB, Edit text, Submit, Round r] a = Ok (thread_round r b)"
    using run app_run_append [of ?e "[Round r]" a] by simp
  ultimately show ?thesis
    using bootstrap_request_bytes [of "info (thread a)" "random_bytes r"] info assms(1,8)
    by (simp add: b_def)
qed

theorem bootstrap_sends_query_witness:
  "\<exists>a'. app_run (typed @ [Round quiet_round]) (app_start (Ok ()) (Ok ()) (replicate 20 7)) = Ok a' \<and>
    sent (thread a') = [(bytes ''d1:ad2:id20:'' @ replicate 20 7 @ bytes ''6:target20:'' @ replicate 20 7 @
      bytes ''e1:q9:find_node1:t2:'' @ [0, 0] @ bytes ''1:y1:qe'', loopback)]"
proof -
  have "app_run [] (app_start (Ok ()) (Ok ()) (replicate 20 7)) =
      Ok (app_start (Ok ()) (Ok ()) (replicate 20 7))" by simp
  from bootstrap_sends_query [OF example_id this, of _ loopback quiet_round] loopback_address
  show ?thesis
    by (simp add: typed_def loopback_def quiet_round_def app_start_simps net_start_def)
qed

end
