(* ===== verification/Go_Bencode.thy ===== *)
theory Go_Bencode
  imports Bencode_Local
begin

text \<open>
  The codec of the Go implementation, \<open>go/bencode.go\<close>. A \<open>scanner\<close> has the two fields of the Rust
  cursor, the input and the position, and is modelled by the same record. Bencoded values are those
  of the Rust enum; a Go map is the list of its bindings. A function that returns a value and an
  error yields \<open>Ok\<close> or \<open>Err\<close>: no caller looks at the value beside an error. \<open>Crash\<close> is a
  run-time panic. \<open>int\<close> is a 64-bit word: its arithmetic wraps.
\<close>

datatype go_error =
    ZeroDigits
  | OutOfRange
  | NoIntegerStart
  | NoIntegerEnd
  | NegativeLength
  | NoStringStart
  | NoListStart
  | NoDictStart
  | UnexpectedEnd
  | InList go_error
  | InDictKey go_error
  | InDictValue go_error

type_synonym scanner = cursor

type_synonym 'a scans = "('a \<times> scanner, go_error) outcome"

section \<open>The scanner\<close>

text \<open>\<open>None\<close> is the end of the input.\<close>

definition scan_peek :: "scanner \<Rightarrow> u8 option" where
  "scan_peek c = (if cur_position c \<ge> length (cur_data c) then None else Some (cur_data c ! cur_position c))"

definition scan_next :: "scanner \<Rightarrow> u8 option \<times> scanner" where
  "scan_next c =
     (if cur_position c \<ge> length (cur_data c) then (None, c)
      else (Some (cur_data c ! cur_position c), c\<lparr>cur_position := cur_position c + 1\<rparr>))"

definition accept_single :: "u8 list \<Rightarrow> scanner \<Rightarrow> u8 option \<times> scanner" where
  "accept_single accepted c =
     (case scan_peek c of
        None \<Rightarrow> (None, c)
      | Some b \<Rightarrow> if b \<notin> set accepted then (None, c) else (Some b, snd (scan_next c)))"

lemma moved_fields [simp]:
  "cur_position (moved c n) = cur_position c + n" "cur_data (moved c n) = cur_data c"
  by (simp_all add: moved_def)

lemma accept_single_eq:
  "accept_single accepted c =
    (case suffix c of
       [] \<Rightarrow> (None, c)
     | b # _ \<Rightarrow> if b \<in> set accepted then (Some b, moved c 1) else (None, c))"
proof (cases "suffix c")
  case Nil
  then show ?thesis by (simp add: accept_single_def scan_peek_def suffix_def)
next
  case (Cons b s)
  then have "cur_position c < length (cur_data c)" by (metis drop_all leI list.distinct(1) suffix_def)
  moreover from this have "cur_data c ! cur_position c = b"
    using Cons by (simp add: suffix_def hd_drop_conv_nth [symmetric])
  ultimately show ?thesis
    using Cons by (simp add: accept_single_def scan_peek_def scan_next_def moved_def)
qed

lemma accept_single_SomeD: "accept_single accepted c = (Some b, d) \<Longrightarrow> d = moved c 1 \<and> 0 < left c \<and> b \<in> set accepted"
  by (cases "suffix c") (auto simp: accept_single_eq simp flip: length_suffix split: if_splits)

text \<open>The loop of \<open>acceptMultiple\<close>, which counts, and the slice of what it went over.\<close>

function accept_loop :: "u8 list \<Rightarrow> nat \<Rightarrow> scanner \<Rightarrow> nat \<times> scanner" where
  "accept_loop accepted n c =
     (case accept_single accepted c of
        (Some _, c) \<Rightarrow> accept_loop accepted (n + 1) c
      | (None, c) \<Rightarrow> (n, c))"
  by pat_completeness auto
termination
  by (relation "measure (\<lambda>(_, _, c). left c)")
    (auto dest!: accept_single_SomeD sym [of "(_, _)" "accept_single _ _"])

declare accept_loop.simps [simp del]

definition accept_multiple :: "u8 list \<Rightarrow> scanner \<Rightarrow> u8 list \<times> scanner" where
  "accept_multiple accepted c =
     (let (n, c) = accept_loop accepted 0 c
      in (take n (drop (cur_position c - n) (cur_data c)), c))"

text \<open>
  \<open>acceptRun\<close> compares the sum of two \<open>int\<close>s, which may have wrapped to a negative number; the slice
  expression then panics.
\<close>

definition accept_run :: "i64 \<Rightarrow> scanner \<Rightarrow> u8 list scans" where
  "accept_run len c =
     (let end = (of_nat (cur_position c) + len) :: i64 in
      if sint end > int (length (cur_data c)) then Err UnexpectedEnd
      else if \<not> int (cur_position c) \<le> sint end then Crash IndexOutOfBounds
      else Ok (take (nat (sint end) - cur_position c) (drop (cur_position c) (cur_data c)),
               c\<lparr>cur_position := nat (sint end)\<rparr>))"

section \<open>Integers and strings\<close>

text \<open>\<open>strconv.Atoi\<close> on a string of digits.\<close>

definition atoi :: "u8 list \<Rightarrow> (i64, go_error) outcome" where
  "atoi ds = (if in_i64 (int (numeral_value ds)) then Ok (of_nat (numeral_value ds)) else Err OutOfRange)"

definition parse_integer :: "scanner \<Rightarrow> (i64, go_error) outcome \<times> scanner" where
  "parse_integer c =
     (let (b, c) = accept_single (bytes ''-+'') c;
          sign = (if b = Some (byte CHR ''-'') then - 1 else 1) :: i64;
          (chars, c) = accept_multiple (bytes ''0123456789'') c
      in if chars = [] then (Err ZeroDigits, c)
         else (and_then (atoi chars) (\<lambda>res. Ok (res * sign)), c))"

text \<open>\<open>decodeInteger\<close> looks at the error of \<open>parseInteger\<close> last.\<close>

definition go_decode_integer :: "scanner \<Rightarrow> bencode scans" where
  "go_decode_integer c =
     (case accept_single (bytes ''i'') c of
        (None, c) \<Rightarrow> Err NoIntegerStart
      | (Some _, c) \<Rightarrow>
          (let (result, c) = parse_integer c in
           case accept_single (bytes ''e'') c of
             (None, c) \<Rightarrow> Err NoIntegerEnd
           | (Some _, c) \<Rightarrow> and_then result (\<lambda>i. Ok (Integer i, c))))"

definition go_decode_string :: "scanner \<Rightarrow> u8 list scans" where
  "go_decode_string c =
     (case parse_integer c of (result, c) \<Rightarrow>
        and_then result (\<lambda>len.
          if sint len < 0 then Err NegativeLength
          else (case accept_single (bytes '':'') c of
                  (None, c) \<Rightarrow> Err NoStringStart
                | (Some _, c) \<Rightarrow> accept_run len c)))"

section \<open>Integers and strings, compared with the Rust decoder\<close>

lemma digit_set: "b \<in> set (bytes ''0123456789'') \<longleftrightarrow> is_ascii_digit b"
proof -
  have "set (bytes ''0123456789'') = {48, 49, 50, 51, 52, 53, 54, 55, 56, 57}"
    by (auto simp: bytes_def byte_def)
  moreover have "b \<in> {48, 49, 50, 51, 52, 53, 54, 55, 56, 57} \<longleftrightarrow> unat b \<in> {48..57}"
  proof -
    have "{48..57} = set [48, 49, 50, 51, 52, 53, 54, 55, 56, 57 :: nat]" by code_simp
    then have "unat b \<in> {48..57} \<longleftrightarrow> unat b \<in> {48, 49, 50, 51, 52, 53, 54, 55, 56, 57}" by simp
    then show ?thesis by (simp add: word_unat_eq_iff)
  qed
  ultimately show ?thesis by (simp add: is_ascii_digit_def byte_values word_le_nat_alt)
qed

lemma accept_loop_eq:
  "accept_loop accepted n c =
    (let k = length (takeWhile (\<lambda>b. b \<in> set accepted) (suffix c)) in (n + k, moved c k))"
proof (induction accepted n c rule: accept_loop.induct)
  case (1 accepted n c)
  show ?case
  proof (cases "suffix c")
    case Nil
    then show ?thesis by (simp add: accept_loop.simps [of accepted n c] accept_single_eq)
  next
    case (Cons b s)
    then have "suffix (moved c 1) = s" by simp
    with 1 [of "Some b" "moved c 1" b] Cons show ?thesis
      by (simp add: accept_loop.simps [of accepted n c] accept_single_eq Let_def)
  qed
qed

lemma accept_multiple_eq:
  "accept_multiple accepted c =
    (let s = takeWhile (\<lambda>b. b \<in> set accepted) (suffix c) in (s, moved c (length s)))"
proof -
  let ?k = "length (takeWhile (\<lambda>b. b \<in> set accepted) (suffix c))"
  have "take ?k (drop (cur_position (moved c ?k) - ?k) (cur_data (moved c ?k))) = take ?k (suffix c)"
    by (simp add: moved_def suffix_def)
  then show ?thesis
    by (simp add: accept_multiple_def accept_loop_eq Let_def flip: takeWhile_eq_take)
qed

text \<open>
  Where Rust reads a number, Go reads the same one at the same place or, for the smallest number
  only, fails: \<open>Atoi\<close> reads its digits without the sign.
\<close>

lemma in_i64_of_nat: "in_i64 (int n) \<Longrightarrow> sint (of_nat n :: i64) = int n"
  using sint_of_int_i64 [of "int n"] by simp

lemma parse_integer_eq:
  "parse_integer c =
    (let k = (case suffix c of b # _ \<Rightarrow> if b = byte CHR ''-'' \<or> b = byte CHR ''+'' then 1 else 0 | [] \<Rightarrow> 0);
         neg = (k = 1 \<and> hd (suffix c) = byte CHR ''-'');
         ds = takeWhile is_ascii_digit (drop k (suffix c))
     in (if ds = [] then Err ZeroDigits
         else if \<not> in_i64 (int (numeral_value ds)) then Err OutOfRange
         else Ok (word_of_int (with_sign neg (numeral_value ds))), moved c (k + length ds)))"
proof (cases "suffix c")
  case Nil
  then show ?thesis
    by (simp add: parse_integer_def accept_single_eq accept_multiple_eq)
next
  case (Cons b s)
  have signs: "b \<in> set (bytes ''-+'') \<longleftrightarrow> b = byte CHR ''-'' \<or> b = byte CHR ''+''"
    by (auto simp: bytes_def)
  have "suffix (moved c 1) = s" using Cons by simp
  with Cons show ?thesis
    by (auto simp: parse_integer_def accept_single_eq accept_multiple_eq digit_set signs atoi_def
        with_sign_def Let_def byte_values)
qed

lemma parse_integer_OkD:
  assumes "parse_integer c = (Ok i, d)"
  shows "\<exists>n. int_spec (suffix c) = Ok (i, n) \<and> d = moved c n \<and> n \<le> left c \<and> 0 < n"
proof (cases "suffix c")
  case Nil
  with assms show ?thesis by (simp add: parse_integer_eq)
next
  case (Cons b s)
  have fits: "in_i64 (with_sign neg m)" if "in_i64 (int m)" for neg m
    using that by (auto simp: in_i64_def with_sign_def)
  have len: "length (takeWhile is_ascii_digit s') \<le> length s'" for s' by (rule length_takeWhile_le)
  have "left c = Suc (length s)" using arg_cong [OF Cons, of length] by simp
  with assms Cons fits len [of s] len [of "b # s"] show ?thesis
    by (auto simp: parse_integer_eq int_spec_def unsigned_spec_def Let_def split: if_splits)
qed

lemma parse_integer_of_int_spec:
  assumes "int_spec (suffix c) = Ok (i, n)"
  shows "parse_integer c = (if sint i = - (2 ^ 63) then Err OutOfRange else Ok i, moved c n)"
proof -
  obtain b s where s: "suffix c = b # s" using assms by (cases "suffix c") (auto simp: int_spec_def)
  have "in_i64 (int m) \<longleftrightarrow> sint (word_of_int (with_sign neg m) :: i64) \<noteq> - (2 ^ 63)"
    if "in_i64 (with_sign neg m)" for neg m
    unfolding sint_of_int_i64 [OF that] using that by (auto simp: in_i64_def with_sign_def split: if_splits)
  note min = this
  let ?m = "\<lambda>s. numeral_value (takeWhile is_ascii_digit s)"
  consider "b = byte CHR ''-''" | "b = byte CHR ''+''" | "b \<noteq> byte CHR ''-''" "b \<noteq> byte CHR ''+''"
    by blast
  then show ?thesis
    by cases
      (use assms s min [of True "?m s"] min [of False "?m s"] min [of False "?m (b # s)"] in
        \<open>auto simp: parse_integer_eq int_spec_def unsigned_spec_def Let_def and_then_eq_Ok_iff
          byte_values split: if_splits\<close>)
qed

lemma sint_nonneg: "0 \<le> sint (i :: i64) \<Longrightarrow> sint i = int (unat i)"
proof -
  assume i: "0 \<le> sint i"
  have "uint i = uint (word_of_int (sint i) :: i64)" by simp
  also have "\<dots> = sint i mod 2 ^ 64" by (simp only: uint_word_of_int) simp
  also have "\<dots> = sint i" using i in_i64_sint [of i] by (intro mod_pos_pos_trivial) (auto simp: in_i64_def)
  finally show ?thesis by simp
qed

lemma accept_run_eq:
  assumes "wf_cursor c" "0 \<le> sint len"
  shows "accept_run len c =
    (if 2 ^ 63 \<le> int (cur_position c) + sint len then Crash IndexOutOfBounds
     else if left c < unat len then Err UnexpectedEnd
     else Ok (take (unat len) (suffix c), moved c (unat len)))"
proof -
  have pos: "int (cur_position c) < 2 ^ 63" "cur_position c \<le> length (cur_data c)"
    using assms(1) by (auto simp: wf_cursor_def wf_bytes_def)
  have len: "sint len = int (unat len)" "int (unat len) < 2 ^ 63"
    using sint_nonneg [OF assms(2)] in_i64_sint [of len] by (simp_all only: in_i64_def)
  let ?x = "int (cur_position c) + int (unat len)"
  have "of_nat (cur_position c) + len = word_of_int ?x" by simp
  moreover have "sint (word_of_int ?x :: i64) = (if ?x < 2 ^ 63 then ?x else ?x - 2 ^ 64)"
  proof (cases "?x < 2 ^ 63")
    case True
    moreover have "0 \<le> ?x" by (rule add_nonneg_nonneg) (rule of_nat_0_le_iff)+
    ultimately have "in_i64 ?x" unfolding in_i64_def by linarith
    with True show ?thesis by (simp only: sint_of_int_i64) simp
  next
    case False
    have "word_of_int ?x = (word_of_int (?x - 2 ^ 64) :: i64)" by simp
    moreover have "in_i64 (?x - 2 ^ 64)" using False pos(1) len by (simp add: in_i64_def)
    ultimately show ?thesis using False by (simp only: sint_of_int_i64) simp
  qed
  ultimately have sum: "sint (of_nat (cur_position c) + len) = (if ?x < 2 ^ 63 then ?x else ?x - 2 ^ 64)"
    by (simp only:)
  show ?thesis
  proof (cases "?x < 2 ^ 63")
    case True
    then have "nat (sint (of_nat (cur_position c) + len)) = cur_position c + unat len"
      by (simp only: sum if_True nat_int flip: of_nat_add)
    with True sum pos(2) show ?thesis
      by (auto simp: accept_run_def Let_def len(1) suffix_def moved_def left_def)
  next
    case False
    with sum pos len show ?thesis by (auto simp: accept_run_def Let_def)
  qed
qed

lemma go_decode_string_OkE:
  assumes "go_decode_string c = Ok (v, d)"
  obtains len c1 c2 b where "parse_integer c = (Ok len, c1)" "0 \<le> sint len"
    "accept_single (bytes '':'') c1 = (Some b, c2)" "accept_run len c2 = Ok (v, d)"
proof -
  obtain res c1 where c1: "parse_integer c = (res, c1)" by (cases "parse_integer c")
  obtain b c2 where c2: "accept_single (bytes '':'') c1 = (b, c2)" by (cases "accept_single (bytes '':'') c1")
  from assms c1 c2 show thesis
    by (cases res; cases b) (auto simp: go_decode_string_def not_less split: if_splits intro!: that)
qed

lemma go_decode_string_OkD:
  assumes wf: "wf_cursor c" and ok: "go_decode_string c = Ok (v, d)"
  shows "decode_bytestring c = Ok (Bytes v, d)"
proof -
  obtain len c1 c2 b where run: "parse_integer c = (Ok len, c1)" "0 \<le> sint len"
    "accept_single (bytes '':'') c1 = (Some b, c2)" "accept_run len c2 = Ok (v, d)"
    by (rule go_decode_string_OkE [OF ok])
  obtain n where n: "int_spec (suffix c) = Ok (len, n)" "c1 = moved c n" "n \<le> left c"
    using parse_integer_OkD [OF run(1)] by auto
  obtain t where t: "drop n (suffix c) = byte CHR '':'' # t" "c2 = moved c (n + 1)"
    using run(3) by (auto simp: n(2) accept_single_eq bytes_def split: list.splits if_splits)
  have "length (drop n (suffix c)) = Suc (length t)" unfolding t(1) by simp
  then have left: "left c = n + 1 + length t" using n(3) by simp
  have "drop (n + 1) (suffix c) = t" using t(1) by (metis drop_Suc_Cons drop0 drop_drop plus_1_eq_Suc add.commute)
  moreover have "wf_cursor c2" using t(2) left wf by (simp add: wf_cursor_moved)
  ultimately have "\<not> length t < unat len" "v = take (unat len) t" "d = moved c (n + 1 + unat len)"
    using run(4) left unfolding accept_run_eq [OF \<open>wf_cursor c2\<close> run(2)] by (auto simp: t(2) split: if_splits)
  with n(1) t(1) show ?thesis by (simp add: decode_bytestring_eq [OF wf] bytestring_spec_def)
qed

lemma go_decode_string_of_rust:
  assumes wf: "wf_cursor c" and ok: "decode_bytestring c = Ok (Bytes v, d)"
  shows "go_decode_string c = Ok (v, d)"
proof -
  obtain len n t where n: "int_spec (suffix c) = Ok (len, n)" "drop n (suffix c) = byte CHR '':'' # t"
    "unat len \<le> length t" "v = take (unat len) t" "d = moved c (n + 1 + unat len)"
  proof -
    obtain len n where n: "int_spec (suffix c) = Ok (len, n)"
      using ok by (auto simp: decode_bytestring_eq [OF wf] bytestring_spec_def and_then_eq_Ok_iff)
    then show thesis
      using ok that [of len n] by (cases "drop n (suffix c)")
        (auto simp: decode_bytestring_eq [OF wf] bytestring_spec_def split: if_splits)
  qed
  have left: "left c = n + 1 + length t"
    using int_spec_bound [OF n(1)] arg_cong [OF n(2), of length] by simp
  have "int (cur_position c) + int (left c) < 2 ^ 63" using wf by (auto simp: wf_cursor_def wf_bytes_def left_def)
  then have small: "int (cur_position c + n + 1) + int (unat len) < 2 ^ 63" 
    using left n(3) by linarith
  then have "int (unat len) < 2 ^ 63" by linarith
  then have "int (unat len) < int (2 ^ 63)" by (simp only: of_nat_power of_nat_numeral)
  then have "unat len < 2 ^ 63" by (simp only: of_nat_less_iff)
  then have len: "sint len = int (unat len)" by (rule sint_eq_unat)
  then have "0 \<le> sint len" by simp
  then have sint: "0 \<le> sint len" "sint len \<noteq> - (2 ^ 63)" by simp_all
  have wf': "wf_cursor (moved c (n + 1))" using left wf by (simp add: wf_cursor_moved)
  have t: "drop (n + 1) (suffix c) = t" using n(2) by (metis drop_Suc_Cons drop0 drop_drop plus_1_eq_Suc add.commute)
  have "accept_run len (moved c (n + 1)) = Ok (v, d)"
    unfolding accept_run_eq [OF wf' sint(1)] using small left n(3-5) t by (simp add: len)
  moreover have "accept_single (bytes '':'') (moved c n) = (Some (byte CHR '':''), moved c (n + 1))"
    using n(2) by (simp add: accept_single_eq bytes_def)
  ultimately show ?thesis
    using parse_integer_of_int_spec [OF n(1)] sint by (simp add: go_decode_string_def)
qed

lemma accept_single_NoneD: "accept_single accepted c = (None, d) \<Longrightarrow> d = c"
  by (auto simp: accept_single_eq split: list.splits if_splits)

lemma accept_single_steps: "accept_single accepted c = (Some b, d) \<Longrightarrow> steps 1 c d"
  using accept_single_SomeD [of accepted c b d] by (intro stepsI [where n = 1]) auto

lemma parse_integer_steps: "parse_integer c = (Ok i, d) \<Longrightarrow> steps 0 c d"
  using parse_integer_OkD [of c i d] by (auto simp: steps_def)

lemma accept_run_steps: "accept_run len c = Ok (v, d) \<Longrightarrow> steps 0 c d"
  by (auto simp: accept_run_def Let_def moved_def left_def split: if_splits
      intro!: stepsI [where n = "nat (sint (of_nat (cur_position c) + len)) - cur_position c"])

lemma go_decode_string_steps:
  assumes "go_decode_string c = Ok (v, d)"
  shows "steps 1 c d"
proof -
  obtain len c1 c2 b where "parse_integer c = (Ok len, c1)"
    "accept_single (bytes '':'') c1 = (Some b, c2)" "accept_run len c2 = Ok (v, d)"
    using go_decode_string_OkE [OF assms] .
  then have "steps 0 c c1" "steps 1 c1 c2" "steps 0 c2 d"
    by (auto dest: parse_integer_steps accept_single_steps accept_run_steps)
  then show ?thesis by (metis add_0 add_0_right steps_trans)
qed

lemma go_decode_integer_OkE:
  assumes "go_decode_integer c = Ok (v, d)"
  obtains b c1 i c2 b' where "accept_single (bytes ''i'') c = (Some b, c1)"
    "parse_integer c1 = (Ok i, c2)" "accept_single (bytes ''e'') c2 = (Some b', d)" "v = Integer i"
proof -
  obtain b c1 where c1: "accept_single (bytes ''i'') c = (b, c1)" by (cases "accept_single (bytes ''i'') c")
  obtain res c2 where c2: "parse_integer c1 = (res, c2)" by (cases "parse_integer c1")
  obtain b' c3 where c3: "accept_single (bytes ''e'') c2 = (b', c3)" by (cases "accept_single (bytes ''e'') c2")
  from assms c1 c2 c3 show thesis
    by (cases b; cases b'; cases res) (auto simp: go_decode_integer_def intro!: that)
qed

lemma go_decode_integer_steps: "go_decode_integer c = Ok (v, d) \<Longrightarrow> steps 1 c d"
  by (elim go_decode_integer_OkE)
    (metis accept_single_steps parse_integer_steps steps_trans steps_weaken add_0_right le_add1)

section \<open>Values, lists and dictionaries\<close>

text \<open>\<open>fmt.Errorf\<close> with \<open>%w\<close> wraps the error of a nested call.\<close>

definition wrap_err :: "('e \<Rightarrow> 'e) \<Rightarrow> ('a, 'e) outcome \<Rightarrow> ('a, 'e) outcome" where
  "wrap_err f m = (case m of Err e \<Rightarrow> Err (f e) | _ \<Rightarrow> m)"

lemma wrap_err_simps [simp]:
  "wrap_err f (Ok x) = Ok x" "wrap_err f (Err e) = Err (f e)" "wrap_err f (Crash p) = Crash p"
  by (simp_all add: wrap_err_def)

lemma wrap_err_Ok_iff [simp]: "wrap_err f m = Ok x \<longleftrightarrow> m = Ok x"
  by (cases m) simp_all

lemma wrap_err_Crash_iff [simp]: "wrap_err f m = Crash p \<longleftrightarrow> m = Crash p"
  by (cases m) simp_all

text \<open>A Go map keeps no order; its bindings are listed by ascending keys.\<close>

function (sequential)
  go_decode_value :: "scanner \<Rightarrow> bencode scans" and
  go_decode_list :: "scanner \<Rightarrow> bencode scans" and
  go_list_loop :: "bencode list \<Rightarrow> scanner \<Rightarrow> bencode scans" and
  go_decode_dict :: "scanner \<Rightarrow> bencode scans" and
  go_dict_loop :: "dict \<Rightarrow> scanner \<Rightarrow> bencode scans"
where
  "go_decode_value c =
     (case scan_peek c of
        None \<Rightarrow> Err UnexpectedEnd
      | Some b \<Rightarrow>
          if b = byte CHR ''i'' then go_decode_integer c
          else if b = byte CHR ''l'' then go_decode_list c
          else if b = byte CHR ''d'' then go_decode_dict c
          else and_then (go_decode_string c) (\<lambda>(s, c). Ok (Bytes s, c)))"
| "go_decode_list c =
     (case accept_single (bytes ''l'') c of
        (None, c) \<Rightarrow> Err NoListStart
      | (Some _, c) \<Rightarrow> go_list_loop [] c)"
| "go_list_loop result c =
     (case accept_single (bytes ''e'') c of
        (Some _, c) \<Rightarrow> Ok (List result, c)
      | (None, c) \<Rightarrow>
          and_then (wrap_err InList (go_decode_value c)) (\<lambda>(v, c). go_list_loop (result @ [v]) c))"
| "go_decode_dict c =
     (case accept_single (bytes ''d'') c of
        (None, c) \<Rightarrow> Err NoDictStart
      | (Some _, c) \<Rightarrow> go_dict_loop [] c)"
| "go_dict_loop result c =
     (case accept_single (bytes ''e'') c of
        (Some _, c) \<Rightarrow> Ok (Dict result, c)
      | (None, c) \<Rightarrow>
          and_then (wrap_err InDictKey (go_decode_string c)) (\<lambda>(key, c).
          and_then (wrap_err InDictValue (go_decode_value c)) (\<lambda>(value, c).
            go_dict_loop (bt_insert key value result) c)))"
  by pat_completeness auto

text \<open>
  The nested calls return further on: as for the Rust decoder this is proved before totality is
  known and makes the number of unread bytes decrease.
\<close>

lemma go_decode_steps:
  "go_decode_value_go_decode_list_go_list_loop_go_decode_dict_go_dict_loop_dom (Inl (Inl c))
     \<Longrightarrow> go_decode_value c = Ok (v, d) \<Longrightarrow> steps 1 c d"
  "go_decode_value_go_decode_list_go_list_loop_go_decode_dict_go_dict_loop_dom (Inl (Inr c))
     \<Longrightarrow> go_decode_list c = Ok (v, d) \<Longrightarrow> steps 1 c d"
  "go_decode_value_go_decode_list_go_list_loop_go_decode_dict_go_dict_loop_dom (Inr (Inl (vs, c)))
     \<Longrightarrow> go_list_loop vs c = Ok (v, d) \<Longrightarrow> steps 1 c d"
  "go_decode_value_go_decode_list_go_list_loop_go_decode_dict_go_dict_loop_dom (Inr (Inr (Inl c)))
     \<Longrightarrow> go_decode_dict c = Ok (v, d) \<Longrightarrow> steps 1 c d"
  "go_decode_value_go_decode_list_go_list_loop_go_decode_dict_go_dict_loop_dom (Inr (Inr (Inr (m, c))))
     \<Longrightarrow> go_dict_loop m c = Ok (v, d) \<Longrightarrow> steps 1 c d"
proof (induction c and c and vs c and c and m c arbitrary: v d and v d and v d and v d and v d
    rule: go_decode_value_go_decode_list_go_list_loop_go_decode_dict_go_dict_loop.pinduct)
  case (1 c)
  from "1.prems" show ?case
    by (auto simp: go_decode_value.psimps [OF "1.hyps"] and_then_eq_Ok_iff split: option.splits if_splits
        simp del: One_nat_def dest: go_decode_integer_steps go_decode_string_steps "1.IH")
next
  case (2 c)
  obtain b e where e: "accept_single (bytes ''l'') c = (b, e)" by (cases "accept_single (bytes ''l'') c")
  with "2.prems" obtain b' where b: "b = Some b'" "go_list_loop [] e = Ok (v, d)"
    by (cases b) (auto simp: go_decode_list.psimps [OF "2.hyps"])
  then have "steps 1 c e" "steps 1 e d"
    using "2.IH" [of b e b'] e accept_single_steps by auto
  then show ?case by (rule steps_weaken [OF steps_trans]) simp
next
  case (3 vs c)
  obtain b e where e: "accept_single (bytes ''e'') c = (b, e)" by (cases "accept_single (bytes ''e'') c")
  show ?case
  proof (cases b)
    case None
    then have "e = c" using e accept_single_NoneD by simp
    with "3.prems" None e obtain w f where "go_decode_value c = Ok (w, f)" "go_list_loop (vs @ [w]) f = Ok (v, d)"
      by (auto simp: go_list_loop.psimps [OF "3.hyps"] and_then_eq_Ok_iff)
    then have "steps 1 c f" "steps 1 f d"
      using "3.IH" [of b e] e None \<open>e = c\<close> by auto
    then show ?thesis by (rule steps_weaken [OF steps_trans]) simp
  next
    case (Some b')
    with "3.prems" e show ?thesis
      using accept_single_steps by (auto simp: go_list_loop.psimps [OF "3.hyps"])
  qed
next
  case (4 c)
  obtain b e where e: "accept_single (bytes ''d'') c = (b, e)" by (cases "accept_single (bytes ''d'') c")
  with "4.prems" obtain b' where b: "b = Some b'" "go_dict_loop [] e = Ok (v, d)"
    by (cases b) (auto simp: go_decode_dict.psimps [OF "4.hyps"])
  then have "steps 1 c e" "steps 1 e d"
    using "4.IH" [of b e b'] e accept_single_steps by auto
  then show ?case by (rule steps_weaken [OF steps_trans]) simp
next
  case (5 m c)
  obtain b e where e: "accept_single (bytes ''e'') c = (b, e)" by (cases "accept_single (bytes ''e'') c")
  show ?case
  proof (cases b)
    case None
    then have "e = c" using e accept_single_NoneD by simp
    with "5.prems" None e obtain k g w f where "go_decode_string c = Ok (k, g)"
      "go_decode_value g = Ok (w, f)" "go_dict_loop (bt_insert k w m) f = Ok (v, d)"
      by (auto simp: go_dict_loop.psimps [OF "5.hyps"] and_then_eq_Ok_iff)
    moreover from this have "steps 1 g f" "steps 1 f d"
      using "5.IH" [of b e] e None \<open>e = c\<close> by auto
    ultimately have "steps (1 + (1 + 1)) c d" by (blast intro: steps_trans go_decode_string_steps)
    then show ?thesis by (rule steps_weaken) simp
  next
    case (Some b')
    with "5.prems" e show ?thesis
      using accept_single_steps by (auto simp: go_dict_loop.psimps [OF "5.hyps"])
  qed
qed

lemma go_decode_dom: "go_decode_value_go_decode_list_go_list_loop_go_decode_dict_go_dict_loop_dom x"
proof -
  have "\<forall>x. go_decode_value_go_decode_list_go_list_loop_go_decode_dict_go_dict_loop_dom x"
    by (rule "go_decode_value_go_decode_list_go_list_loop_go_decode_dict_go_dict_loop.termination" [where
          R = "measure (\<lambda>x. case x of
              Inl (Inl c) \<Rightarrow> 3 * left c + 1
            | Inl (Inr c) \<Rightarrow> 3 * left c
            | Inr (Inl (_, c)) \<Rightarrow> 3 * left c + 2
            | Inr (Inr (Inl c)) \<Rightarrow> 3 * left c
            | Inr (Inr (Inr (_, c))) \<Rightarrow> 3 * left c + 2)"])
      (auto dest!: sym [of "(_, _)" "accept_single _ _"] accept_single_steps go_decode_string_steps
        go_decode_steps(1) steps_left accept_single_NoneD)
  then show ?thesis ..
qed

termination go_decode_value
  by (rule allI) (rule go_decode_dom)

lemmas go_decode_defs = go_decode_value.simps go_decode_list.simps go_list_loop.simps
  go_decode_dict.simps go_dict_loop.simps

declare go_decode_defs [simp del]

definition go_decode :: "u8 list \<Rightarrow> (bencode, go_error) outcome" where
  "go_decode input = and_then (go_decode_value (cursor_new input)) (\<lambda>(v, _). Ok v)"

definition go_decode_top_dict :: "u8 list \<Rightarrow> (bencode, go_error) outcome" where
  "go_decode_top_dict input = and_then (go_decode_dict (cursor_new input)) (\<lambda>(v, _). Ok v)"

section \<open>The encoder\<close>

text \<open>The keys of a map come in any order and are sorted; the values are then looked up by key.\<close>

fun go_encode :: "bencode \<Rightarrow> u8 list" where
  "go_encode (Integer i) = bytes ''i'' @ i64_to_string i @ bytes ''e''"
| "go_encode (Bytes s) = nat_to_string (length s) @ bytes '':'' @ s"
| "go_encode (List l) = bytes ''l'' @ concat (map go_encode l) @ bytes ''e''"
| "go_encode (Dict d) =
     (let encoded = map (\<lambda>(k, v). (k, go_encode v)) d; keys = sort (map fst encoded) in
      bytes ''d'' @
      concat (map (\<lambda>k. nat_to_string (length k) @ bytes '':'' @ k @
        (case map_of encoded k of Some v \<Rightarrow> v | None \<Rightarrow> [])) keys) @ bytes ''e'')"

section \<open>The texts for the user\<close>

fun go_join :: "u8 list list \<Rightarrow> u8 list" where
  "go_join [] = []"
| "go_join [s] = s"
| "go_join (s # ss) = s @ bytes '', '' @ go_join ss"

fun go_string :: "bencode \<Rightarrow> u8 list" where
  "go_string (Integer i) = i64_to_string i"
| "go_string (Bytes s) = s"
| "go_string (List l) = bytes ''['' @ go_join (map go_string l) @ bytes '']''"
| "go_string (Dict d) =
     (let shown = map (\<lambda>(k, v). (k, go_string v)) d; keys = sort (map fst shown) in
      bytes ''{ '' @ go_join (map (\<lambda>k. k @ bytes '': '' @
        (case map_of shown k of Some v \<Rightarrow> v | None \<Rightarrow> [])) keys) @ bytes '' }'')"

end
