(* ===== verification/Go_Codec.thy ===== *)
theory Go_Codec
  imports Go_Bencode
begin

text \<open>
  The Go decoder and encoder compared with the Rust ones: what one reads the other reads, up to the
  smallest integer and signs in front of string lengths, and what Go writes is read back.
\<close>

section \<open>Agreement with the Rust decoder\<close>

lemma accept_single_byte:
  assumes "wf_cursor c"
  shows "accept_single [b] c =
    (case take_byte c of Ok (b', d) \<Rightarrow> if b' = b then (Some b, d) else (None, c) | _ \<Rightarrow> (None, c))"
  using assms by (auto simp: accept_single_eq take_byte_eq split: list.split)

lemma scan_peek_eq: "wf_cursor c \<Longrightarrow> scan_peek c = (case peek_byte c of Ok b \<Rightarrow> Some b | _ \<Rightarrow> None)"
  by (auto simp: scan_peek_def peek_byte_def remaining_def wf_cursor_def)

lemma bytes_one [simp]: "bytes [x] = [byte x]"
  by (simp add: bytes_def)

lemma take_peeked: "peek_byte c = Ok b \<Longrightarrow> take_byte c = Ok (b', d) \<Longrightarrow> b' = b"
  by (auto simp: take_byte_def and_then_eq_Ok_iff)

fun out_of_range :: "go_error \<Rightarrow> bool" where
  "out_of_range OutOfRange = True"
| "out_of_range (InList e) = out_of_range e"
| "out_of_range (InDictKey e) = out_of_range e"
| "out_of_range (InDictValue e) = out_of_range e"
| "out_of_range _ = False"

text \<open>The Go result is \<open>x\<close> as well, or \<open>Atoi\<close> failed somewhere.\<close>

definition agrees :: "('a, go_error) outcome \<Rightarrow> 'a \<Rightarrow> bool" where
  "agrees m x \<longleftrightarrow> m = Ok x \<or> (\<exists>e. m = Err e \<and> out_of_range e)"

lemma agrees_Ok [simp]: "agrees (Ok y) x \<longleftrightarrow> y = x"
  by (simp add: agrees_def)

lemma agrees_and_then: "agrees m x \<Longrightarrow> agrees (f x) y \<Longrightarrow> agrees (and_then m f) y"
  by (auto simp: agrees_def)

lemma agrees_wrap: "agrees m x \<Longrightarrow> (\<And>e. out_of_range e \<Longrightarrow> out_of_range (f e)) \<Longrightarrow> agrees (wrap_err f m) x"
  by (auto simp: agrees_def)

lemma decode_int_agrees:
  assumes wf: "wf_cursor c" and ok: "decode_int c = Ok (v, d)"
  shows "agrees (go_decode_integer c) (v, d)"
proof -
  obtain c1 i c2 where c1: "take_byte c = Ok (byte CHR ''i'', c1)" "parse_int c1 = Ok (i, c2)"
    "take_byte c2 = Ok (byte CHR ''e'', d)" "v = Integer i"
    using ok by (auto simp: decode_int_def and_then_eq_Ok_iff split: if_splits)
  have wf1: "wf_cursor c1" and wf2: "wf_cursor c2"
    using wf c1(1,2) by (auto dest: read_wf)
  obtain n where n: "int_spec (suffix c1) = Ok (i, n)" "c2 = moved c1 n"
    using c1(2) by (auto simp: parse_int_eq [OF wf1] and_then_eq_Ok_iff)
  then have "parse_integer c1 = (if sint i = - (2 ^ 63) then Err OutOfRange else Ok i, c2)"
    using parse_integer_of_int_spec by simp
  with c1 show ?thesis
    by (simp add: go_decode_integer_def accept_single_byte [OF wf] accept_single_byte [OF wf2] agrees_def)
qed

lemma go_decode_integer_OkD:
  assumes wf: "wf_cursor c" and ok: "go_decode_integer c = Ok (v, d)"
  shows "decode_int c = Ok (v, d)"
proof -
  obtain b c1 i c2 b' where c1: "accept_single (bytes ''i'') c = (Some b, c1)"
    "parse_integer c1 = (Ok i, c2)" "accept_single (bytes ''e'') c2 = (Some b', d)" "v = Integer i"
    using go_decode_integer_OkE [OF ok] .
  have wf1: "wf_cursor c1" using c1(1) accept_single_steps steps_wf wf by blast
  have wf2: "wf_cursor c2" using c1(2) parse_integer_steps steps_wf wf1 by blast
  have "parse_int c1 = Ok (i, c2)"
    using parse_integer_OkD [OF c1(2)] by (auto simp: parse_int_eq [OF wf1])
  moreover have "take_byte c = Ok (byte CHR ''i'', c1)" "take_byte c2 = Ok (byte CHR ''e'', d)"
    using c1(1,3) by (auto simp: accept_single_byte [OF wf] accept_single_byte [OF wf2]
        split: outcome.splits if_splits)
  ultimately show ?thesis using c1(4) by (simp add: decode_int_def)
qed

lemma rust_decoded_agrees:
  "wf_cursor c \<Longrightarrow> decode_value c = Ok (v, d) \<Longrightarrow> agrees (go_decode_value c) (v, d)"
  "wf_cursor c \<Longrightarrow> decode_list c = Ok (v, d) \<Longrightarrow> agrees (go_decode_list c) (v, d)"
  "wf_cursor c \<Longrightarrow> decode_list_loop vs c = Ok (v, d) \<Longrightarrow> agrees (go_list_loop vs c) (v, d)"
  "wf_cursor c \<Longrightarrow> decode_dict c = Ok (v, d) \<Longrightarrow> agrees (go_decode_dict c) (v, d)"
  "wf_cursor c \<Longrightarrow> decode_dict_loop m c = Ok (v, d) \<Longrightarrow> agrees (go_dict_loop m c) (v, d)"
proof (induction c and c and vs c and c and m c arbitrary: v d and v d and v d and v d and v d
    rule: decode_induct)
  case (decode_value c)
  note wf = decode_value.prems(1)
  obtain b where b: "peek_byte c = Ok b"
    using decode_value.prems(2) by (auto simp: decode_value.simps [of c] and_then_eq_Ok_iff)
  then have peek: "scan_peek c = Some b" by (simp add: scan_peek_eq [OF wf])
  consider (int) "b = byte CHR ''i''" "decode_int c = Ok (v, d)"
    | (string) k where "is_ascii_digit b" "decode_bytestring c = Ok (Bytes k, d)" "v = Bytes k"
    | (list) "b = byte CHR ''l''" "decode_list c = Ok (v, d)"
    | (dict) "b = byte CHR ''d''" "decode_dict c = Ok (v, d)"
    using decode_value.prems(2) b decode_bytestring_is_bytes [of c v d]
    by (auto simp: decode_value.simps [of c] split: if_splits)
  then show ?case
  proof cases
    case int
    with decode_int_agrees [OF wf] peek show ?thesis by (simp add: go_decode_value.simps [of c])
  next
    case string
    with go_decode_string_of_rust [OF wf] peek show ?thesis
      by (auto simp: go_decode_value.simps [of c] is_ascii_digit_def byte_values)
  qed (use decode_value.IH b peek wf in \<open>simp_all add: go_decode_value.simps [of c] byte_values\<close>)
next
  case (decode_list c)
  from decode_list.prems(2) obtain e where e: "take_byte c = Ok (byte CHR ''l'', e)"
    "decode_list_loop [] e = Ok (v, d)" by (rule decode_list_OkE)
  with decode_list.IH [OF e(1)] read_wf(2) [OF e(1) decode_list.prems(1)] show ?case
    by (simp add: go_decode_list.simps [of c] accept_single_byte [OF decode_list.prems(1)])
next
  case (decode_list_loop vs c)
  note wf = decode_list_loop.prems(1)
  from decode_list_loop.prems(2) show ?case
  proof (cases rule: decode_list_loop_OkE)
    case (stop b)
    then have "b = byte CHR ''e''" using take_peeked by blast
    with stop show ?thesis by (simp add: go_list_loop.simps [of vs c] accept_single_byte [OF wf])
  next
    case (elem b w e)
    have "accept_single (bytes ''e'') c = (None, c)"
      using elem(1,2) by (auto simp: accept_single_byte [OF wf] take_byte_def and_then_eq_Ok_iff split: outcome.split)
    moreover have "agrees (wrap_err InList (go_decode_value c)) (w, e)"
      by (rule agrees_wrap [OF decode_list_loop.IH(1) [OF elem(1,2) wf elem(3)]]) simp
    moreover have "agrees (go_list_loop (vs @ [w]) e) (v, d)"
      using decode_list_loop.IH(2) [OF elem(1-3)] read_wf(4) [OF elem(3) wf] elem(4) by blast
    ultimately show ?thesis
      by (auto simp: go_list_loop.simps [of vs c] intro: agrees_and_then)
  qed
next
  case (decode_dict c)
  from decode_dict.prems(2) obtain e where e: "take_byte c = Ok (byte CHR ''d'', e)"
    "decode_dict_loop [] e = Ok (v, d)" by (rule decode_dict_OkE)
  with decode_dict.IH [OF e(1)] read_wf(2) [OF e(1) decode_dict.prems(1)] show ?case
    by (simp add: go_decode_dict.simps [of c] accept_single_byte [OF decode_dict.prems(1)])
next
  case (decode_dict_loop m c)
  note wf = decode_dict_loop.prems(1)
  from decode_dict_loop.prems(2) show ?case
  proof (cases rule: decode_dict_loop_OkE)
    case (stop b)
    then have "b = byte CHR ''e''" using take_peeked by blast
    with stop show ?thesis by (simp add: go_dict_loop.simps [of m c] accept_single_byte [OF wf])
  next
    case (entry b k e w f)
    have "accept_single (bytes ''e'') c = (None, c)"
      using entry(1,2) by (auto simp: accept_single_byte [OF wf] take_byte_def and_then_eq_Ok_iff split: outcome.split)
    moreover have "go_decode_string c = Ok (k, e)" by (rule go_decode_string_of_rust [OF wf entry(3)])
    moreover have wf': "wf_cursor e" by (rule read_wf(3) [OF entry(3) wf])
    moreover have "agrees (wrap_err InDictValue (go_decode_value e)) (w, f)"
      by (rule agrees_wrap [OF decode_dict_loop.IH(1) [OF entry(1-3) wf' entry(4)]]) simp
    moreover have "agrees (go_dict_loop (bt_insert k w m) f) (v, d)"
      using decode_dict_loop.IH(2) [OF entry(1-4)] read_wf(4) [OF entry(4) wf'] entry(5) by blast
    ultimately show ?thesis
      by (auto simp: go_dict_loop.simps [of m c] intro: agrees_and_then)
  qed
qed

text \<open>
  What Go reads, Rust reads too or rejects at the first byte of a value: only Go takes a sign in
  front of a string's length there.
\<close>

lemma accept_single_None_byte:
  assumes "wf_cursor c" "accept_single [b] c = (None, d)" "peek_byte c = Ok b'"
  shows "b' \<noteq> b"
  using assms by (auto simp: accept_single_eq peek_byte_eq split: list.splits if_splits)

lemma go_decode_nonempty:
  assumes "wf_cursor c"
  shows "go_decode_value c = Ok x \<Longrightarrow> \<exists>b. peek_byte c = Ok b \<and> scan_peek c = Some b"
    and "go_decode_string c = Ok y \<Longrightarrow> \<exists>b. peek_byte c = Ok b"
proof -
  show "\<exists>b. peek_byte c = Ok b \<and> scan_peek c = Some b" if "go_decode_value c = Ok x"
    using that by (auto simp: go_decode_value.simps [of c] scan_peek_eq [OF assms] split: outcome.splits)
  show "\<exists>b. peek_byte c = Ok b" if "go_decode_string c = Ok y"
  proof -
    have "0 < left c" using that go_decode_string_steps [of c "fst y" "snd y"] steps_left by fastforce
    then show ?thesis
      using assms by (cases "suffix c") (auto simp: peek_byte_eq simp flip: length_suffix)
  qed
qed

definition same_or_start :: "'a decoded \<Rightarrow> 'a \<Rightarrow> bool" where
  "same_or_start m x \<longleftrightarrow> m = Ok x \<or> m = Err UnexpectedStartOfValue"

lemma go_decode_wf: "go_decode_value c = Ok (v, d) \<Longrightarrow> wf_cursor c \<Longrightarrow> wf_cursor d"
  using go_decode_steps(1) [OF go_decode_dom] steps_wf by blast

lemma go_decoded_same:
  "wf_cursor c \<Longrightarrow> go_decode_value c = Ok (v, d) \<Longrightarrow> same_or_start (decode_value c) (v, d)"
  "wf_cursor c \<Longrightarrow> go_decode_list c = Ok (v, d) \<Longrightarrow> same_or_start (decode_list c) (v, d)"
  "wf_cursor c \<Longrightarrow> go_list_loop vs c = Ok (v, d) \<Longrightarrow> same_or_start (decode_list_loop vs c) (v, d)"
  "wf_cursor c \<Longrightarrow> go_decode_dict c = Ok (v, d) \<Longrightarrow> same_or_start (decode_dict c) (v, d)"
  "wf_cursor c \<Longrightarrow> go_dict_loop m c = Ok (v, d) \<Longrightarrow> same_or_start (decode_dict_loop m c) (v, d)"
proof (induction c and c and vs c and c and m c arbitrary: v d and v d and v d and v d and v d
    rule: go_decode_value_go_decode_list_go_list_loop_go_decode_dict_go_dict_loop.induct)
  case (1 c)
  note wf = "1.prems"(1)
  obtain b where b: "peek_byte c = Ok b" "scan_peek c = Some b"
    using go_decode_nonempty(1) [OF "1.prems"] by blast
  consider (int) "b = byte CHR ''i''" "go_decode_integer c = Ok (v, d)"
    | (list) "b = byte CHR ''l''" "go_decode_list c = Ok (v, d)"
    | (dict) "b = byte CHR ''d''" "go_decode_dict c = Ok (v, d)"
    | (string) k where "b \<noteq> byte CHR ''i''" "b \<noteq> byte CHR ''l''" "b \<noteq> byte CHR ''d''"
      "go_decode_string c = Ok (k, d)" "v = Bytes k"
    using "1.prems"(2) b by (auto simp: go_decode_value.simps [of c] and_then_eq_Ok_iff split: if_splits)
  then show ?case
  proof cases
    case int
    with go_decode_integer_OkD [OF wf] b show ?thesis
      by (simp add: decode_value.simps [of c] same_or_start_def)
  next
    case string
    with go_decode_string_OkD [OF wf] b show ?thesis
      by (auto simp: decode_value.simps [of c] same_or_start_def)
  qed (use "1.IH" b wf in \<open>simp_all add: decode_value.simps [of c] byte_values is_ascii_digit_def\<close>)
next
  case (2 c)
  note wf = "2.prems"(1)
  obtain b e where e: "accept_single (bytes ''l'') c = (Some b, e)" "go_list_loop [] e = Ok (v, d)"
    using "2.prems"(2) by (auto simp: go_decode_list.simps [of c] split: prod.splits option.splits)
  then have "take_byte c = Ok (byte CHR ''l'', e)"
    by (auto simp: accept_single_byte [OF wf] split: outcome.splits if_splits)
  with "2.IH" [of "Some b" e b] e steps_wf [OF accept_single_steps [OF e(1)] wf] show ?case
    by (simp add: decode_list.simps [of c])
next
  case (3 vs c)
  note wf = "3.prems"(1)
  obtain b e where e: "accept_single (bytes ''e'') c = (b, e)" by (cases "accept_single (bytes ''e'') c")
  show ?case
  proof (cases b)
    case None
    then have "e = c" using e accept_single_NoneD by simp
    with "3.prems"(2) None e obtain w f where w: "go_decode_value c = Ok (w, f)"
      "go_list_loop (vs @ [w]) f = Ok (v, d)"
      by (auto simp: go_list_loop.simps [of vs c] and_then_eq_Ok_iff)
    obtain b' where b': "peek_byte c = Ok b'" "b' \<noteq> byte CHR ''e''"
      using go_decode_nonempty(1) [OF wf w(1)] accept_single_None_byte [OF wf] e None by auto
    have "same_or_start (decode_value c) (w, f)"
      using "3.IH"(1) [OF e [symmetric] None] \<open>e = c\<close> wf w(1) by simp
    moreover have "same_or_start (decode_list_loop (vs @ [w]) f) (v, d)"
      using "3.IH"(2) [OF e [symmetric] None] \<open>e = c\<close> w go_decode_wf [OF w(1) wf] by simp
    ultimately show ?thesis
      using b' by (auto simp: decode_list_loop.simps [of vs c] same_or_start_def)
  next
    case (Some b')
    with e "3.prems"(2) show ?thesis
      by (auto simp: go_list_loop.simps [of vs c] decode_list_loop.simps [of vs c] same_or_start_def
          accept_single_eq take_byte_eq [OF wf] peek_byte_eq [OF wf] split: list.splits if_splits)
  qed
next
  case (4 c)
  note wf = "4.prems"(1)
  obtain b e where e: "accept_single (bytes ''d'') c = (Some b, e)" "go_dict_loop [] e = Ok (v, d)"
    using "4.prems"(2) by (auto simp: go_decode_dict.simps [of c] split: prod.splits option.splits)
  then have "take_byte c = Ok (byte CHR ''d'', e)"
    by (auto simp: accept_single_byte [OF wf] split: outcome.splits if_splits)
  with "4.IH" [of "Some b" e b] e steps_wf [OF accept_single_steps [OF e(1)] wf] show ?case
    by (simp add: decode_dict.simps [of c])
next
  case (5 m c)
  note wf = "5.prems"(1)
  obtain b e where e: "accept_single (bytes ''e'') c = (b, e)" by (cases "accept_single (bytes ''e'') c")
  show ?case
  proof (cases b)
    case None
    then have "e = c" using e accept_single_NoneD by simp
    with "5.prems"(2) None e obtain k g w f where w: "go_decode_string c = Ok (k, g)"
      "go_decode_value g = Ok (w, f)" "go_dict_loop (bt_insert k w m) f = Ok (v, d)"
      by (auto simp: go_dict_loop.simps [of m c] and_then_eq_Ok_iff)
    obtain b' where b': "peek_byte c = Ok b'" "b' \<noteq> byte CHR ''e''"
      using go_decode_nonempty(2) [OF wf w(1)] accept_single_None_byte [OF wf] e None by auto
    have wf': "wf_cursor g" using steps_wf [OF go_decode_string_steps [OF w(1)] wf] .
    have "decode_bytestring c = Ok (Bytes k, g)" by (rule go_decode_string_OkD [OF wf w(1)])
    moreover have "same_or_start (decode_value g) (w, f)"
      using "5.IH"(1) [OF e [symmetric] None] \<open>e = c\<close> wf' w by simp
    moreover have "same_or_start (decode_dict_loop (bt_insert k w m) f) (v, d)"
      using "5.IH"(2) [OF e [symmetric] None] \<open>e = c\<close> w go_decode_wf [OF w(2) wf'] by simp
    ultimately show ?thesis
      using b' by (auto simp: decode_dict_loop.simps [of m c] same_or_start_def)
  next
    case (Some b')
    with e "5.prems"(2) show ?thesis
      by (auto simp: go_dict_loop.simps [of m c] decode_dict_loop.simps [of m c] same_or_start_def
          accept_single_eq take_byte_eq [OF wf] peek_byte_eq [OF wf] split: list.splits if_splits)
  qed
qed

section \<open>What Go writes\<close>

lemma go_encode_eq: "wf_bencode v \<Longrightarrow> go_encode v = encode v"
proof (induction v rule: encode.induct)
  case (4 m)
  let ?enc = "map (\<lambda>(k, v). (k, encode v)) m"
  have eq: "map (\<lambda>(k, v). (k, go_encode v)) m = ?enc"
    using 4 by (intro map_cong) (auto simp: list_all_iff)
  have keys: "map fst ?enc = map fst m" by (simp add: comp_def case_prod_beta)
  have "sorted_wrt (<) (map fst m)" using "4.prems" by (simp add: ascending_def)
  then have sorted: "sort (map fst m) = map fst m" "distinct (map fst m)"
    by (simp_all add: sort_key_id_if_sorted strict_sorted_imp_sorted strict_sorted_iff)
  have "map_of ?enc k = Some (encode v)" if "(k, v) \<in> set m" for k v
    using that sorted(2) by (intro map_of_is_SomeI) (force simp only: keys, force)
  then have entries: "map (\<lambda>k. nat_to_string (length k) @ bytes '':'' @ k @
        (case map_of ?enc k of Some v \<Rightarrow> v | None \<Rightarrow> [])) (map fst m) =
      map (\<lambda>(k, v). encode_bytes k @ encode v) m"
    by (auto simp: encode_bytes_def comp_def)
  show ?case unfolding go_encode.simps Let_def eq keys sorted(1) entries by simp
qed (auto simp: encode_bytes_def list_all_iff intro!: arg_cong [where f = concat])

lemma go_decode_integer:
  "go_decode (go_encode (Integer i)) = (if sint i = - (2 ^ 63) then Err OutOfRange else Ok (Integer i))"
proof -
  let ?s = "i64_to_string i"
  define c where "c = cursor_new (go_encode (Integer i))"
  have c: "suffix c = byte CHR ''i'' # ?s @ [byte CHR ''e'']" by (simp add: c_def)
  have peek: "scan_peek c = Some (byte CHR ''i'')" by (simp add: c_def scan_peek_def cursor_new_def)
  have "int_spec (?s @ [byte CHR ''e'']) = Ok (i, length ?s)"
    by (rule int_spec_i64_to_string) (simp add: is_ascii_digit_def byte_values)
  then have "parse_integer (moved c 1) = (if sint i = - (2 ^ 63) then Err OutOfRange else Ok i, moved c (1 + length ?s))"
    using parse_integer_of_int_spec [of "moved c 1"] c by simp
  moreover have "accept_single (bytes ''e'') (moved c (1 + length ?s)) = (Some (byte CHR ''e''), moved c (2 + length ?s))"
    using c by (simp add: accept_single_eq)
  ultimately show ?thesis
    unfolding go_decode_def c_def [symmetric] using c peek by (simp add: go_decode_value.simps [of c] go_decode_integer_def accept_single_eq)
qed

text \<open>Without the smallest integer everything that Go writes, it reads back, as for Rust.\<close>

fun no_min :: "bencode \<Rightarrow> bool" where
  "no_min (Bytes s) = True"
| "no_min (Integer i) = (sint i \<noteq> - (2 ^ 63))"
| "no_min (List l) = list_all no_min l"
| "no_min (Dict d) = list_all (\<lambda>(_, v). no_min v) d"

definition go_decodes :: "bencode \<Rightarrow> bool" where
  "go_decodes v \<longleftrightarrow> (\<forall>c rest. wf_cursor c \<longrightarrow> suffix c = encode v @ rest \<longrightarrow>
     go_decode_value c = Ok (v, moved c (length (encode v))))"

lemma scan_peek_hd: "wf_cursor c \<Longrightarrow> suffix c = s @ rest \<Longrightarrow> s \<noteq> [] \<Longrightarrow> scan_peek c = Some (hd s)"
  using peek_byte_hd [of c s rest] by (simp add: scan_peek_eq)

lemma accept_single_other: "suffix c = s @ rest \<Longrightarrow> s \<noteq> [] \<Longrightarrow> hd s \<noteq> b \<Longrightarrow> accept_single [b] c = (None, c)"
  by (cases s) (simp_all add: accept_single_eq)

lemma go_decode_string_encode:
  "wf_cursor c \<Longrightarrow> wf_bytes v \<Longrightarrow> suffix c = encode_bytes v @ rest \<Longrightarrow>
    go_decode_string c = Ok (v, moved c (length (encode_bytes v)))"
  by (intro go_decode_string_of_rust decode_bytestring_encode)

lemma go_list_loop_encode:
  assumes "list_all go_decodes ws" "wf_cursor c"
    and "suffix c = concat (map encode ws) @ byte CHR ''e'' # rest"
  shows "go_list_loop vs c = Ok (List (vs @ ws), moved c (length (concat (map encode ws)) + 1))"
  using assms
proof (induction ws arbitrary: vs c)
  case Nil
  then show ?case by (simp add: go_list_loop.simps [of vs c] accept_single_eq)
next
  case (Cons w ws)
  let ?d = "moved c (length (encode w))"
  have s: "suffix c = encode w @ (concat (map encode ws) @ byte CHR ''e'' # rest)"
    using Cons.prems(3) by simp
  have wf: "wf_cursor ?d" by (rule wf_cursor_after [OF Cons.prems(2) s])
  have "accept_single [byte CHR ''e''] c = (None, c)"
    by (rule accept_single_other [OF s]) (simp_all add: hd_encode_not_e)
  moreover have "go_decode_value c = Ok (w, ?d)" using Cons.prems(1,2) s by (auto simp: go_decodes_def)
  moreover have "go_list_loop (vs @ [w]) ?d =
      Ok (List (vs @ w # ws), moved ?d (length (concat (map encode ws)) + 1))"
    using Cons.IH [of ?d "vs @ [w]"] Cons.prems(1) wf s by simp
  ultimately show ?case by (simp add: go_list_loop.simps [of vs c] add.assoc)
qed

lemma go_dict_loop_encode:
  assumes "list_all (\<lambda>(k, v). wf_bytes k \<and> go_decodes v) es" "wf_cursor c"
    and "suffix c = concat (map encode_entry es) @ byte CHR ''e'' # rest"
  shows "go_dict_loop m c =
    Ok (Dict (insert_entries m es), moved c (length (concat (map encode_entry es)) + 1))"
  using assms
proof (induction es arbitrary: m c)
  case Nil
  then show ?case by (simp add: go_dict_loop.simps [of m c] accept_single_eq)
next
  case (Cons e es)
  obtain k v where e: "e = (k, v)" by (cases e)
  let ?d = "moved c (length (encode_bytes k))"
  let ?f = "moved ?d (length (encode v))"
  let ?tail = "concat (map encode_entry es) @ byte CHR ''e'' # rest"
  have s: "suffix c = encode_bytes k @ (encode v @ ?tail)"
    using Cons.prems(3) by (simp add: e encode_entry_def)
  have wf: "wf_cursor ?d" by (rule wf_cursor_after [OF Cons.prems(2) s])
  have s': "suffix ?d = encode v @ ?tail" using s by simp
  have wf': "wf_cursor ?f" by (rule wf_cursor_after [OF wf s'])
  have s'': "suffix ?f = ?tail" unfolding suffix_moved [of ?d] s' by simp
  have "accept_single [byte CHR ''e''] c = (None, c)"
    by (rule accept_single_other [OF s]) (simp_all add: hd_encode_bytes_not_e)
  moreover have "go_decode_string c = Ok (k, ?d)"
    using Cons.prems(1) e s by (intro go_decode_string_encode [OF Cons.prems(2)]) auto
  moreover have "go_decode_value ?d = Ok (v, ?f)"
    using Cons.prems(1) e wf s' by (auto simp: go_decodes_def)
  moreover have "go_dict_loop (bt_insert k v m) ?f =
      Ok (Dict (insert_entries m (e # es)), moved ?f (length (concat (map encode_entry es)) + 1))"
    using Cons.IH [OF _ wf' s'', of "bt_insert k v m"] Cons.prems(1) by (simp add: e)
  ultimately show ?case
    by (simp add: go_dict_loop.simps [of m c] e encode_entry_def add.assoc)
qed

lemma wf_go_decodes: "wf_bencode v \<Longrightarrow> no_min v \<Longrightarrow> go_decodes v"
proof (induction v rule: encode.induct)
  case (1 v)
  have "go_decode_value c = Ok (Bytes v, moved c (length (encode_bytes v)))"
    if "wf_cursor c" "suffix c = encode_bytes v @ rest" for c rest
  proof -
    have "scan_peek c = Some (hd (encode_bytes v))" using that by (intro scan_peek_hd) auto
    then show ?thesis
      using that 1 hd_encode_bytes [of v] go_decode_string_encode [OF that(1) _ that(2)]
      by (auto simp: go_decode_value.simps [of c] is_ascii_digit_def byte_values)
  qed
  then show ?case by (simp add: go_decodes_def)
next
  case (2 i)
  have "go_decode_value c = Ok (Integer i, moved c (length (encode (Integer i))))"
    if c: "wf_cursor c" "suffix c = encode (Integer i) @ rest" for c rest
  proof -
    let ?n = "length (i64_to_string i)"
    have "int_spec (suffix (moved c 1)) = Ok (i, ?n)"
      using c(2) int_spec_i64_to_string [of "byte CHR ''e'' # rest" i]
      by (simp add: is_ascii_digit_def byte_values)
    then have "parse_integer (moved c 1) = (Ok i, moved c (1 + ?n))"
      using 2 parse_integer_of_int_spec [of "moved c 1" i ?n] by simp
    moreover have "accept_single [byte CHR ''e''] (moved c (1 + ?n)) = (Some (byte CHR ''e''), moved c (2 + ?n))"
      using c(2) by (simp add: accept_single_eq)
    moreover have "scan_peek c = Some (byte CHR ''i'')" using scan_peek_hd [OF c] by simp
    ultimately show ?thesis
      using c by (simp add: go_decode_value.simps [of c] go_decode_integer_def accept_single_eq [of _ c])
  qed
  then show ?case by (simp add: go_decodes_def)
next
  case (3 vs)
  have "go_decode_value c = Ok (List vs, moved c (length (encode (List vs))))"
    if c: "wf_cursor c" "suffix c = encode (List vs) @ rest" for c rest
  proof -
    have "list_all go_decodes vs" using 3 by (auto simp: list_all_iff)
    moreover have "wf_cursor (moved c 1)" using c wf_cursor_after [of c "[byte CHR ''l'']"] by simp
    ultimately have "go_list_loop [] (moved c 1) =
        Ok (List vs, moved (moved c 1) (length (concat (map encode vs)) + 1))"
      using c go_list_loop_encode [of vs "moved c 1" rest "[]"] by simp
    with c scan_peek_hd [OF c] show ?thesis
      by (simp add: go_decode_value.simps [of c] go_decode_list.simps [of c] accept_single_eq byte_values)
  qed
  then show ?case by (simp add: go_decodes_def)
next
  case (4 m)
  have "go_decode_value c = Ok (Dict m, moved c (length (encode (Dict m))))"
    if c: "wf_cursor c" "suffix c = encode (Dict m) @ rest" for c rest
  proof -
    have "list_all (\<lambda>(k, v). wf_bytes k \<and> go_decodes v) m"
      using 4 by (fastforce simp: list_all_iff)
    moreover have "wf_cursor (moved c 1)" using c wf_cursor_after [of c "[byte CHR ''d'']"] by simp
    moreover have "suffix (moved c 1) = concat (map encode_entry m) @ byte CHR ''e'' # rest"
      using c by (simp add: encode_entry_def)
    moreover have "insert_entries [] m = m"
      using 4 foldl_bt_insert_ascending [of "[]" m] by simp
    ultimately have "go_dict_loop [] (moved c 1) =
        Ok (Dict m, moved (moved c 1) (length (concat (map encode_entry m)) + 1))"
      using go_dict_loop_encode [of m "moved c 1" rest "[]"] by simp
    with c scan_peek_hd [OF c] show ?thesis
      by (simp add: go_decode_value.simps [of c] go_decode_dict.simps [of c] accept_single_eq byte_values
          encode_entry_def)
  qed
  then show ?case by (simp add: go_decodes_def)
qed

lemma go_decode_encode_append:
  assumes "wf_bencode v" "no_min v" "wf_bytes (encode v @ rest)"
  shows "go_decode (encode v @ rest) = Ok v"
  using wf_go_decodes [OF assms(1,2)] wf_cursor_new [OF assms(3)]
  by (simp add: go_decode_def go_decodes_def)

text \<open>\<open>decodeBencodeDict\<close> on an encoded dictionary.\<close>

lemma go_decode_top_dict_encode:
  assumes "wf_bencode (Dict m)" "no_min (Dict m)" "wf_bytes (encode (Dict m) @ rest)"
  shows "go_decode_top_dict (encode (Dict m) @ rest) = Ok (Dict m)"
proof -
  let ?c = "cursor_new (encode (Dict m) @ rest)"
  have "hd (encode (Dict m)) = byte CHR ''d''" by simp
  then have "go_decode_value ?c = go_decode_dict ?c"
    using scan_peek_hd [OF wf_cursor_new [OF assms(3)], of "encode (Dict m)" rest]
    by (simp add: go_decode_value.simps [of ?c] byte_values del: encode.simps(4))
  then show ?thesis
    using go_decode_encode_append [OF assms] unfolding go_decode_def go_decode_top_dict_def by simp
qed

section \<open>A length that wraps\<close>

text \<open>
  A run-time panic in the decoder: a string's length near the largest \<open>int\<close> makes the sum in
  \<open>acceptRun\<close> wrap, its check passes and the slice expression panics.
\<close>

lemma go_decode_panics:
  assumes "wf_bytes (bytes ''d9223372036854775807:'' @ rest)"
  shows "go_decode_top_dict (bytes ''d9223372036854775807:'' @ rest) = Crash IndexOutOfBounds"
proof -
  let ?ds = "bytes ''9223372036854775807''"
  have ds: "list_all is_ascii_digit ?ds" "int (numeral_value ?ds) = 9223372036854775807" "length ?ds = 19"
    "?ds \<noteq> []" "in_i64 (int (numeral_value ?ds))"
    by (simp_all add: bytes_def byte_def is_ascii_digit_def numeral_value_def digit_value_def in_i64_def)
  define c where "c = cursor_new (bytes ''d9223372036854775807:'' @ rest)"
  have wf: "wf_cursor c" using assms by (simp add: c_def)
  have "bytes ''d9223372036854775807:'' @ rest = byte CHR ''d'' # ?ds @ byte CHR '':'' # rest"
    by (simp add: bytes_def)
  then have c: "suffix c = byte CHR ''d'' # ?ds @ byte CHR '':'' # rest" "cur_position c = 0"
    by (simp_all add: c_def cursor_new_def suffix_def)
  let ?c1 = "moved c 1" and ?c2 = "moved c 20" and ?c3 = "moved c 21"
  have s1: "suffix ?c1 = ?ds @ byte CHR '':'' # rest" using c(1) by simp
  have "takeWhile is_ascii_digit (?ds @ byte CHR '':'' # rest) = ?ds"
    by (rule takeWhile_digits) (simp_all add: ds(1) is_ascii_digit_def byte_values)
  moreover have "hd ?ds \<noteq> byte CHR ''-''" "hd ?ds \<noteq> byte CHR ''+''" "hd ?ds \<noteq> byte CHR ''e''"
    by (simp_all add: bytes_def byte_def)
  ultimately have int: "parse_integer ?c1 = (Ok (word_of_int 9223372036854775807), ?c2)"
    and no_e: "accept_single (bytes ''e'') ?c1 = (None, ?c1)"
    using ds(2-5) s1 by (cases ?ds; auto simp: parse_integer_eq accept_single_eq with_sign_def Let_def)+
  have len: "sint (word_of_int 9223372036854775807 :: i64) = 9223372036854775807"
    by (rule sint_of_int_i64) (simp add: in_i64_def)
  have s2: "suffix ?c2 = byte CHR '':'' # rest"
  proof -
    have "suffix ?c2 = drop 19 (suffix ?c1)" by simp
    then show ?thesis unfolding s1 by (simp add: ds(3))
  qed
  have "left c = 21 + length rest" using arg_cong [OF c(1), of length] ds(3) by simp
  then have "wf_cursor ?c3" by (intro wf_cursor_moved [OF wf]) simp
  then have "accept_run (word_of_int 9223372036854775807) ?c3 = Crash IndexOutOfBounds"
    by (subst accept_run_eq) (simp_all add: len c(2))
  then have "go_decode_string ?c1 = Crash IndexOutOfBounds"
    unfolding go_decode_string_def int using s2 len by (simp add: accept_single_eq)
  then have "go_dict_loop [] ?c1 = Crash IndexOutOfBounds"
    unfolding go_dict_loop.simps [of _ ?c1] no_e by simp
  then show ?thesis
    unfolding go_decode_top_dict_def c_def [symmetric]
    using c by (simp add: go_decode_dict.simps [of c] accept_single_eq [of _ c])
qed

section \<open>Properties\<close>



text \<open>
  Go writes what Rust writes, so Rust reads it back. Go reads its own encodings back unless they
  contain the smallest integer, which it writes but cannot read.
\<close>

theorem go_encode_same:
  assumes "wf_bencode v" "wf_bytes (go_encode v @ rest)"
  shows "go_encode v = encode v \<and> decode (go_encode v @ rest) = Ok v \<and>
    (no_min v \<longrightarrow> go_decode (go_encode v @ rest) = Ok v) \<and>
    (\<forall>i. go_decode (go_encode (Integer i)) = (if sint i = - (2 ^ 63) then Err OutOfRange else Ok (Integer i)))"
proof (intro conjI allI impI)
  show eq: "go_encode v = encode v" by (rule go_encode_eq [OF assms(1)])
  with assms show "decode (go_encode v @ rest) = Ok v" by (simp add: decode_encode_append)
  show "go_decode (go_encode v @ rest) = Ok v" if "no_min v"
    using assms that by (simp add: eq go_decode_encode_append)
  show "go_decode (go_encode (Integer i)) = (if sint i = - (2 ^ 63) then Err OutOfRange else Ok (Integer i))" for i
    by (rule go_decode_integer)
qed

theorem go_encode_same_witness:
  "go_decode (go_encode sample @ bytes ''xyz'') = Ok sample \<and>
   go_decode (go_encode (Integer (- 9223372036854775808))) = Err OutOfRange"
proof -
  have "wf_bytes (go_encode sample @ bytes ''xyz'')" "sint (- 9223372036854775808 :: i64) = - (2 ^ 63)"
    "no_min sample"
    by code_simp+
  with go_encode_same [OF sample_wf(1) this(1)] show ?thesis by (metis (no_types))
qed

end
