(* ===== verification/Go_Node.thy ===== *)
theory Go_Node
  imports Node_Distance
begin

text \<open>
  Node ids and contacts of the Go implementation, \<open>go/node_info.go\<close>: the bits of an id, the common
  prefix, compact node infos and hexadecimal texts. A Go string is a list of bytes. An address is
  the part of \<open>net.UDPAddr\<close> that the code reads: the bytes of the IP, four or sixteen, and the port.
\<close>

section \<open>Ids\<close>

text \<open>\<open>n[index/8] & (1 << uint(7-index%8)) != 0\<close>; an index outside the array panics.\<close>

definition is_bit_set :: "node_id \<Rightarrow> nat \<Rightarrow> bool panics" where
  "is_bit_set n i = and_then (index_at n (i div 8)) (\<lambda>b. Ok (b AND push_bit (7 - i mod 8) 1 \<noteq> 0))"

text \<open>The loop over the twenty bytes breaks at the first that differs.\<close>

function go_prefix_loop :: "node_id \<Rightarrow> node_id \<Rightarrow> nat \<Rightarrow> nat \<Rightarrow> nat" where
  "go_prefix_loop a b i result =
     (if \<not> i < 20 then result
      else if a ! i \<noteq> b ! i then result + leading_zeros (a ! i XOR b ! i)
      else go_prefix_loop a b (i + 1) (result + 8))"
  by pat_completeness auto
termination
  by (relation "measure (\<lambda>(_, _, i, _). 20 - i)") auto

declare go_prefix_loop.simps [simp del]

definition go_common_prefix_length :: "node_id \<Rightarrow> node_id \<Rightarrow> nat" where
  "go_common_prefix_length a b = go_prefix_loop a b 0 0"

lemma id_bits_nth: "i < 8 * length n \<Longrightarrow> id_bits n ! i = bit (n ! (i div 8)) (7 - i mod 8)"
proof (induction n arbitrary: i)
  case (Cons b n)
  show ?case
  proof (cases "i < 8")
    case True
    then show ?thesis by (simp add: id_bits_def nth_append byte_bits_def rev_nth)
  next
    case False
    then have "(i - 8) div 8 = i div 8 - 1" "(i - 8) mod 8 = i mod 8" "0 < i div 8"
      by (simp_all add: le_div_geq le_mod_geq not_less)
    with False Cons.IH [of "i - 8"] Cons.prems show ?thesis
      by (simp add: id_bits_def nth_append nth_Cons')
  qed
qed simp

lemma is_bit_set_eq:
  assumes "wf_id n" "i < 160"
  shows "is_bit_set n i = Ok (id_bits n ! i)"
  using assms id_bits_nth [of i n]
  by (simp add: is_bit_set_def wf_id_def bit_iff_and_push_bit_not_eq_0 less_mult_imp_div_less)

lemma go_prefix_loop_eq:
  assumes "wf_id a" "wf_id b"
  shows "i \<le> 20 \<Longrightarrow> go_prefix_loop a b i r = count_zeros (map (\<lambda>i. a ! i XOR b ! i) [i..<20]) r"
proof (induction a b i r rule: go_prefix_loop.induct)
  case (1 a b i r)
  show ?case
  proof (cases "i < 20")
    case True
    then have "[i..<20] = i # [i + 1..<20]" by (simp add: upt_conv_Cons)
    moreover have "a ! i \<noteq> b ! i \<Longrightarrow> leading_zeros (a ! i XOR b ! i) < 8"
      using leading_zeros_bounds(2) [of "a ! i XOR b ! i"] by (auto simp: bit_eq_iff bit_xor_iff)
    ultimately show ?thesis
      using 1 True by (simp add: go_prefix_loop.simps [of a b i r] Let_def)
  next
    case False
    with 1(2) have "i = 20" by simp
    then show ?thesis by (simp add: go_prefix_loop.simps [of a b 20 r])
  qed
qed

lemma go_common_prefix_length_eq: "wf_id a \<Longrightarrow> wf_id b \<Longrightarrow> go_common_prefix_length a b = common_prefix_length a b"
  by (simp add: go_common_prefix_length_def common_prefix_length_def distance_def go_prefix_loop_eq)

section \<open>Contacts\<close>

record udp_addr =
  udp_ip :: "u8 list"
  udp_port :: nat

record node_info =
  info_id :: node_id
  info_address :: udp_addr

text \<open>The standard library: \<open>IP.To4\<close>, and \<open>net.IPv4\<close>, which builds the sixteen-byte form.\<close>

definition v4_prefix :: "u8 list" where
  "v4_prefix = replicate 10 0 @ [0xFF, 0xFF]"

definition to4 :: "u8 list \<Rightarrow> u8 list" where
  "to4 a =
     (if length a = 4 then a
      else if length a = 16 \<and> take 12 a = v4_prefix then drop 12 a
      else [])"

definition ipv4 :: "u8 \<Rightarrow> u8 \<Rightarrow> u8 \<Rightarrow> u8 \<Rightarrow> u8 list" where
  "ipv4 a b c d = v4_prefix @ [a, b, c, d]"

text \<open>\<open>binary.BigEndian.AppendUint16\<close> of \<open>uint16(port)\<close>, and \<open>BigEndian.Uint16\<close>.\<close>

definition put_u16 :: "nat \<Rightarrow> u8 list" where
  "put_u16 p = [of_nat (p mod 65536 div 256), of_nat (p mod 256)]"

definition get_u16 :: "u8 \<Rightarrow> u8 \<Rightarrow> nat" where
  "get_u16 a b = 256 * unat a + unat b"

definition compact_node_info :: "node_info \<Rightarrow> u8 list" where
  "compact_node_info n = info_id n @ to4 (udp_ip (info_address n)) @ put_u16 (udp_port (info_address n))"

definition decode_compact_node_info :: "u8 list \<Rightarrow> (node_info, string) outcome" where
  "decode_compact_node_info d =
     (if length d \<noteq> 26 then Err ''decoding compact node info''
      else Ok \<lparr>info_id = take 20 d,
               info_address = \<lparr>udp_ip = ipv4 (d ! 20) (d ! 21) (d ! 22) (d ! 23),
                 udp_port = get_u16 (d ! 24) (d ! 25)\<rparr>\<rparr>)"

lemma get_put_u16: "p < 65536 \<Longrightarrow> get_u16 (of_nat (p div 256)) (of_nat (p mod 256)) = p"
  by (simp add: get_u16_def unat_of_nat take_bit_nat_eq_self)

section \<open>Hexadecimal texts\<close>

text \<open>\<open>fmt.Sprintf("%02x", v)\<close> for a byte, and \<open>strconv.ParseUint(s, 16, 8)\<close> for two characters.\<close>

definition hex_digit :: "nat \<Rightarrow> u8" where
  "hex_digit d = (if d < 10 then byte CHR ''0'' + of_nat d else byte CHR ''a'' + of_nat (d - 10))"

definition hex_value :: "u8 \<Rightarrow> nat option" where
  "hex_value c =
     (if byte CHR ''0'' \<le> c \<and> c \<le> byte CHR ''9'' then Some (unat (c - byte CHR ''0''))
      else if byte CHR ''a'' \<le> c \<and> c \<le> byte CHR ''f'' then Some (unat (c - byte CHR ''a'') + 10)
      else if byte CHR ''A'' \<le> c \<and> c \<le> byte CHR ''F'' then Some (unat (c - byte CHR ''A'') + 10)
      else None)"

definition bytes_to_hex :: "u8 list \<Rightarrow> u8 list" where
  "bytes_to_hex bs = concat (map (\<lambda>v. [hex_digit (unat v div 16), hex_digit (unat v mod 16)]) bs)"

fun hex_pairs :: "u8 list \<Rightarrow> (u8 list, string) outcome" where
  "hex_pairs (a # b # s) =
     (case (hex_value a, hex_value b) of
        (Some x, Some y) \<Rightarrow> and_then (hex_pairs s) (\<lambda>bs. Ok (of_nat (16 * x + y) # bs))
      | _ \<Rightarrow> Err ''invalid syntax'')"
| "hex_pairs s = Ok []"

definition hex_to_bytes :: "u8 list \<Rightarrow> (u8 list, string) outcome" where
  "hex_to_bytes s =
     (if length s mod 2 \<noteq> 0 then Err ''hex string must have an even length'' else hex_pairs s)"

definition hex_to_node_id :: "u8 list \<Rightarrow> (node_id, string) outcome" where
  "hex_to_node_id s = (if length s \<noteq> 40 then Err ''invalid hex string length'' else hex_to_bytes s)"

lemma hex_value_hex_digit: "d < 16 \<Longrightarrow> hex_value (hex_digit d) = Some d"
proof -
  have "list_all (\<lambda>d. hex_value (hex_digit d) = Some d) [0..<16]" by code_simp
  then show "d < 16 \<Longrightarrow> ?thesis" by (simp add: list_all_iff)
qed

lemma hex_pairs_bytes_to_hex: "hex_pairs (bytes_to_hex bs) = Ok bs"
proof (induction bs)
  case (Cons b bs)
  have "unat b div 16 < 16" "unat b mod 16 < 16" using unat_lt_256 [of b] by simp_all
  moreover have "16 * (unat b div 16) + unat b mod 16 = unat b" by simp
  ultimately show ?case
    using Cons by (simp add: bytes_to_hex_def hex_value_hex_digit del: of_nat_add of_nat_mult)
qed (simp add: bytes_to_hex_def)

lemma length_bytes_to_hex: "length (bytes_to_hex bs) = 2 * length bs"
  by (induction bs) (simp_all add: bytes_to_hex_def)

section \<open>Properties\<close>

text \<open>
  Contacts and ids survive their text forms: a contact with an IPv4 address and a port is read
  back from its compact node info of 26 bytes, and an id from its forty hexadecimal digits.
\<close>

theorem compact_node_roundtrip:
  assumes "wf_id (info_id n)" "udp_ip (info_address n) = ipv4 a b c d" "udp_port (info_address n) < 65536"
  shows "length (compact_node_info n) = 26 \<and> decode_compact_node_info (compact_node_info n) = Ok n \<and>
    hex_to_node_id (bytes_to_hex (info_id n)) = Ok (info_id n)"
proof -
  have id: "length (info_id n) = 20" using assms(1) by (simp add: wf_id_def)
  have "to4 (ipv4 a b c d) = [a, b, c, d]" by (simp add: to4_def ipv4_def v4_prefix_def)
  then have enc: "compact_node_info n = info_id n @ [a, b, c, d] @ put_u16 (udp_port (info_address n))"
    by (simp add: compact_node_info_def assms(2))
  have len: "length (compact_node_info n) = 26" by (simp add: enc id put_u16_def)
  moreover have "decode_compact_node_info (compact_node_info n) = Ok n"
    unfolding decode_compact_node_info_def len
    using assms(2,3) id by (simp add: enc nth_append put_u16_def get_put_u16)
  moreover have "hex_to_node_id (bytes_to_hex (info_id n)) = Ok (info_id n)"
    by (simp add: hex_to_node_id_def hex_to_bytes_def length_bytes_to_hex id hex_pairs_bytes_to_hex)
  ultimately show ?thesis by blast
qed

theorem compact_node_roundtrip_witness:
  "decode_compact_node_info (compact_node_info
    \<lparr>info_id = replicate 20 7, info_address = \<lparr>udp_ip = ipv4 127 0 0 1, udp_port = 6881\<rparr>\<rparr>) =
   Ok \<lparr>info_id = replicate 20 7, info_address = \<lparr>udp_ip = ipv4 127 0 0 1, udp_port = 6881\<rparr>\<rparr>"
  using compact_node_roundtrip [of "\<lparr>info_id = replicate 20 7,
    info_address = \<lparr>udp_ip = ipv4 127 0 0 1, udp_port = 6881\<rparr>\<rparr>" 127 0 0 1]
  by (simp add: wf_id_def)

end
