(* ===== verification/Go_Routing.thy ===== *)
theory Go_Routing
  imports Go_Node
begin

text \<open>
  The routing table of the Go implementation, \<open>go/routing_bucket.go\<close> and \<open>go/routing_table.go\<close>. A
  bucket is a value that the operations copy; its slice of entries only ever grows at the end, so
  copies that share their array do not see each other's changes. The table's lock makes each
  operation one step. \<open>Crash\<close> is a run-time panic; \<open>addEntryRec\<close> recurses after each split.
\<close>

section \<open>Buckets\<close>

record go_bucket =
  bucket_size :: nat
  bucket_entries :: "node_info list"

definition new_bucket :: "nat \<Rightarrow> go_bucket" where
  "new_bucket k = \<lparr>bucket_size = k, bucket_entries = []\<rparr>"

fun contains_node_id :: "node_info list \<Rightarrow> node_id \<Rightarrow> bool" where
  "contains_node_id [] i = False"
| "contains_node_id (e # es) i = (if info_id e = i then True else contains_node_id es i)"

definition bucket_add :: "go_bucket \<Rightarrow> node_info \<Rightarrow> go_bucket \<times> bool" where
  "bucket_add b e =
     (if contains_node_id (bucket_entries b) (info_id e) then (b, True)
      else if length (bucket_entries b) \<ge> bucket_size b then (b, False)
      else (b\<lparr>bucket_entries := bucket_entries b @ [e]\<rparr>, True))"

fun entry_or_all :: "node_info list \<Rightarrow> node_info list \<Rightarrow> node_id \<Rightarrow> node_info list \<times> bool" where
  "entry_or_all all [] i = (all, False)"
| "entry_or_all all (e # es) i = (if info_id e = i then ([e], True) else entry_or_all all es i)"

definition get_entry_or_all :: "go_bucket \<Rightarrow> node_id \<Rightarrow> node_info list \<times> bool" where
  "get_entry_or_all b i = entry_or_all (bucket_entries b) (bucket_entries b) i"

text \<open>The loop of \<open>splitAt\<close>, with the bucket for the zeros and the one for the ones.\<close>

fun split_loop :: "nat \<Rightarrow> node_info list \<Rightarrow> go_bucket \<times> go_bucket \<Rightarrow> (go_bucket \<times> go_bucket) panics" where
  "split_loop pos [] zo = Ok zo"
| "split_loop pos (e # es) (zero, one) =
     and_then (is_bit_set (info_id e) pos) (\<lambda>set.
       split_loop pos es (if set then (zero, fst (bucket_add one e)) else (fst (bucket_add zero e), one)))"

definition split_at :: "go_bucket \<Rightarrow> nat \<Rightarrow> (go_bucket \<times> go_bucket) panics" where
  "split_at b pos =
     (if pos > 159 then Crash AssertFailed
      else split_loop pos (bucket_entries b) (new_bucket (bucket_size b), new_bucket (bucket_size b)))"

text \<open>\<open>String\<close>: the ids in hexadecimal, and forty dashes for each free place.\<close>

definition bucket_string :: "go_bucket \<Rightarrow> u8 list" where
  "bucket_string b = concat (map (\<lambda>i.
     (if i \<ge> length (bucket_entries b) then replicate 40 (byte CHR ''-'')
      else bytes_to_hex (info_id (bucket_entries b ! i))) @ [byte CHR '' '']) [0..<bucket_size b])"

section \<open>The table\<close>

record go_table =
  this_node :: node_info
  table_bucket_size :: nat
  table_buckets :: "go_bucket list"

definition new_routing_table :: "nat \<Rightarrow> node_info \<Rightarrow> go_table" where
  "new_routing_table k this =
     \<lparr>this_node = this, table_bucket_size = k, table_buckets = [new_bucket k]\<rparr>"

text \<open>
  \<open>len(t.table) - 1\<close> is -1 for an empty table, and indexing with it panics. A split makes the table
  longer, and \<open>splitAt\<close> panics beyond the last bit: the recursion ends.
\<close>

function add_entry :: "go_table \<Rightarrow> node_info \<Rightarrow> go_table panics" where
  "add_entry t e =
     (let max = length (table_buckets t) - 1;
          prefix = go_common_prefix_length (info_id (this_node t)) (info_id e);
          i = min prefix max in
      and_then (index_at (table_buckets t) i) (\<lambda>b.
        let (updated, success) = bucket_add b e in
        if success then Ok (t\<lparr>table_buckets := (table_buckets t)[i := updated]\<rparr>)
        else if prefix < max then Ok t
        else
          and_then (split_at b i) (\<lambda>(zero, one).
          and_then (is_bit_set (info_id (this_node t)) i) (\<lambda>own.
            let (near, far) = (if own then (one, zero) else (zero, one)) in
            add_entry (t\<lparr>table_buckets := (table_buckets t)[i := far] @ [near]\<rparr>) e))))"
  by pat_completeness auto
termination
  by (relation "measure (\<lambda>(t, _). 161 - length (table_buckets t))")
    (auto simp: split_at_def index_at_def split: if_splits)

declare add_entry.simps [simp del]

section \<open>The invariant\<close>

abbreviation own_id :: "go_table \<Rightarrow> node_id" where
  "own_id t \<equiv> info_id (this_node t)"

definition info_prefix :: "node_id \<Rightarrow> node_info \<Rightarrow> nat" where
  "info_prefix own e = common_prefix_length own (info_id e)"

text \<open>The last bucket of \<open>n\<close> holds all longer prefixes, every other one those of its index.\<close>

definition in_place :: "nat \<Rightarrow> nat \<Rightarrow> nat \<Rightarrow> bool" where
  "in_place n i p \<longleftrightarrow> i = min p (n - 1)"

definition wf_go_bucket :: "node_id \<Rightarrow> nat \<Rightarrow> nat \<Rightarrow> nat \<Rightarrow> go_bucket \<Rightarrow> bool" where
  "wf_go_bucket own k n i b \<longleftrightarrow> bucket_size b = k \<and> length (bucket_entries b) \<le> k \<and>
     distinct (map info_id (bucket_entries b)) \<and>
     (\<forall>e \<in> set (bucket_entries b). wf_id (info_id e) \<and> in_place n i (info_prefix own e))"

definition wf_go_table :: "go_table \<Rightarrow> bool" where
  "wf_go_table t \<longleftrightarrow> wf_id (own_id t) \<and> table_buckets t \<noteq> [] \<and> length (table_buckets t) \<le> 161 \<and>
     (\<forall>i < length (table_buckets t). wf_go_bucket (own_id t) (table_bucket_size t)
        (length (table_buckets t)) i (table_buckets t ! i))"

definition all_infos :: "go_table \<Rightarrow> node_info set" where
  "all_infos t = (\<Union>b \<in> set (table_buckets t). set (bucket_entries b))"

lemma wf_new_routing_table: "wf_id (info_id this) \<Longrightarrow> wf_go_table (new_routing_table k this)"
  by (simp add: wf_go_table_def wf_go_bucket_def new_routing_table_def new_bucket_def)

lemma contains_node_id_iff: "contains_node_id es i \<longleftrightarrow> i \<in> info_id ` set es"
  by (induction es) auto

lemma in_all_infos: "e \<in> all_infos t \<longleftrightarrow>
    (\<exists>i < length (table_buckets t). e \<in> set (bucket_entries (table_buckets t ! i)))"
  unfolding all_infos_def by (metis UN_iff in_set_conv_nth)

text \<open>Ids with at least \<open>k\<close> common bits agree in bit \<open>k\<close> exactly when they have more of them.\<close>

lemma prefix_bit:
  assumes "wf_id a" "wf_id b" "k \<le> common_prefix_length a b" "k < 160"
  shows "id_bits a ! k = id_bits b ! k \<longleftrightarrow> k < common_prefix_length a b"
  using assms lcp_nth [of k "id_bits a" "id_bits b"] lcp_differs [of "id_bits a" "id_bits b"]
  by (auto simp: common_prefix_length_eq length_id_bits le_eq_less_or_eq)

section \<open>Splitting a bucket\<close>

lemma split_loop_eq:
  assumes "pos < 160" "\<forall>e \<in> set es. wf_id (info_id e)"
    and "distinct (map info_id (bucket_entries zero @ bucket_entries one @ es))"
    and "length (bucket_entries zero) + length (bucket_entries one) + length es \<le> k"
    and "bucket_size zero = k" "bucket_size one = k"
  shows "split_loop pos es (zero, one) =
    Ok (zero\<lparr>bucket_entries := bucket_entries zero @ filter (\<lambda>e. \<not> id_bits (info_id e) ! pos) es\<rparr>,
        one\<lparr>bucket_entries := bucket_entries one @ filter (\<lambda>e. id_bits (info_id e) ! pos) es\<rparr>)"
  using assms
proof (induction es arbitrary: zero one)
  case Nil
  then show ?case by simp
next
  case (Cons e es)
  have bit: "is_bit_set (info_id e) pos = Ok (id_bits (info_id e) ! pos)"
    using Cons.prems(1,2) by (simp add: is_bit_set_eq)
  show ?case
  proof (cases "id_bits (info_id e) ! pos")
    case True
    have "fst (bucket_add one e) = one\<lparr>bucket_entries := bucket_entries one @ [e]\<rparr>"
      using Cons.prems by (auto simp: bucket_add_def contains_node_id_iff)
    with True bit Cons.IH [of zero "one\<lparr>bucket_entries := bucket_entries one @ [e]\<rparr>"] Cons.prems
    show ?thesis by auto
  next
    case False
    have "fst (bucket_add zero e) = zero\<lparr>bucket_entries := bucket_entries zero @ [e]\<rparr>"
      using Cons.prems by (auto simp: bucket_add_def contains_node_id_iff)
    with False bit Cons.IH [of "zero\<lparr>bucket_entries := bucket_entries zero @ [e]\<rparr>" one] Cons.prems
    show ?thesis by auto
  qed
qed

lemma split_at_eq:
  assumes "pos < 160" "wf_go_bucket own k n i b"
  shows "split_at b pos =
    Ok (\<lparr>bucket_size = k, bucket_entries = filter (\<lambda>e. \<not> id_bits (info_id e) ! pos) (bucket_entries b)\<rparr>,
        \<lparr>bucket_size = k, bucket_entries = filter (\<lambda>e. id_bits (info_id e) ! pos) (bucket_entries b)\<rparr>)"
  using assms split_loop_eq [of pos "bucket_entries b" "new_bucket k" "new_bucket k" k]
  by (simp add: split_at_def new_bucket_def wf_go_bucket_def not_less)

lemma in_place_Suc: "in_place n i p \<Longrightarrow> Suc i < n \<Longrightarrow> in_place (Suc n) i p"
  by (auto simp: in_place_def)

lemma wf_go_bucket_filter:
  assumes "wf_go_bucket own k n i b"
    and "\<And>e. e \<in> set (bucket_entries b) \<Longrightarrow> P e \<Longrightarrow> in_place n' i' (info_prefix own e)"
  shows "wf_go_bucket own k n' i' \<lparr>bucket_size = k, bucket_entries = filter P (bucket_entries b)\<rparr>"
  using assms by (auto simp: wf_go_bucket_def distinct_map_filter intro: le_trans [OF length_filter_le])

text \<open>
  The own bit tells the near half from the far one: the far half keeps the prefixes of length
  \<open>k\<close>, the near one takes the longer ones.
\<close>

lemma split_last:
  fixes t k
  defines "own \<equiv> own_id t" and "b \<equiv> last (table_buckets t)"
  assumes wf: "wf_go_table t" and k: "Suc k = length (table_buckets t)" "k < 160"
  obtains zero one near far where "split_at b k = Ok (zero, one)" "is_bit_set own k = Ok (id_bits own ! k)"
    "(if id_bits own ! k then (one, zero) else (zero, one)) = (near, far)"
    "wf_go_table (t\<lparr>table_buckets := (table_buckets t)[k := far] @ [near]\<rparr>)"
    "all_infos (t\<lparr>table_buckets := (table_buckets t)[k := far] @ [near]\<rparr>) = all_infos t"
proof -
  let ?es = "bucket_entries b" and ?size = "table_bucket_size t" and ?n = "length (table_buckets t)"
  let ?pick = "\<lambda>P. \<lparr>bucket_size = ?size, bucket_entries = filter P ?es\<rparr>"
  let ?same = "\<lambda>e. id_bits (info_id e) ! k = id_bits own ! k"
  have wf_own: "wf_id own" using wf by (simp add: wf_go_table_def own_def)
  have b: "b = table_buckets t ! k" 
    using wf last_conv_nth [of "table_buckets t"] by (simp add: b_def wf_go_table_def flip: k(1))
  have wf_b: "wf_go_bucket own ?size ?n k b"
    using wf k(1) by (simp add: wf_go_table_def own_def b)
  have longer: "k < info_prefix own e \<longleftrightarrow> ?same e" "k \<le> info_prefix own e" if "e \<in> set ?es" for e
  proof -
    have e: "wf_id (info_id e)" "in_place ?n k (info_prefix own e)"
      using wf_b that by (simp_all add: wf_go_bucket_def)
    then show "k \<le> info_prefix own e" using k(1) by (auto simp: in_place_def)
    with prefix_bit [OF wf_own e(1)] k(2) show "k < info_prefix own e \<longleftrightarrow> ?same e"
      by (auto simp: info_prefix_def)
  qed
  let ?far = "?pick (\<lambda>e. \<not> ?same e)" and ?near = "?pick ?same"
  let ?t = "t\<lparr>table_buckets := (table_buckets t)[k := ?far] @ [?near]\<rparr>"
  have halves: "wf_go_bucket own ?size (Suc ?n) k ?far" "wf_go_bucket own ?size (Suc ?n) ?n ?near"
    using longer k(1) by (force intro!: wf_go_bucket_filter [OF wf_b] simp: in_place_def)+
  have others: "wf_go_bucket own ?size (Suc ?n) i (table_buckets t ! i)" if "i < k" for i
  proof -
    have "wf_go_bucket own ?size ?n i (table_buckets t ! i)"
      using wf that k(1) by (simp add: wf_go_table_def own_def)
    then show ?thesis using in_place_Suc [of ?n i] that k(1) by (simp add: wf_go_bucket_def)
  qed
  have "wf_go_bucket own ?size (Suc ?n) i (((table_buckets t)[k := ?far] @ [?near]) ! i)"
    if "i < Suc ?n" for i
  proof -
    consider "i < k" | "i = k" | "i = ?n" using \<open>i < Suc ?n\<close> k(1) by linarith
    then show ?thesis
      by cases (use halves others k(1) in \<open>simp_all add: nth_append\<close>)
  qed
  then have "wf_go_table ?t" using wf k by (simp add: wf_go_table_def own_def)
  moreover have "all_infos ?t = all_infos t"
  proof -
    have "table_buckets t = butlast (table_buckets t) @ [b]" using wf by (simp add: b_def wf_go_table_def)
    then have "set (table_buckets t) = insert b (set (butlast (table_buckets t)))"
      by (metis insert_is_Un list.simps(15) list.set(1) set_append sup_commute)
    moreover have "(table_buckets t)[k := ?far] = butlast (table_buckets t) @ [?far]"
      by (metis \<open>table_buckets t = butlast (table_buckets t) @ [b]\<close> k(1) length_append_singleton
          length_butlast list_update_length diff_Suc_1)
    ultimately show ?thesis by (auto simp: all_infos_def)
  qed
  moreover have "split_at b k = Ok (?pick (\<lambda>e. \<not> id_bits (info_id e) ! k), ?pick (\<lambda>e. id_bits (info_id e) ! k))"
    by (rule split_at_eq [OF k(2) wf_b])
  moreover have "is_bit_set own k = Ok (id_bits own ! k)" by (rule is_bit_set_eq [OF wf_own k(2)])
  ultimately show thesis
    by (intro that [where near = ?near and far = ?far]) (auto intro!: filter_cong)
qed

section \<open>Adding an entry\<close>

definition home_of :: "go_table \<Rightarrow> node_info \<Rightarrow> nat" where
  "home_of t e = min (info_prefix (own_id t) e) (length (table_buckets t) - 1)"

lemma home_of_bucket:
  assumes "wf_go_table t"
  shows "home_of t e < length (table_buckets t)"
    "wf_go_bucket (own_id t) (table_bucket_size t) (length (table_buckets t)) (home_of t e)
      (table_buckets t ! home_of t e)"
proof -
  have "0 < length (table_buckets t)" using assms by (simp add: wf_go_table_def)
  then show "home_of t e < length (table_buckets t)" by (simp add: home_of_def min_less_iff_disj)
  with assms show "wf_go_bucket (own_id t) (table_bucket_size t) (length (table_buckets t)) (home_of t e)
      (table_buckets t ! home_of t e)"
    by (simp add: wf_go_table_def)
qed

text \<open>An entry is in the bucket for its prefix and in no other.\<close>

lemma at_home:
  assumes "wf_go_table t" "e \<in> all_infos t" "info_id e = info_id e'"
  shows "e \<in> set (bucket_entries (table_buckets t ! home_of t e'))"
proof -
  obtain i where "i < length (table_buckets t)" "e \<in> set (bucket_entries (table_buckets t ! i))"
    using assms(2) by (auto simp: in_all_infos)
  moreover from this have "in_place (length (table_buckets t)) i (info_prefix (own_id t) e)"
    using assms(1) by (simp add: wf_go_table_def wf_go_bucket_def)
  then have "i = home_of t e'" using assms(3) by (simp add: in_place_def home_of_def info_prefix_def)
  ultimately show ?thesis by simp
qed

text \<open>
  The outcome: nothing is lost; a new entry is added unless as many entries as a bucket holds have
  exactly its prefix length already.
\<close>

definition full_at :: "go_table \<Rightarrow> nat \<Rightarrow> bool" where
  "full_at t p \<longleftrightarrow> Suc p < length (table_buckets t) \<and>
     length (bucket_entries (table_buckets t ! p)) = table_bucket_size t"

definition add_outcome :: "go_table \<Rightarrow> node_info \<Rightarrow> go_table \<Rightarrow> bool" where
  "add_outcome t e t' \<longleftrightarrow>
     wf_go_table t' \<and> this_node t' = this_node t \<and> table_bucket_size t' = table_bucket_size t \<and>
     length (table_buckets t) \<le> length (table_buckets t') \<and>
     (if info_id e \<in> info_id ` all_infos t then all_infos t' = all_infos t
      else all_infos t' = insert e (all_infos t) \<or>
        all_infos t' = all_infos t \<and> full_at t' (info_prefix (own_id t) e))"

text \<open>At the end of the prefixes there is only one id.\<close>

lemma last_prefix_room:
  assumes "wf_id own" "wf_go_bucket own k 161 160 b" "0 < k"
    and "wf_id (info_id e)" "info_prefix own e = 160" "info_id e \<notin> info_id ` set (bucket_entries b)"
  shows "length (bucket_entries b) < k"
proof -
  have own: "info_id x = own" if "wf_id (info_id x)" "160 \<le> info_prefix own x" for x
    using that prefix_bounds(1,2) [OF assms(1) that(1)] by (simp add: info_prefix_def)
  have "bucket_entries b = []"
  proof (cases "bucket_entries b")
    case (Cons x xs)
    then have "info_id x = own" using assms(2) own [of x] by (auto simp: wf_go_bucket_def in_place_def)
    then show ?thesis using assms(4-6) own [of e] Cons by simp
  qed simp
  with assms(3) show ?thesis by simp
qed

lemma add_entry_outcome:
  assumes "wf_go_table t" "0 < table_bucket_size t" "wf_id (info_id e)"
  shows "\<exists>t'. add_entry t e = Ok t' \<and> add_outcome t e t'"
  using assms
proof (induction "161 - length (table_buckets t)" arbitrary: t rule: less_induct)
  case less
  note wf = less.prems(1)
  let ?own = "own_id t" and ?n = "length (table_buckets t)" and ?i = "home_of t e"
  let ?b = "table_buckets t ! ?i"
  have wf_own: "wf_id ?own" using wf by (simp add: wf_go_table_def)
  have prefix: "go_common_prefix_length ?own (info_id e) = info_prefix ?own e"
    using go_common_prefix_length_eq [OF wf_own less.prems(3)] by (simp add: info_prefix_def)
  note home = home_of_bucket [OF wf, of e]
  have known: "info_id e \<in> info_id ` all_infos t \<longleftrightarrow> info_id e \<in> info_id ` set (bucket_entries ?b)"
  proof
    assume "info_id e \<in> info_id ` all_infos t"
    then show "info_id e \<in> info_id ` set (bucket_entries ?b)" using at_home [OF wf, of _ e] by force
  next
    assume "info_id e \<in> info_id ` set (bucket_entries ?b)"
    then show "info_id e \<in> info_id ` all_infos t" using home(1) by (force simp: in_all_infos)
  qed
  have unfold: "add_entry t e =
    (let (updated, success) = bucket_add ?b e in
        if success then Ok (t\<lparr>table_buckets := (table_buckets t)[?i := updated]\<rparr>)
        else if info_prefix ?own e < ?n - 1 then Ok t
        else
          and_then (split_at ?b ?i) (\<lambda>(zero, one).
          and_then (is_bit_set ?own ?i) (\<lambda>own.
            let (near, far) = (if own then (one, zero) else (zero, one)) in
            add_entry (t\<lparr>table_buckets := (table_buckets t)[?i := far] @ [near]\<rparr>) e)))"
    by (subst add_entry.simps)
      (simp only: prefix Let_def home_of_def [symmetric] slice_simps(1) [OF home(1)] and_then.simps)
  consider (known) "info_id e \<in> info_id ` set (bucket_entries ?b)"
    | (room) "info_id e \<notin> info_id ` set (bucket_entries ?b)" "length (bucket_entries ?b) < table_bucket_size t"
    | (full) "info_id e \<notin> info_id ` set (bucket_entries ?b)" "length (bucket_entries ?b) = table_bucket_size t"
    using home(2) by (auto simp: wf_go_bucket_def le_eq_less_or_eq)
  then show ?case
  proof cases
    case known': known
    then have "add_entry t e = Ok t"
      using unfold by (simp add: bucket_add_def contains_node_id_iff Let_def)
    moreover have "add_outcome t e t" using known known' wf by (simp add: add_outcome_def)
    ultimately show ?thesis by blast
  next
    case room
    let ?u = "?b\<lparr>bucket_entries := bucket_entries ?b @ [e]\<rparr>"
    let ?t = "t\<lparr>table_buckets := (table_buckets t)[?i := ?u]\<rparr>"
    have "bucket_size ?b = table_bucket_size t" using home(2) by (simp add: wf_go_bucket_def)
    then have "add_entry t e = Ok ?t"
      using room unfold by (simp add: bucket_add_def contains_node_id_iff Let_def)
    moreover have "wf_go_bucket ?own (table_bucket_size t) ?n ?i ?u"
      using home(2) room less.prems(3) by (auto simp: wf_go_bucket_def in_place_def home_of_def)
    then have "wf_go_table ?t" using wf home(1) by (auto simp: wf_go_table_def nth_list_update)
    moreover have "all_infos ?t = insert e (all_infos t)"
      using home(1) by (auto simp: in_all_infos nth_list_update split: if_splits)
    ultimately show ?thesis using room known by (auto simp: add_outcome_def)
  next
    case full
    have size: "bucket_size ?b = table_bucket_size t" using home(2) by (simp add: wf_go_bucket_def)
    have add: "bucket_add ?b e = (?b, False)" using full size by (simp add: bucket_add_def contains_node_id_iff)
    show ?thesis
    proof (cases "info_prefix ?own e < ?n - 1")
      case True
      then have "?i = info_prefix ?own e" "Suc (info_prefix ?own e) < ?n" by (simp_all add: home_of_def)
      with True full known wf have "add_outcome t e t" by (simp add: add_outcome_def full_at_def)
      then show ?thesis using unfold add True by simp
    next
      case False
      then have i: "Suc ?i = ?n" using home(1) by (simp add: home_of_def)
      have "?i < 160"
      proof (rule ccontr)
        assume "\<not> ?i < 160"
        then have n: "?i = 160" "?n = 161" using wf i by (auto simp: wf_go_table_def)
        then have "info_prefix ?own e = 160"
          using prefix_bounds(1) [OF wf_own less.prems(3)] by (simp add: home_of_def info_prefix_def)
        with last_prefix_room [of ?own "table_bucket_size t" ?b e] home(2) n wf_own less.prems(2,3) full
        show False by simp
      qed
      have "table_buckets t \<noteq> []" using wf by (simp add: wf_go_table_def)
      then have last: "last (table_buckets t) = ?b" by (simp add: last_conv_nth flip: i)
      obtain zero one near far where split: "split_at ?b ?i = Ok (zero, one)"
        "is_bit_set ?own ?i = Ok (id_bits ?own ! ?i)"
        "(if id_bits ?own ! ?i then (one, zero) else (zero, one)) = (near, far)"
        "wf_go_table (t\<lparr>table_buckets := (table_buckets t)[?i := far] @ [near]\<rparr>)"
        "all_infos (t\<lparr>table_buckets := (table_buckets t)[?i := far] @ [near]\<rparr>) = all_infos t"
        using split_last [OF wf i \<open>?i < 160\<close>] unfolding last by metis
      let ?t = "t\<lparr>table_buckets := (table_buckets t)[?i := far] @ [near]\<rparr>"
      have "add_entry t e = add_entry ?t e"
        using add False split(1-3) by (simp add: unfold)
      moreover have "161 - length (table_buckets ?t) < 161 - ?n" using i \<open>?i < 160\<close> by simp
      then obtain t' where "add_entry ?t e = Ok t'" "add_outcome ?t e t'"
        using less.hyps [of ?t] split(4) less.prems(2,3) i \<open>?i < 160\<close> by auto
      moreover from this(2) have "add_outcome t e t'" using split(5) by (auto simp: add_outcome_def)
      ultimately show ?thesis by auto
    qed
  qed
qed

end
