(* ===== verification/Routing_Invariant.thy ===== *)
theory Routing_Invariant
  imports Routing_Table
begin

text \<open>
  The invariant of the routing table and the case analysis of \<open>update\<close>. The buckets tile the
  prefix lengths 0 to 159 in order: every bucket but the last holds one prefix length, the
  last one the rest. Each contact is in the bucket of its prefix length, once.
\<close>

section \<open>The invariant\<close>

abbreviation contents :: "bucket \<Rightarrow> routing_entry list" where
  "contents b \<equiv> view (entries b)"

abbreviation entry_id :: "routing_entry \<Rightarrow> node_id" where
  "entry_id e \<equiv> contact_id (node e)"

definition entry_prefix :: "node_id \<Rightarrow> routing_entry \<Rightarrow> nat" where
  "entry_prefix ref e = common_prefix_length ref (entry_id e)"

definition wf_bucket :: "node_id \<Rightarrow> bucket \<Rightarrow> bool" where
  "wf_bucket ref b \<longleftrightarrow> wf_vec (entries b) \<and> distinct (map entry_id (contents b)) \<and>
     (\<forall>e \<in> set (contents b). wf_id (entry_id e) \<and> contains (bounds b) (entry_prefix ref e))"

definition table_bounds :: "nat \<Rightarrow> nat \<Rightarrow> range_u32" where
  "table_bounds n i = \<lparr>range_start = i, range_end = (if Suc i = n then 160 else Suc i)\<rparr>"

definition wf_table :: "routing_table \<Rightarrow> bool" where
  "wf_table rt \<longleftrightarrow> wf_id (reference_id rt) \<and> buckets rt \<noteq> [] \<and> length (buckets rt) \<le> 160 \<and>
     (\<forall>i < length (buckets rt). bounds (buckets rt ! i) = table_bounds (length (buckets rt)) i \<and>
        wf_bucket (reference_id rt) (buckets rt ! i))"

text \<open>The index of the bucket for a prefix length in a table of \<open>n\<close> buckets.\<close>

definition bucket_index :: "nat \<Rightarrow> nat \<Rightarrow> nat" where
  "bucket_index n p = min p (n - 1)"

lemma bucket_index_less: "0 < n \<Longrightarrow> bucket_index n p < n"
  by (simp add: bucket_index_def)

lemma contains_table_bounds:
  "i < n \<Longrightarrow> n \<le> 160 \<Longrightarrow> p < 160 \<Longrightarrow> contains (table_bounds n i) p \<longleftrightarrow> i = bucket_index n p"
  by (auto simp: contains_def table_bounds_def bucket_index_def)

lemma table_bounds_end: "i < n \<Longrightarrow> n \<le> 160 \<Longrightarrow> range_end (table_bounds n i) \<le> 160"
  by (auto simp: table_bounds_def)

lemma wf_tableD:
  assumes "wf_table rt"
  shows "wf_id (reference_id rt)" "buckets rt \<noteq> []" "0 < length (buckets rt)"
    "length (buckets rt) \<le> 160"
    and "i < length (buckets rt) \<Longrightarrow> bounds (buckets rt ! i) = table_bounds (length (buckets rt)) i"
    and "i < length (buckets rt) \<Longrightarrow> wf_bucket (reference_id rt) (buckets rt ! i)"
  using assms by (auto simp: wf_table_def)

lemma bucket_for_wf:
  assumes "wf_table rt" "p < 160"
  shows "bucket_for (buckets rt) p =
    Ok (bucket_index (length (buckets rt)) p, buckets rt ! bucket_index (length (buckets rt)) p)"
proof -
  let ?n = "length (buckets rt)" and ?k = "bucket_index (length (buckets rt)) p"
  have k: "?k < ?n" using wf_tableD(3) [OF assms(1)] by (rule bucket_index_less)
  have "contains (bounds (buckets rt ! i)) p \<longleftrightarrow> i = ?k" if "i < ?n" for i
    using that assms wf_tableD(4,5) by (simp add: contains_table_bounds)
  then have "iter_position (\<lambda>b. contains (bounds b) p) (buckets rt) = Some ?k"
    using k by (intro iter_position_SomeI) auto
  then show ?thesis by (simp add: bucket_for_def)
qed

text \<open>No bucket holds prefix length 160, the node's own id.\<close>

lemma bucket_for_own:
  assumes "wf_table rt"
  shows "bucket_for (buckets rt) 160 = Crash ExpectFailed"
proof -
  have "\<not> contains (bounds b) 160" if "b \<in> set (buckets rt)" for b
    using that wf_tableD(4,5) [OF assms] table_bounds_end
    by (fastforce simp: in_set_conv_nth contains_def)
  then have "iter_position (\<lambda>b. contains (bounds b) 160) (buckets rt) = None"
    by (simp add: iter_position_None_iff)
  then show ?thesis by (simp add: bucket_for_def)
qed

lemma wf_table_new: "wf_id ref \<Longrightarrow> wf_table (table_new ref)"
  by (simp add: wf_table_def table_new_def bucket_new_def table_bounds_def wf_bucket_def)

section \<open>Draining a bucket\<close>

lemma contents_swap_remove_prefix:
  assumes "wf_vec es" "i < length (view es)" "swap_remove es i = Ok (x, es')" "j < i"
  shows "view es' ! j = view es ! j"
  using swap_remove_OkD(3) [OF assms(1-3)] assms(2,4) by (simp add: nth_butlast del: length_view)

lemma drain_upper_spec:
  assumes "wf_vec es" "wf_vec drained" "i \<le> length (view es)"
    and "length (view es) + length (view drained) \<le> BUCKET_SIZE"
    and "\<forall>j < i. \<not> contains ub (entry_prefix ref (view es ! j))"
  shows "\<exists>es' drained'. drain_upper ref ub i es drained = Ok (es', drained') \<and>
    wf_vec es' \<and> wf_vec drained' \<and>
    mset (view es') = filter_mset (\<lambda>e. \<not> contains ub (entry_prefix ref e)) (mset (view es)) \<and>
    mset (view drained') = mset (view drained) +
      filter_mset (\<lambda>e. contains ub (entry_prefix ref e)) (mset (view es))"
  using assms
proof (induction "length (view es) - i" arbitrary: i es drained)
  case 0
  then have i: "i = length (view es)" by simp
  then have "\<forall>e \<in># mset (view es). \<not> contains ub (entry_prefix ref e)"
    using "0.prems"(5) by (auto simp: in_set_conv_nth)
  then have "filter_mset (\<lambda>e. \<not> contains ub (entry_prefix ref e)) (mset (view es)) = mset (view es)"
    "filter_mset (\<lambda>e. contains ub (entry_prefix ref e)) (mset (view es)) = {#}"
    by (auto simp: filter_mset_eq_conv)
  with 0 i show ?case by (simp add: drain_upper.simps [of ref ub "vec_length es" es])
next
  case (Suc n)
  let ?e = "view es ! i"
  have i: "i < length (view es)" using Suc.hyps(2) by simp
  then have unfold: "drain_upper ref ub i es drained =
      (if contains ub (entry_prefix ref ?e)
       then and_then (swap_remove es i) (\<lambda>(x, es). and_then (push drained x) (\<lambda>drained.
         drain_upper ref ub i es drained))
       else drain_upper ref ub (i + 1) es drained)"
    using Suc.prems(1)
    by (simp add: drain_upper.simps [of ref ub i es] index_vec_view entry_prefix_def)
  show ?case
  proof (cases "contains ub (entry_prefix ref ?e)")
    case True
    obtain es' where es': "swap_remove es i = Ok (?e, es')" "wf_vec es'"
      "mset (view es) = add_mset ?e (mset (view es'))" "length (view es) = Suc (length (view es'))"
      using fixed.take_out_mset [OF Suc.prems(1) i] by blast
    obtain d' where d': "push drained ?e = Ok d'" "wf_vec d'" "view d' = view drained @ [?e]"
      using push_view [OF Suc.prems(2), of ?e] Suc.prems(4) es'(4) by auto
    have "\<forall>j < i. \<not> contains ub (entry_prefix ref (view es' ! j))"
      using Suc.prems(5) contents_swap_remove_prefix [OF Suc.prems(1) i es'(1)] by simp
    moreover have "n = length (view es') - i" "i \<le> length (view es')"
      "length (view es') + length (view d') \<le> BUCKET_SIZE"
      using Suc.hyps(2) Suc.prems(4) es'(4) d'(3) i by simp_all
    ultimately obtain es'' d'' where "drain_upper ref ub i es' d' = Ok (es'', d'')"
      "wf_vec es''" "wf_vec d''"
      "mset (view es'') = filter_mset (\<lambda>e. \<not> contains ub (entry_prefix ref e)) (mset (view es'))"
      "mset (view d'') = mset (view d') +
        filter_mset (\<lambda>e. contains ub (entry_prefix ref e)) (mset (view es'))"
      using Suc.hyps(1) [of es' i d'] es'(2) d'(2) by blast
    with True unfold es' d' show ?thesis by simp
  next
    case False
    have "\<forall>j < i + 1. \<not> contains ub (entry_prefix ref (view es ! j))"
      using Suc.prems(5) False by (auto simp: less_Suc_eq)
    with Suc.hyps(1) [of es "i + 1" drained] Suc.hyps(2) Suc.prems i False unfold
    show ?thesis by simp
  qed
qed

section \<open>Splitting a bucket\<close>

lemma contains_upper_iff:
  assumes "wf_bucket ref b" "bounds b = \<lparr>range_start = k, range_end = hi\<rparr>" "e \<in> set (contents b)"
  shows "contains \<lparr>range_start = Suc k, range_end = hi\<rparr> (entry_prefix ref e) \<longleftrightarrow>
    entry_prefix ref e \<noteq> k"
  using assms by (auto simp: wf_bucket_def contains_def)

lemma deque_insert_after_last:
  "bs \<noteq> [] \<Longrightarrow> Suc k = length bs \<Longrightarrow> deque_insert (bs[k := lo]) (Suc k) up = Ok (butlast bs @ [lo, up])"
  by (cases bs rule: rev_cases) (simp_all add: deque_insert_def)

lemma filter_mset_all: "(\<And>x. x \<in># M \<Longrightarrow> P x) \<Longrightarrow> filter_mset P M = M"
  by (induction M) auto

lemma filter_mset_none: "(\<And>x. x \<in># M \<Longrightarrow> \<not> P x) \<Longrightarrow> filter_mset P M = {#}"
  by (induction M) auto

lemma size_filter_full:
  assumes "size (filter_mset P M) = size M"
  shows "\<forall>x \<in># M. P x"
  using assms by (metis filter_mset_eq_conv multiset_filter_subset multi_subset_induct
      subset_mset.le_imp_less_or_eq mset_subset_size less_irrefl)

lemma drain_split:
  assumes "wf_vec es" "length (view es) = BUCKET_SIZE"
    and up: "\<And>x. x \<in> set (view es) \<Longrightarrow> contains ub (entry_prefix ref x) \<longleftrightarrow> entry_prefix ref x \<noteq> k"
  obtains lo up where "drain_upper ref ub 0 es new_vec = Ok (lo, up)" "wf_vec lo" "wf_vec up"
    "mset (view lo) = filter_mset (\<lambda>x. entry_prefix ref x = k) (mset (view es))"
    "mset (view up) = filter_mset (\<lambda>x. entry_prefix ref x \<noteq> k) (mset (view es))"
    "length (view lo) + length (view up) = BUCKET_SIZE"
proof -
  obtain lo up' where lu: "drain_upper ref ub 0 es new_vec = Ok (lo, up')" "wf_vec lo" "wf_vec up'"
    and m: "mset (view lo) = filter_mset (\<lambda>e. \<not> contains ub (entry_prefix ref e)) (mset (view es))"
    "mset (view up') = filter_mset (\<lambda>e. contains ub (entry_prefix ref e)) (mset (view es))"
    using drain_upper_spec [OF assms(1) wf_new_vec, of 0 ub ref] assms(2) by auto
  have "mset (view lo) + mset (view up') = mset (view es)"
    unfolding m by (simp add: add.commute multiset_partition [symmetric])
  then have "length (view lo) + length (view up') = BUCKET_SIZE"
    using assms(2) by (metis size_mset size_union)
  moreover have "mset (view lo) = filter_mset (\<lambda>x. entry_prefix ref x = k) (mset (view es))"
    "mset (view up') = filter_mset (\<lambda>x. entry_prefix ref x \<noteq> k) (mset (view es))"
    unfolding m using up by (auto intro!: filter_mset_cong)
  ultimately show thesis using that lu by blast
qed

text \<open>Splitting the last bucket, with the draining done: the three branches of the code.\<close>

lemma split_bucket_last:
  fixes rt
  defines "b \<equiv> last (buckets rt)"
  assumes last: "Suc k = length (buckets rt)" "k < 159" and p: "k \<le> p" "p < 160"
    and bnd: "bounds b = \<lparr>range_start = k, range_end = 160\<rparr>"
    and drain: "drain_upper (reference_id rt) \<lparr>range_start = Suc k, range_end = 160\<rparr> 0 (entries b) new_vec =
      Ok (lo, up)"
    and up: "append new_vec up = Ok up'"
  shows "split_bucket rt k b p e =
    (if is_not_full lo \<and> p = k then
       and_then (push lo e) (\<lambda>lo. Ok (rt\<lparr>buckets := butlast (buckets rt) @
         [\<lparr>entries = lo, bounds = \<lparr>range_start = k, range_end = Suc k\<rparr>\<rparr>,
          \<lparr>entries = up', bounds = \<lparr>range_start = Suc k, range_end = 160\<rparr>\<rparr>]\<rparr>))
     else if is_not_full up \<and> p \<noteq> k then
       and_then (push up' e) (\<lambda>up. Ok (rt\<lparr>buckets := butlast (buckets rt) @
         [\<lparr>entries = lo, bounds = \<lparr>range_start = k, range_end = Suc k\<rparr>\<rparr>,
          \<lparr>entries = up, bounds = \<lparr>range_start = Suc k, range_end = 160\<rparr>\<rparr>]\<rparr>))
     else and_then (append lo up) (\<lambda>v. Ok (set_entries rt k b v)))"
proof -
  have ins: "deque_insert ((buckets rt)[k := x]) (Suc k) y = Ok (butlast (buckets rt) @ [x, y])" for x y
    using last(1) by (intro deque_insert_after_last) auto
  have half: "contains \<lparr>range_start = k, range_end = Suc k\<rparr> p \<longleftrightarrow> p = k"
    "contains \<lparr>range_start = Suc k, range_end = 160\<rparr> p \<longleftrightarrow> p \<noteq> k"
    using p by (auto simp: contains_def)
  have width: "u32_sub 160 k = Ok (160 - k)" "1 < 160 - k" "u32_add k 1 = Ok (Suc k)"
    using last(2) by simp_all
  show ?thesis
    using drain up width(2)
    by (simp add: split_bucket_def bnd ins half bucket_new_def set_entries_def Let_def width(1,3))
qed

text \<open>Putting the drained entries back, when all of them fell into the same half.\<close>

lemma put_back:
  assumes "wf_vec lo" "wf_vec up" "view lo = [] \<or> view up = []"
    and "mset (view lo) = filter_mset P M" "mset (view up) = filter_mset (\<lambda>x. \<not> P x) M"
  obtains v where "append lo up = Ok v" "wf_vec v" "mset (view v) = M"
    "(view up = [] \<longrightarrow> (\<forall>x \<in># M. P x)) \<and> (view lo = [] \<longrightarrow> (\<forall>x \<in># M. \<not> P x))"
proof -
  have "length (view lo) + length (view up) \<le> BUCKET_SIZE"
    using assms(3) view_bound [OF assms(1)] view_bound [OF assms(2)] by auto
  then obtain v where "append lo up = Ok v" "wf_vec v" "view v = view lo @ view up"
    using append_view [OF assms(1,2)] assms(3) by blast
  moreover from this have "mset (view v) = M"
    using assms(4,5) by (simp add: multiset_partition [symmetric])
  moreover have "view up = [] \<longrightarrow> (\<forall>x \<in># M. P x)" "view lo = [] \<longrightarrow> (\<forall>x \<in># M. \<not> P x)"
    using arg_cong [OF assms(4), of set_mset] arg_cong [OF assms(5), of set_mset] by auto
  ultimately show thesis using that by blast
qed

lemma split_bucket_cases:
  fixes rt e
  defines "bs \<equiv> buckets rt" and "ref \<equiv> reference_id rt"
  defines "n \<equiv> length bs" and "p \<equiv> entry_prefix ref e"
  assumes wf: "wf_table rt" and k: "k < n" and p: "p < 160" "k = bucket_index n p"
    and full: "length (contents (bs ! k)) = BUCKET_SIZE"
  obtains
    (split) lo up where "Suc k = n" "n < 160"
      "split_bucket rt k (bs ! k) p e = Ok (rt\<lparr>buckets := butlast bs @ [lo, up]\<rparr>)"
      "wf_vec (entries lo)" "wf_vec (entries up)"
      "bounds lo = table_bounds (Suc n) k" "bounds up = table_bounds (Suc n) (Suc k)"
      "mset (contents lo) =
        filter_mset (\<lambda>x. entry_prefix ref x = k) (mset (e # contents (bs ! k)))"
      "mset (contents up) =
        filter_mset (\<lambda>x. entry_prefix ref x \<noteq> k) (mset (e # contents (bs ! k)))"
  | (discard) v where "split_bucket rt k (bs ! k) p e = Ok (set_entries rt k (bs ! k) v)" "wf_vec v"
      "mset (view v) = mset (contents (bs ! k))"
      "Suc k < n \<or> k = 159 \<or> (\<forall>x \<in> set (e # contents (bs ! k)). entry_prefix ref x = k) \<or>
        (\<forall>x \<in> set (e # contents (bs ! k)). entry_prefix ref x \<noteq> k)"
proof -
  let ?b = "bs ! k"
  have nonempty: "bs \<noteq> []" and n160: "n \<le> 160" and wfb: "wf_bucket ref ?b"
    and bounds: "bounds ?b = table_bounds n k"
    using wf_tableD [OF wf] k by (simp_all add: bs_def ref_def n_def)
  have wfv: "wf_vec (entries ?b)" using wfb by (simp add: wf_bucket_def)
  show thesis
  proof (cases "Suc k = n \<and> k \<noteq> 159")
    case False
    then have "split_bucket rt k ?b p e = Ok rt"
      using k n160 by (auto simp: split_bucket_def bounds table_bounds_def)
    moreover have "set_entries rt k ?b (entries ?b) = rt"
      by (simp add: set_entries_def bs_def)
    ultimately have "split_bucket rt k ?b p e = Ok (set_entries rt k ?b (entries ?b))" by simp
    then show thesis by (rule discard) (use False k wfv in auto)
  next
    case True
    then have last: "Suc k = n" "k < 159" using n160 by auto
    have pk: "k \<le> p" using p(2) last by (simp add: bucket_index_def)
    have bnd: "bounds ?b = \<lparr>range_start = k, range_end = 160\<rparr>"
      using last by (simp add: bounds table_bounds_def)
    let ?lb = "\<lparr>range_start = k, range_end = Suc k\<rparr>" and ?ub = "\<lparr>range_start = Suc k, range_end = 160\<rparr>"
    obtain lo up where drain: "drain_upper ref ?ub 0 (entries ?b) new_vec = Ok (lo, up)"
      and wflu: "wf_vec lo" "wf_vec up"
      and mlo: "mset (view lo) = filter_mset (\<lambda>x. entry_prefix ref x = k) (mset (contents ?b))"
      and mup: "mset (view up) = filter_mset (\<lambda>x. entry_prefix ref x \<noteq> k) (mset (contents ?b))"
      and size: "length (view lo) + length (view up) = BUCKET_SIZE"
      using drain_split [OF wfv full contains_upper_iff [OF wfb bnd]] by metis
    obtain up' where up': "append new_vec up = Ok up'" "wf_vec up'" "view up' = view up"
      using append_view [OF wf_new_vec wflu(2)] by auto
    have "k = length bs - 1" using last(1) by (simp add: n_def)
    then have b: "?b = last (buckets rt)" using nonempty by (simp add: bs_def last_conv_nth)
    note branches = split_bucket_last [where rt = rt and k = k and p = p and e = e,
      folded b, OF last(1) [unfolded n_def bs_def] last(2) pk p(1) bnd drain [unfolded ref_def] up'(1)]
    have tb: "?lb = table_bounds (Suc n) k" "?ub = table_bounds (Suc n) (Suc k)"
      using last by (auto simp: table_bounds_def)
    consider "is_not_full lo \<and> p = k" | "is_not_full up \<and> p \<noteq> k"
      | "\<not> (is_not_full lo \<and> p = k)" "\<not> (is_not_full up \<and> p \<noteq> k)" by blast
    then show thesis
    proof cases
      case 1
      then obtain lo' where "push lo e = Ok lo'" "wf_vec lo'" "view lo' = view lo @ [e]"
        using push_view [OF wflu(1), of e] by (auto simp: is_not_full_iff [OF wflu(1)])
      with 1 branches tb mlo mup up' last show thesis
        by (intro split [of "\<lparr>entries = lo', bounds = ?lb\<rparr>" "\<lparr>entries = up', bounds = ?ub\<rparr>"])
          (auto simp: p_def bs_def)
    next
      case 2
      then obtain up'' where "push up' e = Ok up''" "wf_vec up''" "view up'' = view up @ [e]"
        using push_view [OF up'(2), of e] up'(3) by (auto simp: is_not_full_iff [OF wflu(2)])
      with 2 branches tb mlo mup wflu last show thesis
        by (intro split [of "\<lparr>entries = lo, bounds = ?lb\<rparr>" "\<lparr>entries = up'', bounds = ?ub\<rparr>"])
          (auto simp: p_def bs_def)
    next
      case 3
      then have empty: "if p = k then view up = [] else view lo = []"
        using size wflu view_bound [OF wflu(1)] view_bound [OF wflu(2)]
        by (auto simp: is_not_full_iff split: if_splits)
      then have "view lo = [] \<or> view up = []" by (simp split: if_splits)
      then obtain v where v: "append lo up = Ok v" "wf_vec v" "mset (view v) = mset (contents ?b)"
        and same: "(view up = [] \<longrightarrow> (\<forall>x \<in># mset (contents ?b). entry_prefix ref x = k)) \<and>
          (view lo = [] \<longrightarrow> (\<forall>x \<in># mset (contents ?b). entry_prefix ref x \<noteq> k))"
        by (rule put_back [OF wflu _ mlo mup])
      have "split_bucket rt k ?b p e = Ok (set_entries rt k ?b v)"
        by (simp only: branches 3 if_False v(1) and_then.simps)
      moreover have "(\<forall>x \<in> set (e # contents ?b). entry_prefix ref x = k) \<or>
          (\<forall>x \<in> set (e # contents ?b). entry_prefix ref x \<noteq> k)"
      proof (cases "p = k")
        case True
        then have "view up = []" "entry_prefix ref e = k" using empty by (simp_all add: p_def)
        then show ?thesis using same by auto
      next
        case False
        then have "view lo = []" "entry_prefix ref e \<noteq> k" using empty by (simp_all add: p_def)
        then show ?thesis using same by auto
      qed
      ultimately show thesis using discard [OF _ v(2,3)] by blast
    qed
  qed
qed

end
