(* ===== verification/Routing_Update.thy ===== *)
theory Routing_Update
  imports Routing_Invariant
begin

text \<open>
  \<open>update\<close> implements the k-bucket discipline. The abstract table is the list of the buckets'
  multisets of entries, and \<open>table_step\<close> the five things an update may do to it: refresh a
  known node, insert into a bucket with room, replace a bad entry, split the last bucket, or
  discard the new node. On a well-formed table \<open>update\<close> never panics unless the node has the
  table's own id, keeps the invariant, and makes such a step.
\<close>

section \<open>The abstract table\<close>

type_synonym table_spec = "routing_entry multiset list"

definition abs_table :: "routing_table \<Rightarrow> table_spec" where
  "abs_table rt = map (\<lambda>b. mset (contents b)) (buckets rt)"

definition seen_entry :: "node_contact_info \<Rightarrow> seen_in \<Rightarrow> clock \<Rightarrow> routing_entry" where
  "seen_entry n seen clk = entry_update (entry_new n) seen (seen_now clk)"

definition home :: "node_id \<Rightarrow> node_contact_info \<Rightarrow> nat \<Rightarrow> nat" where
  "home ref n len = bucket_index len (common_prefix_length ref (contact_id n))"

definition bad_at :: "clock \<Rightarrow> nat \<Rightarrow> routing_entry \<Rightarrow> bool" where
  "bad_at clk i e \<longleftrightarrow> rating e (query_now clk i) (response_now clk i) = Bad"

inductive table_step ::
    "node_id \<Rightarrow> node_contact_info \<Rightarrow> seen_in \<Rightarrow> clock \<Rightarrow> table_spec \<Rightarrow> table_spec \<Rightarrow> bool"
  for ref n seen clk where
  refresh: "k = home ref n (length T) \<Longrightarrow> e \<in># T ! k \<Longrightarrow> entry_id e = contact_id n \<Longrightarrow>
    table_step ref n seen clk T
      (T[k := add_mset (entry_update e seen (seen_now clk)) (T ! k - {#e#})])"
| insert: "k = home ref n (length T) \<Longrightarrow> \<forall>e \<in># T ! k. entry_id e \<noteq> contact_id n \<Longrightarrow>
    size (T ! k) < BUCKET_SIZE \<Longrightarrow>
    table_step ref n seen clk T (T[k := add_mset (seen_entry n seen clk) (T ! k)])"
| replace: "k = home ref n (length T) \<Longrightarrow> \<forall>e \<in># T ! k. entry_id e \<noteq> contact_id n \<Longrightarrow>
    size (T ! k) = BUCKET_SIZE \<Longrightarrow> e \<in># T ! k \<Longrightarrow> bad_at clk i e \<Longrightarrow>
    table_step ref n seen clk T (T[k := add_mset (seen_entry n seen clk) (T ! k - {#e#})])"
| split: "k = home ref n (length T) \<Longrightarrow> \<forall>e \<in># T ! k. entry_id e \<noteq> contact_id n \<Longrightarrow>
    size (T ! k) = BUCKET_SIZE \<Longrightarrow> \<forall>e \<in># T ! k. \<exists>i. \<not> bad_at clk i e \<Longrightarrow>
    Suc k = length T \<Longrightarrow> length T < 160 \<Longrightarrow>
    both = add_mset (seen_entry n seen clk) (T ! k) \<Longrightarrow>
    table_step ref n seen clk T (butlast T @
      [filter_mset (\<lambda>e. entry_prefix ref e = k) both, filter_mset (\<lambda>e. entry_prefix ref e \<noteq> k) both])"
| discard: "k = home ref n (length T) \<Longrightarrow> \<forall>e \<in># T ! k. entry_id e \<noteq> contact_id n \<Longrightarrow>
    size (T ! k) = BUCKET_SIZE \<Longrightarrow> \<forall>e \<in># T ! k. \<exists>i. \<not> bad_at clk i e \<Longrightarrow>
    both = add_mset (seen_entry n seen clk) (T ! k) \<Longrightarrow>
    Suc k < length T \<or> k = 159 \<or> (\<forall>e \<in># both. entry_prefix ref e = k) \<or>
      (\<forall>e \<in># both. entry_prefix ref e \<noteq> k) \<Longrightarrow>
    table_step ref n seen clk T T"

lemma node_entry_update [simp]: "node (entry_update e seen t) = node e"
  by (cases seen) (simp_all add: entry_update_def)

lemma node_seen_entry [simp]: "node (seen_entry n seen clk) = n"
  by (simp add: seen_entry_def entry_new_def)

lemma entry_prefix_seen [simp]:
  "entry_prefix ref (seen_entry n seen clk) = common_prefix_length ref (contact_id n)"
  "entry_prefix ref (entry_update e seen t) = entry_prefix ref e"
  by (simp_all add: entry_prefix_def)

section \<open>Keeping the invariant\<close>

lemma wf_bucketI:
  assumes "wf_vec (entries b)" "distinct (map entry_id (contents b))"
    and "\<And>e. e \<in> set (contents b) \<Longrightarrow> wf_id (entry_id e) \<and> contains (bounds b) (entry_prefix ref e)"
  shows "wf_bucket ref b"
  using assms by (simp add: wf_bucket_def)

lemma wf_table_set_entries:
  assumes "wf_table rt" "k < length (buckets rt)"
    and "wf_bucket (reference_id rt) ((buckets rt ! k)\<lparr>entries := v\<rparr>)"
  shows "wf_table (set_entries rt k (buckets rt ! k) v)"
  using assms wf_tableD [OF assms(1)]
  by (auto simp: wf_table_def set_entries_def nth_list_update)

lemma abs_table_set_entries:
  "abs_table (set_entries rt k (buckets rt ! k) v) = (abs_table rt)[k := mset (view v)]"
  by (simp add: abs_table_def set_entries_def map_update)

lemma abs_table_nth: "k < length (buckets rt) \<Longrightarrow> abs_table rt ! k = mset (contents (buckets rt ! k))"
  by (simp add: abs_table_def)

lemma length_abs_table [simp]: "length (abs_table rt) = length (buckets rt)"
  by (simp add: abs_table_def)

lemma distinct_map_update:
  assumes "distinct (map f xs)" "i < length xs" "f y \<notin> f ` set xs \<or> f y = f (xs ! i)"
  shows "distinct (map f (xs[i := y]))"
proof (cases "f y = f (xs ! i)")
  case True
  then have "map f (xs[i := y]) = map f xs"
    using assms(2) by (simp add: map_update list_update_same_conv)
  with assms(1) show ?thesis by simp
next
  case False
  with assms show ?thesis by (auto simp: map_update intro!: distinct_list_update)
qed

lemma distinct_entries_mset:
  "mset xs = mset ys \<Longrightarrow> distinct (map f xs) \<longleftrightarrow> distinct (map f ys)"
  by (metis mset_map mset_eq_imp_distinct_iff)

lemma wf_bucket_write:
  assumes "wf_bucket ref b" "wf_vec v" "view v = (contents b)[i := e]" "i < length (contents b)"
    and "wf_id (entry_id e)" "contains (bounds b) (entry_prefix ref e)"
    and "entry_id e \<notin> entry_id ` set (contents b) \<or> entry_id e = entry_id (contents b ! i)"
  shows "wf_bucket ref (b\<lparr>entries := v\<rparr>)"
proof (rule wf_bucketI)
  show "distinct (map entry_id (contents (b\<lparr>entries := v\<rparr>)))"
    using assms distinct_map_update [of entry_id "contents b" i e] by (simp add: wf_bucket_def)
  show "wf_id (entry_id x) \<and> contains (bounds (b\<lparr>entries := v\<rparr>)) (entry_prefix ref x)"
    if "x \<in> set (contents (b\<lparr>entries := v\<rparr>))" for x
    using that assms set_update_subset_insert [of "contents b" i e] by (auto simp: wf_bucket_def)
qed (use assms(2) in simp)

lemma wf_bucket_filter:
  assumes "wf_vec (entries b)" "mset (contents b) = filter_mset P (mset xs)"
    and "distinct (map entry_id xs)"
    and "\<And>x. x \<in> set xs \<Longrightarrow> P x \<Longrightarrow> wf_id (entry_id x) \<and> contains (bounds b) (entry_prefix ref x)"
  shows "wf_bucket ref b"
proof (rule wf_bucketI)
  have m: "mset (contents b) = mset (filter P xs)" using assms(2) by simp
  show "distinct (map entry_id (contents b))"
    unfolding distinct_entries_mset [OF m] by (rule distinct_map_filter) (rule assms(3))
  show "wf_id (entry_id x) \<and> contains (bounds b) (entry_prefix ref x)"
    if "x \<in> set (contents b)" for x
    using that mset_eq_setD [OF m] assms(4) by auto
qed (rule assms(1))

lemma wf_table_split:
  fixes rt lo up
  defines "n \<equiv> length (buckets rt)" and "ref \<equiv> reference_id rt"
  assumes "wf_table rt" "n < 160" "wf_bucket ref lo" "wf_bucket ref up"
    and "bounds lo = table_bounds (Suc n) (n - 1)" "bounds up = table_bounds (Suc n) n"
  shows "wf_table (rt\<lparr>buckets := butlast (buckets rt) @ [lo, up]\<rparr>)"
proof -
  have "bounds (buckets rt ! i) = table_bounds (Suc n) i" if "i < n - 1" for i
    using that wf_tableD(5) [OF assms(3), of i] less_diff_conv [of i "length (buckets rt)" 1]
    by (auto simp: n_def table_bounds_def)
  moreover have "wf_bucket ref (buckets rt ! i)" if "i < n" for i
    using that wf_tableD(6) [OF assms(3), of i] by (simp add: n_def ref_def)
  ultimately have each: "bounds ((butlast (buckets rt) @ [lo, up]) ! i) = table_bounds (Suc n) i \<and>
      wf_bucket ref ((butlast (buckets rt) @ [lo, up]) ! i)" if "i < Suc n" for i
  proof -
    consider "i < n - 1" | "i = n - 1" "n \<noteq> 0" | "i = n" "n \<noteq> 0"
      using \<open>i < Suc n\<close> wf_tableD(3) [OF assms(3)] by (fastforce simp: n_def)
    then show ?thesis
    proof cases
      case 1
      then have "(butlast (buckets rt) @ [lo, up]) ! i = buckets rt ! i"
        by (simp add: nth_append nth_butlast n_def)
      with 1 \<open>\<And>i. i < n - 1 \<Longrightarrow> bounds (buckets rt ! i) = table_bounds (Suc n) i\<close>
        \<open>\<And>i. i < n \<Longrightarrow> wf_bucket ref (buckets rt ! i)\<close> show ?thesis by simp
    qed (use assms(4-8) in \<open>auto simp: nth_append n_def\<close>)
  qed
  have "length (butlast (buckets rt) @ [lo, up]) = Suc n"
    using wf_tableD(3) [OF assms(3)] by (simp add: n_def)
  with each assms(4) wf_tableD(1) [OF assms(3)] show ?thesis
    by (simp add: wf_table_def ref_def)
qed

section \<open>The step an update makes\<close>

text \<open>The assumptions of one call: a well-formed table and a node that is not the table's own.\<close>

definition can_update :: "routing_table \<Rightarrow> node_contact_info \<Rightarrow> bool" where
  "can_update rt n \<longleftrightarrow> wf_table rt \<and> wf_id (contact_id n) \<and> contact_id n \<noteq> reference_id rt"

lemma can_updateD:
  assumes "can_update rt n"
  shows "wf_table rt" "wf_id (contact_id n)"
    "common_prefix_length (reference_id rt) (contact_id n) < 160"
    "home (reference_id rt) n (length (buckets rt)) < length (buckets rt)"
    "contains (bounds (buckets rt ! home (reference_id rt) n (length (buckets rt))))
      (common_prefix_length (reference_id rt) (contact_id n))"
proof -
  show "wf_table rt" "wf_id (contact_id n)" using assms by (auto simp: can_update_def)
  show p: "common_prefix_length (reference_id rt) (contact_id n) < 160"
    using assms prefix_bounds(3) wf_tableD(1) by (auto simp: can_update_def)
  show k: "home (reference_id rt) n (length (buckets rt)) < length (buckets rt)"
    using \<open>wf_table rt\<close> by (simp add: home_def bucket_index_less wf_tableD)
  then show "contains (bounds (buckets rt ! home (reference_id rt) n (length (buckets rt))))
      (common_prefix_length (reference_id rt) (contact_id n))"
    using p wf_tableD(4,5) [OF \<open>wf_table rt\<close>] by (simp add: contains_table_bounds home_def)
qed

lemma update_eq:
  fixes rt n
  defines "k \<equiv> home (reference_id rt) n (length (buckets rt))"
  assumes "can_update rt n"
  shows "update rt n seen clk =
    (let b = buckets rt ! k; es = contents b; new = seen_entry n seen clk in
     case iter_position (\<lambda>e. entry_id e = contact_id n) es of
       Some pos \<Rightarrow>
         and_then (index_mut (entries b) pos (\<lambda>e. entry_update e seen (seen_now clk)))
           (\<lambda>v. Ok (set_entries rt k b v))
     | None \<Rightarrow>
         if is_not_full (entries b) then
           and_then (push (entries b) new) (\<lambda>v. Ok (set_entries rt k b v))
         else (case bad_position clk es of
           Some bad_node \<Rightarrow>
             and_then (index_mut (entries b) bad_node (\<lambda>_. new)) (\<lambda>v. Ok (set_entries rt k b v))
         | None \<Rightarrow>
             split_bucket rt k b (common_prefix_length (reference_id rt) (contact_id n)) new))"
proof -
  note can = can_updateD [OF assms(2)]
  have "wf_vec (entries (buckets rt ! k))"
    using wf_tableD(6) [OF can(1)] can(4) by (simp add: k_def wf_bucket_def)
  moreover have "bucket_for (buckets rt) (common_prefix_length (reference_id rt) (contact_id n)) =
      Ok (k, buckets rt ! k)"
    using bucket_for_wf [OF can(1,3)] by (simp add: k_def home_def)
  ultimately show ?thesis
    using wf_tableD(2) [OF can(1)]
    by (cases "iter_position (\<lambda>e. entry_id e = contact_id n) (contents (buckets rt ! k))")
      (simp_all add: update_def Let_def seen_entry_def)
qed

lemma bad_position_SomeD:
  assumes "bad_position clk es = Some i"
  shows "i < length es" "bad_at clk i (es ! i)"
  using iter_position_SomeD [OF assms [unfolded bad_position_def]]
  by (auto simp: bad_at_def nth_enumerate_eq)

lemma bad_position_NoneD:
  assumes "bad_position clk es = None" "e \<in> set es"
  shows "\<exists>i. \<not> bad_at clk i e"
proof -
  obtain i where "i < length es" "es ! i = e" using assms(2) by (auto simp: in_set_conv_nth)
  then have "(i, e) \<in> set (enumerate 0 es)"
    by (auto simp: in_set_enumerate_eq)
  with assms(1) show ?thesis
    by (fastforce simp: bad_position_def iter_position_None_iff bad_at_def)
qed

text \<open>The outcome of an update: a well-formed table for the same node, one abstract step on.\<close>

definition makes_step ::
    "routing_table \<Rightarrow> node_contact_info \<Rightarrow> seen_in \<Rightarrow> clock \<Rightarrow> routing_table panics \<Rightarrow> bool" where
  "makes_step rt n seen clk m \<longleftrightarrow> (\<exists>rt'. m = Ok rt' \<and> wf_table rt' \<and>
     reference_id rt' = reference_id rt \<and>
     table_step (reference_id rt) n seen clk (abs_table rt) (abs_table rt'))"

lemma home_bucketD:
  fixes rt n seen clk
  defines "ref \<equiv> reference_id rt" and "k \<equiv> home (reference_id rt) n (length (buckets rt))"
  defines "b \<equiv> buckets rt ! k" and "new \<equiv> seen_entry n seen clk"
  assumes "can_update rt n"
  shows "k = home ref n (length (abs_table rt))" "k < length (buckets rt)"
    "bounds b = table_bounds (length (buckets rt)) k"
    "wf_bucket ref b" "wf_vec (entries b)" "distinct (map entry_id (contents b))"
    "abs_table rt ! k = mset (contents b)"
    and "e \<in> set (contents b) \<Longrightarrow> wf_id (entry_id e) \<and> contains (bounds b) (entry_prefix ref e)"
    and "wf_id (entry_id new) \<and> contains (bounds b) (entry_prefix ref new)"
proof -
  note can = can_updateD [OF assms(5), folded ref_def, folded k_def, folded b_def]
  show k: "k < length (buckets rt)" "k = home ref n (length (abs_table rt))"
    using can(4) by (simp_all add: k_def ref_def)
  show "bounds b = table_bounds (length (buckets rt)) k"
    using wf_tableD(5) [OF can(1) k(1)] by (simp add: b_def)
  show b: "wf_bucket ref b" using wf_tableD(6) [OF can(1) k(1)] by (simp add: b_def ref_def)
  then show "wf_vec (entries b)" "distinct (map entry_id (contents b))"
    "e \<in> set (contents b) \<Longrightarrow> wf_id (entry_id e) \<and> contains (bounds b) (entry_prefix ref e)"
    by (simp_all add: wf_bucket_def)
  show "abs_table rt ! k = mset (contents b)" using k(1) by (simp add: abs_table_nth b_def)
  show "wf_id (entry_id new) \<and> contains (bounds b) (entry_prefix ref new)"
    using can(2,5) by (simp add: new_def b_def k_def ref_def)
qed

lemma makes_step_set_entries:
  fixes rt n seen clk
  defines "k \<equiv> home (reference_id rt) n (length (buckets rt))"
  defines "b \<equiv> buckets rt ! k"
  assumes can: "can_update rt n" and "wf_bucket (reference_id rt) (b\<lparr>entries := v\<rparr>)"
    and "table_step (reference_id rt) n seen clk (abs_table rt) ((abs_table rt)[k := mset (view v)])"
  shows "makes_step rt n seen clk (Ok (set_entries rt k b v))"
proof -
  have "abs_table (set_entries rt k b v) = (abs_table rt)[k := mset (view v)]"
    unfolding b_def by (rule abs_table_set_entries)
  moreover have "wf_table (set_entries rt k b v)"
    using assms(4) unfolding b_def k_def
    by (rule wf_table_set_entries [OF can_updateD(1,4) [OF can]])
  moreover have "reference_id (set_entries rt k b v) = reference_id rt"
    by (simp add: set_entries_def)
  ultimately show ?thesis using assms(5) by (simp add: makes_step_def)
qed

text \<open>A node the table knows: its entry is refreshed in place.\<close>

lemma known_step:
  fixes rt n seen clk
  defines "k \<equiv> home (reference_id rt) n (length (buckets rt))"
  defines "b \<equiv> buckets rt ! k" and "f \<equiv> \<lambda>e. entry_update e seen (seen_now clk)"
  assumes can: "can_update rt n" and pos: "pos < length (contents b)"
    "entry_id (contents b ! pos) = contact_id n"
  shows "makes_step rt n seen clk
    (and_then (index_mut (entries b) pos f) (\<lambda>v. Ok (set_entries rt k b v)))"
proof -
  note home = home_bucketD [OF can, folded k_def, folded b_def]
  let ?e = "contents b ! pos"
  obtain v where v: "index_mut (entries b) pos f = Ok v" "wf_vec v"
    "view v = (contents b)[pos := f ?e]"
    using index_mut_view [OF home(5) pos(1), of f] by auto
  have f: "entry_id (f ?e) = entry_id ?e" "entry_prefix ref (f ?e) = entry_prefix ref ?e" for ref
    by (simp_all add: f_def)
  have "wf_bucket (reference_id rt) (b\<lparr>entries := v\<rparr>)"
    using pos home(8) [OF nth_mem [OF pos(1)]] f
    by (intro wf_bucket_write [OF home(4) v(2,3)]) simp_all
  moreover have "table_step (reference_id rt) n seen clk (abs_table rt)
      ((abs_table rt)[k := add_mset (f ?e) (abs_table rt ! k - {#?e#})])"
    unfolding f_def using pos by (intro refresh [OF home(1)]) (simp_all add: home(7))
  ultimately show ?thesis
    using makes_step_set_entries [OF can, folded k_def, folded b_def, of v seen clk] pos(1) v(1,3)
    by (simp add: mset_update home(7))
qed

text \<open>A new node in a bucket with room.\<close>

lemma insert_step:
  fixes rt n seen clk
  defines "k \<equiv> home (reference_id rt) n (length (buckets rt))"
  defines "b \<equiv> buckets rt ! k" and "new \<equiv> seen_entry n seen clk"
  assumes can: "can_update rt n" and unknown: "\<forall>e \<in> set (contents b). entry_id e \<noteq> contact_id n"
    and room: "length (contents b) < BUCKET_SIZE"
  shows "makes_step rt n seen clk
    (and_then (push (entries b) new) (\<lambda>v. Ok (set_entries rt k b v)))"
proof -
  note home = home_bucketD [OF can, folded k_def, folded b_def]
  obtain v where v: "push (entries b) new = Ok v" "wf_vec v" "view v = contents b @ [new]"
    using push_view [OF home(5) room] by blast
  have "wf_bucket (reference_id rt) (b\<lparr>entries := v\<rparr>)"
    using v home(6,8) home(9) [of seen clk] unknown by (intro wf_bucketI) (auto simp: new_def)
  moreover have "table_step (reference_id rt) n seen clk (abs_table rt)
      ((abs_table rt)[k := add_mset new (abs_table rt ! k)])"
    unfolding new_def using unknown room by (intro insert [OF home(1)]) (simp_all add: home(7))
  ultimately show ?thesis
    using makes_step_set_entries [OF can, folded k_def, folded b_def, of v seen clk] v(1,3)
    by (simp add: home(7))
qed

text \<open>A new node in a full bucket with a bad entry takes that entry's place.\<close>

lemma replace_step:
  fixes rt n seen clk
  defines "k \<equiv> home (reference_id rt) n (length (buckets rt))"
  defines "b \<equiv> buckets rt ! k" and "new \<equiv> seen_entry n seen clk"
  assumes can: "can_update rt n" and unknown: "\<forall>e \<in> set (contents b). entry_id e \<noteq> contact_id n"
    and full: "length (contents b) = BUCKET_SIZE" and bad: "bad_position clk (contents b) = Some pos"
  shows "makes_step rt n seen clk
    (and_then (index_mut (entries b) pos (\<lambda>_. new)) (\<lambda>v. Ok (set_entries rt k b v)))"
proof -
  note home = home_bucketD [OF can, folded k_def, folded b_def]
  note pos = bad_position_SomeD [OF bad]
  obtain v where v: "index_mut (entries b) pos (\<lambda>_. new) = Ok v" "wf_vec v"
    "view v = (contents b)[pos := new]"
    using index_mut_view [OF home(5) pos(1), of "\<lambda>_. new"] by auto
  have "wf_bucket (reference_id rt) (b\<lparr>entries := v\<rparr>)"
    using pos home(9) [of seen clk] unknown
    by (intro wf_bucket_write [OF home(4) v(2,3)]) (auto simp: new_def)
  moreover have "table_step (reference_id rt) n seen clk (abs_table rt)
      ((abs_table rt)[k := add_mset new (abs_table rt ! k - {#contents b ! pos#})])"
    unfolding new_def using unknown full pos
    by (intro replace [OF home(1), of _ clk pos]) (simp_all add: home(7))
  ultimately show ?thesis
    using makes_step_set_entries [OF can, folded k_def, folded b_def, of v seen clk] pos(1) v(1,3)
    by (simp add: mset_update home(7))
qed

text \<open>The two halves of a split bucket satisfy the invariant.\<close>

lemma split_halves_wf:
  assumes b: "bounds b = \<lparr>range_start = k, range_end = 160\<rparr>"
    and dist: "distinct (map entry_id es)"
    and mem: "\<And>x. x \<in> set es \<Longrightarrow> wf_id (entry_id x) \<and> contains (bounds b) (entry_prefix ref x)"
    and lo: "wf_vec (entries lo)" "bounds lo = \<lparr>range_start = k, range_end = Suc k\<rparr>"
      "mset (contents lo) = filter_mset (\<lambda>x. entry_prefix ref x = k) (mset es)"
    and up: "wf_vec (entries up)" "bounds up = \<lparr>range_start = Suc k, range_end = 160\<rparr>"
      "mset (contents up) = filter_mset (\<lambda>x. entry_prefix ref x \<noteq> k) (mset es)"
  shows "wf_bucket ref lo" "wf_bucket ref up"
proof -
  have mem: "wf_id (entry_id x)" "k \<le> entry_prefix ref x" "entry_prefix ref x < 160"
    if "x \<in> set es" for x
    using mem [OF that] b by (auto simp: contains_def)
  show "wf_bucket ref lo"
    using mem by (intro wf_bucket_filter [OF lo(1,3) dist]) (simp add: contains_def lo(2))
  show "wf_bucket ref up"
    using mem by (intro wf_bucket_filter [OF up(1,3) dist])
      (simp add: contains_def up(2), metis Suc_leI le_neq_implies_less)
qed

text \<open>A new node in a full bucket without a bad entry.\<close>

lemma split_step:
  fixes rt n seen clk
  defines "k \<equiv> home (reference_id rt) n (length (buckets rt))"
  defines "b \<equiv> buckets rt ! k" and "new \<equiv> seen_entry n seen clk" and "ref \<equiv> reference_id rt"
  assumes can: "can_update rt n" and unknown: "\<forall>e \<in> set (contents b). entry_id e \<noteq> contact_id n"
    and full: "length (contents b) = BUCKET_SIZE" and bad: "bad_position clk (contents b) = None"
  shows "makes_step rt n seen clk (split_bucket rt k b (entry_prefix ref new) new)"
proof -
  let ?n = "length (buckets rt)"
  note home = home_bucketD [OF can, folded k_def, folded b_def, folded ref_def]
  note wf = can_updateD(1) [OF can]
  have unknown': "\<forall>e \<in># abs_table rt ! k. entry_id e \<noteq> contact_id n"
    and full': "size (abs_table rt ! k) = BUCKET_SIZE"
    and good: "\<forall>e \<in># abs_table rt ! k. \<exists>i. \<not> bad_at clk i e"
    using unknown full bad_position_NoneD [OF bad] by (simp_all add: home(7))
  have p: "entry_prefix ref new < 160" "k = bucket_index ?n (entry_prefix ref new)"
    using can_updateD(3) [OF can] by (simp_all add: new_def ref_def k_def home_def)
  show ?thesis
  proof (rule split_bucket_cases [OF wf home(2) p [unfolded ref_def]
        full [unfolded b_def], folded ref_def b_def])
    fix lo up
    assume last: "Suc k = ?n" "?n < 160"
      and ok: "split_bucket rt k b (entry_prefix ref new) new =
        Ok (rt\<lparr>buckets := butlast (buckets rt) @ [lo, up]\<rparr>)"
      and lu: "wf_vec (entries lo)" "wf_vec (entries up)" "bounds lo = table_bounds (Suc ?n) k"
        "bounds up = table_bounds (Suc ?n) (Suc k)"
      and m: "mset (contents lo) = filter_mset (\<lambda>x. entry_prefix ref x = k) (mset (new # contents b))"
        "mset (contents up) = filter_mset (\<lambda>x. entry_prefix ref x \<noteq> k) (mset (new # contents b))"
    have "distinct (map entry_id (new # contents b))" using home(6) unknown by (auto simp: new_def)
    then have "wf_bucket ref lo" "wf_bucket ref up"
      using home(3,8) home(9) [of seen clk] last lu m
      by (auto intro!: split_halves_wf [of b k "new # contents b" ref lo up]
          simp: table_bounds_def new_def)
    then have "wf_table (rt\<lparr>buckets := butlast (buckets rt) @ [lo, up]\<rparr>)"
      using wf_table_split [OF wf last(2)] lu(3,4) by (simp add: ref_def flip: last(1))
    moreover have "table_step ref n seen clk (abs_table rt) (butlast (abs_table rt) @
        [filter_mset (\<lambda>e. entry_prefix ref e = k) (mset (new # contents b)),
         filter_mset (\<lambda>e. entry_prefix ref e \<noteq> k) (mset (new # contents b))])"
      using last by (intro table_step.split [OF home(1) unknown' full' good])
        (simp_all add: home(7) new_def)
    ultimately show ?thesis
      using ok m by (simp add: makes_step_def ref_def abs_table_def map_butlast)
  next
    fix v
    assume ok: "split_bucket rt k b (entry_prefix ref new) new = Ok (set_entries rt k b v)"
      and v: "wf_vec v" "mset (view v) = mset (contents b)"
      and why: "Suc k < ?n \<or> k = 159 \<or> (\<forall>x\<in>set (new # contents b). entry_prefix ref x = k) \<or>
        (\<forall>x\<in>set (new # contents b). entry_prefix ref x \<noteq> k)"
    have "wf_bucket ref (b\<lparr>entries := v\<rparr>)"
      using v home(6,8) mset_eq_setD [OF v(2)] distinct_entries_mset [OF v(2), of entry_id]
      by (intro wf_bucketI) auto
    moreover have "table_step ref n seen clk (abs_table rt) (abs_table rt)"
      using why by (intro discard [OF home(1) unknown' full' good refl]) (simp_all add: home(7) new_def)
    ultimately show ?thesis
      using makes_step_set_entries [OF can, folded k_def, folded b_def, folded ref_def, of v seen clk]
      by (simp add: ok v(2) flip: home(7))
  qed
qed

lemma update_step:
  assumes can: "can_update rt n"
  shows "makes_step rt n seen clk (update rt n seen clk)"
proof -
  define k where "k = home (reference_id rt) n (length (buckets rt))"
  define b where "b = buckets rt ! k"
  note home = home_bucketD [OF can, folded k_def, folded b_def]
  note eq = update_eq [OF can, of seen clk, unfolded Let_def, folded k_def, folded b_def]
  show ?thesis
  proof (cases "iter_position (\<lambda>e. entry_id e = contact_id n) (contents b)")
    case (Some pos)
    with known_step [OF can, folded k_def, folded b_def] iter_position_SomeD [OF Some]
    show ?thesis by (simp add: eq)
  next
    case None
    then have unknown: "\<forall>e \<in> set (contents b). entry_id e \<noteq> contact_id n"
      by (simp add: iter_position_None_iff)
    show ?thesis
    proof (cases "length (contents b) < BUCKET_SIZE")
      case True
      with None insert_step [OF can, folded k_def, folded b_def, OF unknown] home(5)
      show ?thesis by (simp add: eq is_not_full_iff)
    next
      case False
      then have full: "length (contents b) = BUCKET_SIZE" using view_bound [OF home(5)] by simp
      show ?thesis
        using replace_step [OF can, folded k_def, folded b_def, OF unknown full]
          split_step [OF can, folded k_def, folded b_def, OF unknown full] None full home(5)
        by (cases "bad_position clk (contents b)")
          (simp_all add: eq is_not_full_iff)
    qed
  qed
qed

end
