(* ===== verification/Routing_Examples.thy ===== *)
theory Routing_Examples
  imports Routing_Invariant
begin

text \<open>
  Concrete ids, contacts and tables on which the properties of the routing table are evaluated.
  The reference id is zero, so the prefix length of an id is the number of its leading zeros.
\<close>

definition zero_id :: node_id where
  "zero_id = replicate 20 0"

text \<open>The id whose first byte is \<open>b\<close>, and a contact with it.\<close>

definition example_id :: "u8 \<Rightarrow> node_id" where
  "example_id b = b # replicate 19 0"

definition example_contact :: "u8 \<Rightarrow> node_contact_info" where
  "example_contact b = \<lparr>contact_id = example_id b, address = \<lparr>ip = 0, port = 6881\<rparr>\<rparr>"

definition example_clock :: clock where
  "example_clock = \<lparr>seen_now = 0, query_now = (\<lambda>_. 0), response_now = (\<lambda>_. 0)\<rparr>"

text \<open>A bucket that holds the given contacts, all recently seen in a response.\<close>

definition example_bucket :: "seen_in \<Rightarrow> range_u32 \<Rightarrow> u8 list \<Rightarrow> bucket" where
  "example_bucket seen r bs =
     (let es = map (\<lambda>b. entry_update (entry_new (example_contact b)) seen 0) bs
      in \<lparr>entries = \<lparr>data = map Some es @ replicate (BUCKET_SIZE - length es) None,
                    vec_length = length es\<rparr>, bounds = r\<rparr>)"

text \<open>One bucket with eight contacts that differ from the reference in the first bit.\<close>

definition full_table :: "seen_in \<Rightarrow> routing_table" where
  "full_table seen =
     \<lparr>buckets = [example_bucket seen \<lparr>range_start = 0, range_end = 160\<rparr>
        [128, 129, 130, 131, 132, 133, 134, 135]], reference_id = zero_id\<rparr>"

text \<open>One bucket with eight contacts of prefix length 1.\<close>

definition lopsided_table :: routing_table where
  "lopsided_table =
     \<lparr>buckets = [example_bucket Response \<lparr>range_start = 0, range_end = 160\<rparr>
        [64, 65, 66, 67, 68, 69, 70, 71]], reference_id = zero_id\<rparr>"

text \<open>Three buckets: eight contacts of prefix length 0, none of 1, one of 2.\<close>

definition three_buckets :: routing_table where
  "three_buckets =
     \<lparr>buckets = [example_bucket Response \<lparr>range_start = 0, range_end = 1\<rparr>
          [128, 129, 130, 131, 132, 133, 134, 135],
        example_bucket Response \<lparr>range_start = 1, range_end = 2\<rparr> [],
        example_bucket Response \<lparr>range_start = 2, range_end = 160\<rparr> [32]],
      reference_id = zero_id\<rparr>"

lemma example_ids [simp]:
  "wf_id zero_id" "wf_id (example_id b)" "example_id b = zero_id \<longleftrightarrow> b = 0"
  "contact_id (example_contact b) = example_id b"
  by (simp_all add: wf_id_def zero_id_def example_id_def example_contact_def numeral_eq_Suc)

lemma reference_ids [simp]:
  "reference_id (table_new r) = r" "reference_id (full_table seen) = zero_id"
  "reference_id three_buckets = zero_id" "reference_id lopsided_table = zero_id"
  by (simp_all add: table_new_def full_table_def three_buckets_def lopsided_table_def)

lemma wf_full_table: "wf_table (full_table Query) \<and> wf_table (full_table Response)"
  by code_simp

lemma wf_lopsided_table: "wf_table lopsided_table"
  by code_simp

lemma wf_three_buckets: "wf_table three_buckets"
  by code_simp

end
