(* ===== verification/Routing_Reachable.thy ===== *)
theory Routing_Reachable
  imports Routing_Update Routing_Examples
begin

text \<open>
  What \<open>update\<close> means to its callers: the table as a finite map from node ids to entries, the
  tables the program can reach, and what an update keeps, adds and gives up.
\<close>

section \<open>The table as a map\<close>

definition all_entries :: "routing_table \<Rightarrow> routing_entry list" where
  "all_entries rt = concat (map contents (buckets rt))"

definition entry_map :: "routing_table \<Rightarrow> node_id \<Rightarrow> routing_entry option" where
  "entry_map rt = map_of (map (\<lambda>e. (entry_id e, e)) (all_entries rt))"

lemma in_all_entries:
  "e \<in> set (all_entries rt) \<longleftrightarrow> (\<exists>i < length (buckets rt). e \<in> set (contents (buckets rt ! i)))"
  by (fastforce simp: all_entries_def in_set_conv_nth)

lemma mset_all_entries: "mset (all_entries rt) = sum_list (abs_table rt)"
  by (simp add: all_entries_def abs_table_def mset_concat comp_def)

text \<open>An entry is in the home bucket of its id, and nowhere else.\<close>

lemma entry_home:
  assumes "wf_table rt" "i < length (buckets rt)" "e \<in> set (contents (buckets rt ! i))"
  shows "i = bucket_index (length (buckets rt)) (entry_prefix (reference_id rt) e)"
    "entry_prefix (reference_id rt) e < 160" "wf_id (entry_id e)"
proof -
  note wf = wf_tableD [OF assms(1)]
  have c: "contains (table_bounds (length (buckets rt)) i) (entry_prefix (reference_id rt) e)"
    and "wf_id (entry_id e)"
    using wf(6) [OF assms(2)] wf(5) [OF assms(2)] assms(3) by (auto simp: wf_bucket_def)
  then show "wf_id (entry_id e)" by simp
  show p: "entry_prefix (reference_id rt) e < 160"
    using c table_bounds_end [OF assms(2) wf(4)] by (auto simp: contains_def)
  show "i = bucket_index (length (buckets rt)) (entry_prefix (reference_id rt) e)"
    using c contains_table_bounds [OF assms(2) wf(4) p] by simp
qed

lemma distinct_concat_map:
  assumes "\<And>i. i < length xss \<Longrightarrow> distinct (map f (xss ! i))"
    and "\<And>i j x y. i < length xss \<Longrightarrow> j < length xss \<Longrightarrow> x \<in> set (xss ! i) \<Longrightarrow>
      y \<in> set (xss ! j) \<Longrightarrow> f x = f y \<Longrightarrow> i = j"
  shows "distinct (map f (concat xss))"
  using assms
proof (induction xss)
  case Nil
  then show ?case by simp
next
  case (Cons xs xss)
  have "distinct (map f (concat xss))"
    using Cons.prems(1) [of "Suc _"] Cons.prems(2) [of "Suc _" "Suc _"]
    by (intro Cons.IH) (simp, metis Suc_less_eq length_Cons nat.inject nth_Cons_Suc)
  moreover have "distinct (map f xs)" using Cons.prems(1) [of 0] by simp
  moreover have "f ` set xs \<inter> f ` set (concat xss) = {}"
  proof (rule ccontr)
    assume "f ` set xs \<inter> f ` set (concat xss) \<noteq> {}"
    then obtain x ys y where "x \<in> set xs" "ys \<in> set xss" "y \<in> set ys" "f x = f y" by fastforce
    moreover then obtain j where "j < length xss" "ys = xss ! j" by (auto simp: in_set_conv_nth)
    ultimately show False using Cons.prems(2) [of 0 "Suc j" x y] by simp
  qed
  ultimately show ?case by (simp add: distinct_append)
qed

lemma distinct_all_entries:
  assumes "wf_table rt"
  shows "distinct (map entry_id (all_entries rt))"
  unfolding all_entries_def
proof (rule distinct_concat_map)
  fix i assume "i < length (map contents (buckets rt))"
  then show "distinct (map entry_id (map contents (buckets rt) ! i))"
    using wf_tableD(6) [OF assms, of i] by (simp add: wf_bucket_def)
next
  fix i j x y
  assume "i < length (map contents (buckets rt))" "j < length (map contents (buckets rt))"
    "x \<in> set (map contents (buckets rt) ! i)" "y \<in> set (map contents (buckets rt) ! j)"
    "entry_id x = entry_id y"
  then show "i = j"
    using entry_home(1) [OF assms, of i x] entry_home(1) [OF assms, of j y]
    by (simp add: entry_prefix_def)
qed

lemma entry_map_Some_iff:
  assumes "wf_table rt"
  shows "entry_map rt x = Some e \<longleftrightarrow> e \<in> set (all_entries rt) \<and> entry_id e = x"
  using distinct_all_entries [OF assms]
  by (auto simp: entry_map_def map_of_eq_Some_iff comp_def)

lemma entry_map_home:
  assumes "can_update rt n"
  shows "entry_map rt (contact_id n) = Some e \<longleftrightarrow>
    e \<in> set (contents (buckets rt ! home (reference_id rt) n (length (buckets rt)))) \<and>
      entry_id e = contact_id n"
proof -
  note can = can_updateD [OF assms]
  have "i = home (reference_id rt) n (length (buckets rt))"
    if "i < length (buckets rt)" "e \<in> set (contents (buckets rt ! i))" "entry_id e = contact_id n"
    for i
    using entry_home(1) [OF can(1) that(1,2)] that(3) by (simp add: home_def entry_prefix_def)
  with can(4) show ?thesis
    unfolding entry_map_Some_iff [OF can(1)] in_all_entries by blast
qed

section \<open>What a step does to the entries\<close>

lemma sum_list_update_mset:
  fixes T :: "'a multiset list"
  shows "k < length T \<Longrightarrow> sum_list (T[k := M]) + T ! k = sum_list T + M"
proof (induction T arbitrary: k)
  case Nil
  then show ?case by simp
next
  case (Cons N T)
  show ?case
  proof (cases k)
    case 0
    then show ?thesis by (simp add: ac_simps)
  next
    case (Suc j)
    with Cons show ?thesis by (simp add: ac_simps)
  qed
qed

lemma sum_list_in: "k < length T \<Longrightarrow> x \<in># T ! k \<Longrightarrow> x \<in># sum_list T"
  for T :: "'a multiset list"
  by auto

lemma sum_list_add_entry:
  fixes T :: "'a multiset list"
  assumes "k < length T"
  shows "sum_list (T[k := add_mset x (T ! k)]) = add_mset x (sum_list T)"
    and "y \<in># T ! k \<Longrightarrow>
      sum_list (T[k := add_mset x (T ! k - {#y#})]) = add_mset x (sum_list T - {#y#})"
proof -
  show "sum_list (T[k := add_mset x (T ! k)]) = add_mset x (sum_list T)"
    using sum_list_update_mset [OF assms, of "add_mset x (T ! k)"] by simp
  assume y: "y \<in># T ! k"
  then obtain N where N: "T ! k = add_mset y N" by (metis insert_DiffM)
  obtain M where M: "sum_list T = add_mset y M" by (metis insert_DiffM sum_list_in [OF assms y])
  have "sum_list (T[k := add_mset x N]) + add_mset y N = sum_list T + add_mset x N"
    using sum_list_update_mset [OF assms, of "add_mset x N"] by (simp add: N)
  then have "add_mset y (sum_list (T[k := add_mset x N])) = add_mset x (sum_list T)"
    by simp
  then show "sum_list (T[k := add_mset x (T ! k - {#y#})]) = add_mset x (sum_list T - {#y#})"
    by (simp add: N M)
qed

text \<open>The five steps, seen from the multiset of all entries.\<close>

lemma table_step_entries:
  fixes ref n seen clk T T'
  defines "k \<equiv> home ref n (length T)" and "new \<equiv> seen_entry n seen clk"
  assumes step: "table_step ref n seen clk T T'" and k: "k < length T"
  obtains (known) e where "e \<in># T ! k" "entry_id e = contact_id n"
      "sum_list T' = add_mset (entry_update e seen (seen_now clk)) (sum_list T - {#e#})"
  | (added) "\<forall>e \<in># T ! k. entry_id e \<noteq> contact_id n" "sum_list T' = add_mset new (sum_list T)"
  | (replaced) e i where "\<forall>e \<in># T ! k. entry_id e \<noteq> contact_id n" "e \<in># sum_list T"
      "bad_at clk i e" "sum_list T' = add_mset new (sum_list T - {#e#})"
  | (discarded) "\<forall>e \<in># T ! k. entry_id e \<noteq> contact_id n" "T' = T" "size (T ! k) = BUCKET_SIZE"
      "\<forall>e \<in># T ! k. \<exists>i. \<not> bad_at clk i e"
      "Suc k < length T \<or> k = 159 \<or> (\<forall>e \<in># add_mset new (T ! k). entry_prefix ref e = k) \<or>
        (\<forall>e \<in># add_mset new (T ! k). entry_prefix ref e \<noteq> k)"
  using step
proof cases
  case (refresh k' e)
  with sum_list_add_entry(2) [OF k, of e] show thesis by (intro known [of e]) (simp_all add: k_def)
next
  case (insert k')
  with sum_list_add_entry(1) [OF k, of new] show thesis
    by (intro added) (simp_all add: k_def new_def)
next
  case (replace k' e i)
  with sum_list_add_entry(2) [OF k, of e new] sum_list_in [OF k, of e] show thesis
    by (intro replaced [of e i]) (simp_all add: k_def new_def)
next
  case (split k' both)
  have "Suc k = length T" using split by (simp add: k_def)
  then have "sum_list T = sum_list (butlast T) + T ! k"
    by (cases T rule: rev_cases) simp_all
  moreover have "sum_list T' = sum_list (butlast T) + both"
    using split(1) by (simp add: multiset_partition [symmetric] add.assoc)
  ultimately show thesis
    using split by (intro added) (simp_all add: k_def new_def)
next
  case (discard k' both)
  then show thesis by (intro discarded) (simp_all add: k_def new_def)
qed

inductive_cases table_stepE: "table_step ref n seen clk T T'"

lemma table_step_length:
  assumes "table_step ref n seen clk T T'"
  shows "length T' = length T \<or>
    length T' = Suc (length T) \<and> length T < 160 \<and> Suc (home ref n (length T)) = length T \<and>
      size (T ! home ref n (length T)) = BUCKET_SIZE"
  using assms by (elim table_stepE) auto

lemma table_step_size:
  assumes "table_step ref n seen clk T T'" "home ref n (length T) < length T"
  shows "size (sum_list T) \<le> size (sum_list T') \<and> size (sum_list T') \<le> Suc (size (sum_list T))"
proof (rule table_step_entries [OF assms])
  have sizes: "size (sum_list T') = size (sum_list T)"
    if "e \<in># sum_list T" "sum_list T' = add_mset e' (sum_list T - {#e#})" for e e'
    using that by (metis insert_DiffM size_add_mset)
  show ?thesis if "e \<in># T ! home ref n (length T)"
    "sum_list T' = add_mset (entry_update e seen (seen_now clk)) (sum_list T - {#e#})" for e
    using sizes [OF sum_list_in [OF assms(2) that(1)] that(2)] by simp
  show ?thesis if "e \<in># sum_list T" "sum_list T' = add_mset (seen_entry n seen clk) (sum_list T - {#e#})" for e
    using sizes [OF that] by simp
qed simp_all

section \<open>What an update does to the map\<close>

lemma entry_unique:
  assumes "wf_table rt" "e \<in> set (all_entries rt)" "e' \<in> set (all_entries rt)"
    and "entry_id e = entry_id e'"
  shows "e = e'"
  using distinct_all_entries [OF assms(1)] assms(2-4) by (auto simp: distinct_map inj_on_def)

lemma entry_map_eqI:
  assumes "\<And>i e. entry_map rt i = Some e \<longleftrightarrow> m i = Some e"
  shows "entry_map rt = m"
  using assms by (metis ext option.exhaust)

lemma entry_map_added:
  assumes "wf_table rt" "wf_table rt'" "mset (all_entries rt') = add_mset y (mset (all_entries rt))"
  shows "entry_map rt' = (entry_map rt)(entry_id y \<mapsto> y)"
proof (rule entry_map_eqI)
  fix i e
  have set': "set (all_entries rt') = insert y (set (all_entries rt))"
    using mset_eq_setD [of "all_entries rt'" "y # all_entries rt"] assms(3) by simp
  then show "entry_map rt' i = Some e \<longleftrightarrow> ((entry_map rt)(entry_id y \<mapsto> y)) i = Some e"
    using entry_unique [OF assms(2), of e y]
    by (auto simp: entry_map_Some_iff [OF assms(1)] entry_map_Some_iff [OF assms(2)])
qed

lemma entry_map_exchanged:
  assumes "wf_table rt" "wf_table rt'" "x \<in> set (all_entries rt)"
    and "mset (all_entries rt') = add_mset y (mset (all_entries rt) - {#x#})"
  shows "entry_map rt' = (entry_map rt)(entry_id x := None, entry_id y \<mapsto> y)"
proof (rule entry_map_eqI)
  fix i e
  have "distinct (all_entries rt)"
    using distinct_all_entries [OF assms(1)] by (simp add: distinct_map)
  then have set': "set (all_entries rt') = insert y (set (all_entries rt) - {x})"
    using mset_eq_setD [of "all_entries rt'" "y # remove1 x (all_entries rt)"] assms(4)
    by simp
  then show "entry_map rt' i = Some e \<longleftrightarrow>
      ((entry_map rt)(entry_id x := None, entry_id y \<mapsto> y)) i = Some e"
    using entry_unique [OF assms(2), of e y] entry_unique [OF assms(1), of e x] assms(3)
    by (auto simp: entry_map_Some_iff [OF assms(1)] entry_map_Some_iff [OF assms(2)])
qed

text \<open>
  The four outcomes of an update, on the map. They are the vocabulary of the properties: a node
  the table knows is refreshed; an unknown one is added, takes the place of a bad entry, or is
  discarded.
\<close>

definition update_outcome ::
    "node_contact_info \<Rightarrow> seen_in \<Rightarrow> clock \<Rightarrow> (node_id \<Rightarrow> routing_entry option) \<Rightarrow>
     (node_id \<Rightarrow> routing_entry option) \<Rightarrow> bool" where
  "update_outcome n seen clk m m' =
     (case m (contact_id n) of
        Some e \<Rightarrow> m' = m(contact_id n \<mapsto> entry_update e seen (seen_now clk))
      | None \<Rightarrow> m' = m(contact_id n \<mapsto> seen_entry n seen clk) \<or>
          (\<exists>old e i. m old = Some e \<and> bad_at clk i e \<and>
             m' = m(old := None, contact_id n \<mapsto> seen_entry n seen clk)) \<or>
          m' = m)"

lemma makes_stepE:
  assumes "makes_step rt n seen clk m"
  obtains rt' where "m = Ok rt'" "wf_table rt'" "reference_id rt' = reference_id rt"
    "table_step (reference_id rt) n seen clk (abs_table rt) (abs_table rt')"
  using assms by (auto simp: makes_step_def)

lemma abs_table_entry_map:
  assumes "wf_table rt" "wf_table rt'" "abs_table rt' = abs_table rt"
  shows "entry_map rt' = entry_map rt"
proof -
  have "set (all_entries rt') = set (all_entries rt)"
    using assms(3) by (metis mset_all_entries mset_eq_setD)
  then show ?thesis
    by (intro entry_map_eqI) (simp add: entry_map_Some_iff [OF assms(1)] entry_map_Some_iff [OF assms(2)])
qed

lemma table_step_outcome:
  assumes can: "can_update rt n" and wf': "wf_table rt'"
    and step: "table_step (reference_id rt) n seen clk (abs_table rt) (abs_table rt')"
  shows "update_outcome n seen clk (entry_map rt) (entry_map rt')"
proof -
  note wf = can_updateD(1) [OF can]
  let ?k = "home (reference_id rt) n (length (abs_table rt))"
  have k: "?k < length (abs_table rt)" using can_updateD(4) [OF can] by simp
  have nth: "abs_table rt ! ?k = mset (contents (buckets rt ! ?k))"
    using k by (simp add: abs_table_nth)
  have unknown: "entry_map rt (contact_id n) = None"
    if "\<forall>e \<in># abs_table rt ! ?k. entry_id e \<noteq> contact_id n"
    using that entry_map_home [OF can] nth by (metis length_abs_table not_None_eq set_mset_mset)
  show ?thesis
  proof (rule table_step_entries [OF step k])
    fix e
    assume e: "e \<in># abs_table rt ! ?k" "entry_id e = contact_id n"
      "sum_list (abs_table rt') =
        add_mset (entry_update e seen (seen_now clk)) (sum_list (abs_table rt) - {#e#})"
    then have "entry_map rt (contact_id n) = Some e"
      using entry_map_home [OF can, of e] nth by simp
    moreover from this have "e \<in> set (all_entries rt)" by (simp add: entry_map_Some_iff [OF wf])
    ultimately show ?thesis
      using entry_map_exchanged [OF wf wf', of e "entry_update e seen (seen_now clk)"] e
      by (simp add: update_outcome_def mset_all_entries)
  next
    assume "\<forall>e \<in># abs_table rt ! ?k. entry_id e \<noteq> contact_id n"
      "sum_list (abs_table rt') = add_mset (seen_entry n seen clk) (sum_list (abs_table rt))"
    then show ?thesis
      using unknown entry_map_added [OF wf wf', of "seen_entry n seen clk"]
      by (simp add: update_outcome_def mset_all_entries)
  next
    fix e i
    assume e: "\<forall>e \<in># abs_table rt ! ?k. entry_id e \<noteq> contact_id n"
      "e \<in># sum_list (abs_table rt)" "bad_at clk i e" "sum_list (abs_table rt') =
        add_mset (seen_entry n seen clk) (sum_list (abs_table rt) - {#e#})"
    then have "e \<in> set (all_entries rt)" by (metis mset_all_entries set_mset_mset)
    then have "entry_map rt (entry_id e) = Some e"
      "entry_map rt' = (entry_map rt)(entry_id e := None, contact_id n \<mapsto> seen_entry n seen clk)"
      using entry_map_exchanged [OF wf wf', of e "seen_entry n seen clk"] e(4)
      by (simp_all add: entry_map_Some_iff [OF wf] mset_all_entries)
    with unknown [OF e(1)] e(3) show ?thesis by (auto simp: update_outcome_def)
  next
    assume "\<forall>e \<in># abs_table rt ! ?k. entry_id e \<noteq> contact_id n" "abs_table rt' = abs_table rt"
    then show ?thesis
      using unknown abs_table_entry_map [OF wf wf'] by (simp add: update_outcome_def)
  qed
qed

section \<open>Reachable tables\<close>

inductive reachable :: "node_id \<Rightarrow> routing_table \<Rightarrow> bool" for ref where
  start: "reachable ref (table_new ref)"
| step: "reachable ref rt \<Longrightarrow> wf_id (contact_id n) \<Longrightarrow> update rt n seen clk = Ok rt' \<Longrightarrow>
    reachable ref rt'"

text \<open>An update with the table's own id panics: no bucket holds prefix length 160.\<close>

lemma update_own_id:
  assumes "wf_table rt" "contact_id n = reference_id rt"
  shows "update rt n seen clk = Crash ExpectFailed"
proof -
  have "common_prefix_length (reference_id rt) (contact_id n) = 160"
    using prefix_bounds(2) wf_tableD(1) [OF assms(1)] assms(2) by simp
  then show ?thesis
    using bucket_for_own [OF assms(1)] wf_tableD(2) [OF assms(1)] by (simp add: update_def)
qed

lemma reachable_wf:
  assumes "wf_id ref" "reachable ref rt"
  shows "wf_table rt \<and> reference_id rt = ref"
  using assms(2)
proof induction
  case start
  then show ?case using assms(1) by (simp add: wf_table_new)
next
  case (step rt n seen clk rt')
  then have "contact_id n \<noteq> reference_id rt" using update_own_id by fastforce
  with step have "can_update rt n" by (simp add: can_update_def)
  then have "makes_step rt n seen clk (Ok rt')" using update_step step.hyps by metis
  with step.IH show ?case by (auto simp: makes_step_def)
qed


section \<open>Capacity\<close>

lemma length_all_entries:
  assumes "wf_table rt"
  shows "length (all_entries rt) \<le> BUCKET_SIZE * length (buckets rt)"
proof -
  have "\<forall>b \<in> set (buckets rt). length (contents b) \<le> BUCKET_SIZE"
    using wf_tableD(6) [OF assms] view_bound
    by (metis in_set_conv_nth wf_bucket_def)
  then have "sum_list (map (\<lambda>b. length (contents b)) (buckets rt)) \<le> BUCKET_SIZE * length (buckets rt)"
    using sum_list_mono [of "buckets rt" "\<lambda>b. length (contents b)" "\<lambda>_. BUCKET_SIZE"]
    by (simp add: sum_list_triv mult.commute del: length_view)
  then show ?thesis by (simp add: all_entries_def length_concat comp_def)
qed

lemma own_id_unknown:
  assumes "wf_table rt"
  shows "entry_map rt (reference_id rt) = None"
proof (rule ccontr)
  assume "entry_map rt (reference_id rt) \<noteq> None"
  then obtain i e where "i < length (buckets rt)" "e \<in> set (contents (buckets rt ! i))"
    "entry_id e = reference_id rt"
    by (auto simp: entry_map_Some_iff [OF assms] in_all_entries)
  then show False
    using entry_home(2) [OF assms] prefix_bounds(2) [OF wf_tableD(1) wf_tableD(1), OF assms assms]
    by (metis entry_prefix_def less_irrefl)
qed

lemma can_updateI:
  "wf_table rt \<Longrightarrow> wf_id (contact_id n) \<Longrightarrow> contact_id n \<noteq> reference_id rt \<Longrightarrow> can_update rt n"
  by (simp add: can_update_def)

section \<open>Ratings\<close>

text \<open>Sixteen minutes: a whole-minute count of at most 15.\<close>

lemma elapsed_minutes_le_15: "elapsed_minutes now t \<le> 15 \<longleftrightarrow> now - t < 960 * 10 ^ 9"
proof -
  have "max 0 (now - t) div 10 ^ 9 div 60 = max 0 (now - t) div 60000000000"
    by (simp add: zdiv_zmult2_eq [symmetric])
  then show ?thesis by (simp add: elapsed_minutes_def) linarith
qed

section \<open>Discarded nodes\<close>

lemma discarded_only:
  fixes rt n
  defines "k \<equiv> home (reference_id rt) n (length (buckets rt))"
  assumes "wf_table rt" "wf_id (contact_id n)" "contact_id n \<noteq> reference_id rt"
    and "update rt n seen clk = Ok rt'" "entry_map rt' (contact_id n) = None"
  shows "entry_map rt' = entry_map rt \<and> length (contents (buckets rt ! k)) = BUCKET_SIZE \<and>
    (\<forall>e \<in> set (contents (buckets rt ! k)). \<exists>i. \<not> bad_at clk i e) \<and>
    (Suc k < length (buckets rt) \<or> k = 159 \<or>
      (\<forall>e \<in> set (seen_entry n seen clk # contents (buckets rt ! k)).
        entry_prefix (reference_id rt) e = k) \<or>
      (\<forall>e \<in> set (seen_entry n seen clk # contents (buckets rt ! k)).
        entry_prefix (reference_id rt) e \<noteq> k))"
proof -
  note can = can_updateI [OF assms(2-4)]
  have wf': "wf_table rt'" and step: "table_step (reference_id rt) n seen clk (abs_table rt) (abs_table rt')"
    using update_step [OF can, of seen clk] assms(5) by (simp_all add: makes_step_def)
  have k: "k < length (abs_table rt)" "k = home (reference_id rt) n (length (abs_table rt))"
    using can_updateD(4) [OF can] by (simp_all add: k_def)
  have nth: "abs_table rt ! k = mset (contents (buckets rt ! k))"
    using k(1) by (simp add: abs_table_nth)
  have gone: "\<not> (\<exists>e \<in># sum_list (abs_table rt'). entry_id e = contact_id n)"
    using assms(6) entry_map_Some_iff [OF wf'] by (metis mset_all_entries not_None_eq set_mset_mset)
  show ?thesis
  proof (rule table_step_entries [OF step, folded k(2), OF k(1)], goal_cases)
    case 4
    with abs_table_entry_map [OF can_updateD(1) [OF can] wf'] show ?thesis
      by (simp add: nth)
  qed (use gone in auto)
qed

text \<open>
  The witness is the case the code's comment leaves open: eight contacts of prefix length 1 fill
  the only bucket and a contact of prefix length 2 is discarded, although splitting twice would
  make room.
\<close>

section \<open>Properties\<close>

text \<open>
  C2. On a well-formed table and a node other than the table's own, \<open>update\<close> never panics, keeps
  the invariant and refines the abstract k-bucket discipline: it makes exactly one of the steps
  refresh, insert, replace, split and discard, each under its condition.
\<close>

theorem update_refines_table_step:
  assumes "wf_table rt" "wf_id (contact_id n)" "contact_id n \<noteq> reference_id rt"
  shows "\<exists>rt'. update rt n seen clk = Ok rt' \<and> wf_table rt' \<and> reference_id rt' = reference_id rt \<and>
    table_step (reference_id rt) n seen clk (abs_table rt) (abs_table rt')"
  using update_step [OF can_updateI [OF assms]] by (simp add: makes_step_def)

theorem update_refines_table_step_witness:
  "\<exists>rt'. update (full_table Response) (example_contact 64) Query example_clock = Ok rt' \<and>
    wf_table rt' \<and> reference_id rt' = zero_id \<and>
    table_step zero_id (example_contact 64) Query example_clock
      (abs_table (full_table Response)) (abs_table rt')"
  using update_refines_table_step [of "full_table Response" "example_contact 64" Query example_clock]
    wf_full_table by simp

text \<open>
  C5. Seen as a finite map from ids to entries, an update refreshes the entry of a known node; an
  unknown node is added, or takes the place of one entry that is rated bad, or is discarded with
  the map unchanged. No other entry is lost or changed.
\<close>

theorem update_map:
  assumes "wf_table rt" "wf_id (contact_id n)" "contact_id n \<noteq> reference_id rt"
    and "update rt n seen clk = Ok rt'"
  shows "update_outcome n seen clk (entry_map rt) (entry_map rt')"
  using update_step [OF can_updateI [OF assms(1-3)], of seen clk] assms(4)
    table_step_outcome [OF can_updateI [OF assms(1-3)], of rt' seen clk]
  by (simp add: makes_step_def)

theorem update_map_witness:
  "\<exists>rt'. update (full_table Response) (example_contact 128) Query example_clock = Ok rt' \<and>
    update_outcome (example_contact 128) Query example_clock
      (entry_map (full_table Response)) (entry_map rt')"
proof -
  let ?m = "update (full_table Response) (example_contact 128) Query example_clock"
  have "case ?m of Ok _ \<Rightarrow> True | _ \<Rightarrow> False" by code_simp
  then obtain rt' where "?m = Ok rt'" by (cases ?m) auto
  with update_map [OF _ _ _ this] wf_full_table show ?thesis by simp
qed

text \<open>
  C4. Every table that updates can produce from a new one is well formed and keeps the node's own
  id: the buckets tile the prefix lengths 0 to 159 in order, every contact is in the bucket of
  its prefix length. From such a table every update with another id returns.
\<close>

theorem reachable_tables:
  assumes "wf_id ref" "reachable ref rt"
  shows "wf_table rt \<and> reference_id rt = ref \<and>
    (\<forall>n seen clk. wf_id (contact_id n) \<longrightarrow> contact_id n \<noteq> ref \<longrightarrow> \<not> crashes (update rt n seen clk))"
proof -
  have wf: "wf_table rt" "reference_id rt = ref" using reachable_wf [OF assms] by auto
  have "\<not> crashes (update rt n seen clk)" if "wf_id (contact_id n)" "contact_id n \<noteq> ref" for n seen clk
    using update_step [OF can_updateI [OF wf(1) that(1)], of seen clk] that(2) wf(2)
    by (auto simp: makes_step_def)
  with wf show ?thesis by blast
qed

theorem reachable_tables_witness:
  "\<not> crashes (update (table_new zero_id) (example_contact 1) Response example_clock)"
  using reachable_tables [of zero_id "table_new zero_id"] reachable.start by simp

text \<open>
  C37. A reachable table holds at most eight contacts per bucket, no two with the same id and none
  with the table's own id.
\<close>

theorem reachable_contacts:
  assumes "wf_id ref" "reachable ref rt"
  shows "distinct (map entry_id (all_entries rt)) \<and> entry_map rt ref = None \<and>
    (\<forall>b \<in> set (buckets rt). length (contents b) \<le> 8) \<and>
    length (all_entries rt) \<le> 8 * length (buckets rt) \<and> length (buckets rt) \<le> 160"
proof -
  have wf: "wf_table rt" "reference_id rt = ref" using reachable_wf [OF assms] by simp_all
  have "length (contents b) \<le> 8" if "b \<in> set (buckets rt)" for b
    using wf_tableD(6) [OF wf(1)] that view_bound
    by (auto simp: in_set_conv_nth wf_bucket_def BUCKET_SIZE_def)
  with wf show ?thesis
    using distinct_all_entries own_id_unknown length_all_entries wf_tableD(4)
    by (auto simp: BUCKET_SIZE_def)
qed

theorem reachable_contacts_witness:
  "\<exists>rt. reachable zero_id rt \<and> all_entries rt \<noteq> [] \<and> distinct (map entry_id (all_entries rt)) \<and>
    length (all_entries rt) \<le> 8 * length (buckets rt)"
proof -
  let ?m = "update (table_new zero_id) (example_contact 1) Response example_clock"
  have "case ?m of Ok rt \<Rightarrow> all_entries rt \<noteq> [] | _ \<Rightarrow> False" by code_simp
  then obtain rt where rt: "?m = Ok rt" "all_entries rt \<noteq> []" by (cases ?m) auto
  have "reachable zero_id rt" by (rule reachable.step [OF reachable.start _ rt(1)]) simp
  with reachable_contacts [of zero_id rt] rt(2) show ?thesis by auto
qed

text \<open>
  An update never loses a contact without gaining one: the number of contacts stays or grows by
  one. The table grows by at most one bucket, and only when the new node falls into its last
  bucket and that is full.
\<close>

theorem update_growth:
  assumes "wf_table rt" "wf_id (contact_id n)" "contact_id n \<noteq> reference_id rt"
    and "update rt n seen clk = Ok rt'"
  shows "length (all_entries rt) \<le> length (all_entries rt') \<and>
    length (all_entries rt') \<le> Suc (length (all_entries rt)) \<and>
    (length (buckets rt') = length (buckets rt) \<or>
     length (buckets rt') = Suc (length (buckets rt)) \<and>
       home (reference_id rt) n (length (buckets rt)) = length (buckets rt) - 1 \<and>
       length (contents (last (buckets rt))) = BUCKET_SIZE)"
proof -
  note can = can_updateI [OF assms(1-3)]
  have step: "table_step (reference_id rt) n seen clk (abs_table rt) (abs_table rt')"
    using update_step [OF can, of seen clk] assms(4) by (simp add: makes_step_def)
  have k: "home (reference_id rt) n (length (abs_table rt)) < length (abs_table rt)"
    using can_updateD(4) [OF can] by simp
  have "last (buckets rt) = buckets rt ! (length (buckets rt) - 1)"
    using wf_tableD(2) [OF assms(1)] by (rule last_conv_nth)
  moreover have "size (sum_list (abs_table r)) = length (all_entries r)" for r
    by (metis mset_all_entries size_mset)
  moreover have "Suc (home (reference_id rt) n (length (buckets rt))) = length (buckets rt) \<Longrightarrow>
      length (buckets rt) - 1 = home (reference_id rt) n (length (buckets rt))" by linarith
  ultimately show ?thesis
    using table_step_length [OF step] table_step_size [OF step k] k by (auto simp: abs_table_nth)
qed

theorem update_growth_witness:
  "\<exists>rt'. update (full_table Response) (example_contact 64) Query example_clock = Ok rt' \<and>
    length (buckets rt') \<le> 2 \<and> length (all_entries rt') \<le> 9"
proof -
  let ?m = "update (full_table Response) (example_contact 64) Query example_clock"
  have "case ?m of Ok _ \<Rightarrow> True | _ \<Rightarrow> False" by code_simp
  then obtain rt' where rt': "?m = Ok rt'" by (cases ?m) auto
  moreover have "length (buckets (full_table Response)) = 1" "length (all_entries (full_table Response)) = 8"
    by code_simp+
  ultimately show ?thesis
    using update_growth [OF _ _ _ rt'] wf_full_table by auto
qed

text \<open>
  C29. A node is discarded only when its bucket is full, none of its entries is bad at every
  reading of the clock, and splitting that bucket once gives no room: it is not the last one, or it
  covers one prefix length, or all nine nodes fall into the same half. In the last case a second
  split may make room, which the code does not try.
\<close>

theorem update_discards_only:
  fixes rt n
  defines "k \<equiv> home (reference_id rt) n (length (buckets rt))"
  assumes "wf_table rt" "wf_id (contact_id n)" "contact_id n \<noteq> reference_id rt"
    and "update rt n seen clk = Ok rt'" "entry_map rt' (contact_id n) = None"
  shows "entry_map rt' = entry_map rt \<and> length (contents (buckets rt ! k)) = BUCKET_SIZE \<and>
    (\<forall>e \<in> set (contents (buckets rt ! k)). \<exists>i. \<not> bad_at clk i e) \<and>
    (Suc k < length (buckets rt) \<or> k = 159 \<or>
      (\<forall>e \<in> set (seen_entry n seen clk # contents (buckets rt ! k)).
        entry_prefix (reference_id rt) e = k) \<or>
      (\<forall>e \<in> set (seen_entry n seen clk # contents (buckets rt ! k)).
        entry_prefix (reference_id rt) e \<noteq> k))"
  unfolding k_def by (rule discarded_only [OF assms(2-6)])

theorem update_discards_only_witness:
  "\<exists>rt'. update lopsided_table (example_contact 32) Response example_clock = Ok rt' \<and>
    entry_map rt' (example_id 32) = None \<and> entry_map rt' = entry_map lopsided_table"
proof -
  let ?m = "update lopsided_table (example_contact 32) Response example_clock"
  have "case ?m of Ok rt' \<Rightarrow> entry_map rt' (example_id 32) = None | _ \<Rightarrow> False" by code_simp
  then obtain rt' where rt': "?m = Ok rt'" "entry_map rt' (example_id 32) = None" by (cases ?m) auto
  with update_discards_only [OF _ _ _ rt'(1)] wf_lopsided_table show ?thesis by simp
qed

text \<open>
  The rating of an entry: questionable if it was never heard of, good if it has ever responded
  and a response or a query of it is less than sixteen minutes old, bad otherwise. A
  node that has only sent queries is bad, however recent they are.
\<close>

theorem rating_spec:
  "rating e now_q now_r =
    (case (last_query e, last_response e) of
       (None, None) \<Rightarrow> Questionable
     | (Some _, None) \<Rightarrow> Bad
     | (q, Some r) \<Rightarrow>
         if now_r - r < 960 * 10 ^ 9 \<or> (\<exists>t. q = Some t \<and> now_q - t < 960 * 10 ^ 9)
         then Good else Bad)"
  by (simp add: rating_def elapsed_minutes_le_15 split: option.split)

lemma bad_query_only: "last_response e = None \<Longrightarrow> last_query e \<noteq> None \<Longrightarrow> bad_at clk i e"
  by (auto simp: bad_at_def rating_def)

text \<open>
  An entry that was only ever seen in a query gives way at once: while the new node's bucket
  holds such an entry, the new node is stored.
\<close>

theorem query_only_gives_way:
  fixes rt n
  defines "k \<equiv> home (reference_id rt) n (length (buckets rt))"
  assumes "wf_table rt" "wf_id (contact_id n)" "contact_id n \<noteq> reference_id rt"
    and "e \<in> set (contents (buckets rt ! k))" "last_response e = None" "last_query e \<noteq> None"
  shows "\<exists>rt'. update rt n seen clk = Ok rt' \<and> entry_map rt' (contact_id n) \<noteq> None"
proof -
  note can = can_updateI [OF assms(2-4)]
  obtain rt' where ok: "update rt n seen clk = Ok rt'" and wf': "wf_table rt'"
    and step: "table_step (reference_id rt) n seen clk (abs_table rt) (abs_table rt')"
    using update_step [OF can, of seen clk] by (auto simp: makes_step_def)
  have k: "k < length (abs_table rt)" "k = home (reference_id rt) n (length (abs_table rt))"
    using can_updateD(4) [OF can] by (simp_all add: k_def)
  have e: "e \<in># abs_table rt ! k" "\<forall>i. bad_at clk i e"
    using assms(5-7) k(1) by (simp_all add: abs_table_nth bad_query_only)
  have "\<exists>e \<in># sum_list (abs_table rt'). entry_id e = contact_id n"
    by (rule table_step_entries [OF step, folded k(2), OF k(1)]) (use e in auto)
  then have "entry_map rt' (contact_id n) \<noteq> None"
    using entry_map_Some_iff [OF wf'] by (metis mset_all_entries option.distinct(1) set_mset_mset)
  with ok show ?thesis by blast
qed

end
