(* ===== verification/Routing_Find.thy ===== *)
theory Routing_Find
  imports Routing_Reachable Node_Distance
begin

text \<open>
  \<open>find\<close> returns the contact with the wanted id if the table has it, and otherwise up to eight
  contacts: those of the target's own bucket, then those of the neighbouring buckets at growing
  distance, the lower one first. \<open>visit_order\<close> is the order in which the loop reaches them.
\<close>

section \<open>The order of the search\<close>

definition ring :: "bucket list \<Rightarrow> nat \<Rightarrow> nat \<Rightarrow> routing_entry list" where
  "ring bs k offset =
     (if offset \<le> k then contents (bs ! (k - offset)) else []) @
     (if k + offset < length bs then contents (bs ! (k + offset)) else [])"

definition visit_order :: "bucket list \<Rightarrow> nat \<Rightarrow> routing_entry list" where
  "visit_order bs k = contents (bs ! k) @ concat (map (ring bs k) [1..<length bs])"

lemma push_entries_view:
  assumes "wf_vec r" "length (view r) < BUCKET_SIZE"
  shows "\<exists>r'. push_entries es r = Ok r' \<and> wf_vec r' \<and>
    view r' = take BUCKET_SIZE (view r @ map node es)"
  using assms
proof (induction es arbitrary: r)
  case Nil
  then show ?case by simp
next
  case (Cons e es)
  obtain r1 where r1: "push r (node e) = Ok r1" "wf_vec r1" "view r1 = view r @ [node e]"
    using push_view [OF Cons.prems] by blast
  show ?case
  proof (cases "is_full r1")
    case True
    then have "take BUCKET_SIZE (view r1 @ map node es) = view r1"
      using is_full_iff [OF r1(2)] by simp
    with True r1 show ?thesis by (simp del: take_append)
  next
    case False
    then have "length (view r1) < BUCKET_SIZE"
      using is_full_iff [OF r1(2)] view_bound [OF r1(2)] by linarith
    from Cons.IH [OF r1(2) this] False r1 show ?thesis by auto
  qed
qed

lemma push_bucket_view:
  assumes "wf_vec r" "length (view r) < BUCKET_SIZE" "i < length bs" "wf_vec (entries (bs ! i))"
  shows "\<exists>r'. push_bucket bs i r = Ok r' \<and> wf_vec r' \<and>
    view r' = take BUCKET_SIZE (view r @ map node (contents (bs ! i)))"
  using push_entries_view [OF assms(1,2)] assms(3,4) by (simp add: push_bucket_def)

lemma take_append_take: "take n (take n xs @ ys) = take n (xs @ ys)"
  by (simp add: min_def)

text \<open>One round of the loop adds the contacts of its two buckets.\<close>

lemma spread_round:
  assumes "wf_vec r" "length (view r) < BUCKET_SIZE" "k < length bs" "0 < offset"
    and "\<forall>i < length bs. wf_vec (entries (bs ! i))"
  shows "\<exists>r'. and_then (if k \<ge> offset then push_bucket bs (k - offset) r else Ok r) (\<lambda>r.
      if k + offset < length bs \<and> is_not_full r then push_bucket bs (k + offset) r else Ok r) =
        Ok r' \<and> wf_vec r' \<and> view r' = take BUCKET_SIZE (view r @ map node (ring bs k offset))"
proof -
  obtain r1 where r1: "(if k \<ge> offset then push_bucket bs (k - offset) r else Ok r) = Ok r1"
    "wf_vec r1" "view r1 = take BUCKET_SIZE
      (view r @ map node (if offset \<le> k then contents (bs ! (k - offset)) else []))"
  proof (cases "offset \<le> k")
    case True
    moreover have "k - offset < length bs" using assms(3) by simp
    ultimately show thesis
      using push_bucket_view [OF assms(1,2), of "k - offset" bs] assms(5) that by auto
  next
    case False
    with assms that [of r] show thesis by simp
  qed
  show ?thesis
  proof (cases "k + offset < length bs \<and> is_not_full r1")
    case True
    then obtain r2 where "push_bucket bs (k + offset) r1 = Ok r2" "wf_vec r2"
      "view r2 = take BUCKET_SIZE (view r1 @ map node (contents (bs ! (k + offset))))"
      using push_bucket_view [OF r1(2), of "k + offset" bs] assms(5) is_not_full_iff [OF r1(2)] by auto
    with True r1 show ?thesis by (simp add: ring_def take_append_take del: take_append)
  next
    case False
    then have "\<not> k + offset < length bs \<or> length (view r1) = BUCKET_SIZE"
      using is_not_full_iff [OF r1(2)] view_bound [OF r1(2)] by auto
    then have "view r1 = take BUCKET_SIZE (view r @ map node (ring bs k offset))"
      using r1(3) by (auto simp: ring_def)
    with r1(1,2) show ?thesis by (simp add: if_not_P [OF False] del: take_append)
  qed
qed

lemma ring_outside: "k < offset \<Longrightarrow> length bs \<le> k + offset \<Longrightarrow> ring bs k offset = []"
  by (simp add: ring_def)

lemma spread_view:
  assumes "wf_vec r" "k < length bs" "0 < offset" "\<forall>i < length bs. wf_vec (entries (bs ! i))"
  shows "\<exists>r'. spread bs k offset r = Ok r' \<and> wf_vec r' \<and>
    view r' = take BUCKET_SIZE (view r @ map node (concat (map (ring bs k) [offset..<length bs])))"
  using assms
proof (induction "length bs - offset" arbitrary: offset r)
  case 0
  then have "length bs \<le> offset" by simp
  with 0 show ?case
    using view_bound [OF \<open>wf_vec r\<close>] by (simp add: spread.simps [of bs k offset r])
next
  case (Suc m)
  let ?rest = "\<lambda>j. concat (map (ring bs k) [j..<length bs])"
  have rest: "?rest offset = ring bs k offset @ ?rest (offset + 1)"
    using Suc.hyps(2) by (simp add: upt_conv_Cons)
  show ?case
  proof (cases "is_not_full r \<and> (k \<ge> offset \<or> k + offset < length bs)")
    case True
    then have room: "length (view r) < BUCKET_SIZE" using is_not_full_iff [OF Suc.prems(1)] by simp
    obtain r1 where r1: "and_then (if k \<ge> offset then push_bucket bs (k - offset) r else Ok r)
        (\<lambda>r. if k + offset < length bs \<and> is_not_full r then push_bucket bs (k + offset) r
          else Ok r) = Ok r1"
      "wf_vec r1" "view r1 = take BUCKET_SIZE (view r @ map node (ring bs k offset))"
      using spread_round [OF Suc.prems(1) room Suc.prems(2-4)] by blast
    have "spread bs k offset r = spread bs k (offset + 1) r1"
      using True r1(1) by (simp add: spread.simps [of bs k offset r] flip: and_then_assoc)
    moreover have "\<exists>r'. spread bs k (offset + 1) r1 = Ok r' \<and> wf_vec r' \<and>
        view r' = take BUCKET_SIZE (view r1 @ map node (?rest (offset + 1)))"
      using Suc.hyps r1(2) Suc.prems(2,4) by (intro Suc.hyps(1)) simp_all
    ultimately show ?thesis
      unfolding rest map_append append_assoc [symmetric] r1(3) take_append_take by simp
  next
    case False
    have "take BUCKET_SIZE (view r @ map node (?rest offset)) = view r"
    proof (cases "is_not_full r")
      case True
      with False have "ring bs k j = []" if "offset \<le> j" for j
        using that by (intro ring_outside) linarith+
      then have "?rest offset = []" by simp
      then show ?thesis using view_bound [OF Suc.prems(1)] by simp
    next
      case full: False
      then show ?thesis
        using is_not_full_iff [OF Suc.prems(1)] view_bound [OF Suc.prems(1)] by simp
    qed
    with Suc.prems(1) show ?thesis
      by (simp add: spread.simps [of bs k offset r] if_not_P [OF False] del: take_append)
  qed
qed

text \<open>The first loop: an exact match, or all contacts of the bucket.\<close>

lemma scan_bucket_spec:
  assumes "wf_vec r" "length (view r) + length es \<le> BUCKET_SIZE"
  shows "(\<exists>e \<in> set es. entry_id e = target \<and> scan_bucket target es r = Ok (Inl (node e))) \<or>
    (\<forall>e \<in> set es. entry_id e \<noteq> target) \<and>
      (\<exists>r'. scan_bucket target es r = Ok (Inr r') \<and> wf_vec r' \<and> view r' = view r @ map node es)"
  using assms
proof (induction es arbitrary: r)
  case Nil
  then show ?case by simp
next
  case (Cons e es)
  show ?case
  proof (cases "entry_id e = target")
    case True
    then show ?thesis by simp
  next
    case False
    obtain r1 where r1: "push r (node e) = Ok r1" "wf_vec r1" "view r1 = view r @ [node e]"
      using push_view [OF Cons.prems(1), of "node e"] Cons.prems(2) by auto
    with Cons.IH [OF r1(2)] Cons.prems(2) False show ?thesis by auto
  qed
qed

section \<open>The result of a search\<close>

text \<open>The search in any table whose vectors are intact, given the bucket where it starts.\<close>

lemma find_node_bucket:
  fixes rt target
  defines "bs \<equiv> buckets rt"
  assumes "bucket_for bs (common_prefix_length (reference_id rt) target) = Ok (k, bs ! k)"
    and k: "k < length bs" and vecs: "\<forall>i < length bs. wf_vec (entries (bs ! i))"
  obtains (exact) e where "e \<in> set (contents (bs ! k))" "entry_id e = target"
      "find_node rt target = Ok (Exact (node e))"
    | (closest) r where "\<forall>e \<in> set (contents (bs ! k)). entry_id e \<noteq> target"
      "find_node rt target = Ok (Closest r)" "wf_vec r"
      "view r = take BUCKET_SIZE (map node (visit_order bs k))"
proof -
  let ?es = "contents (bs ! k)"
  have wf: "wf_vec (entries (bs ! k))" using vecs k by blast
  have unfold: "find_node rt target = and_then (scan_bucket target ?es new_vec) (\<lambda>r. case r of
        Inl c \<Rightarrow> Ok (Exact c)
      | Inr result \<Rightarrow> and_then (spread bs k (Suc 0) result) (\<lambda>result. Ok (Closest result)))"
    using assms(2) wf unfolding bs_def by (simp add: find_node_def Let_def)
  consider e where "e \<in> set ?es" "entry_id e = target"
      "scan_bucket target ?es new_vec = Ok (Inl (node e))"
    | r where "\<forall>e \<in> set ?es. entry_id e \<noteq> target" "scan_bucket target ?es new_vec = Ok (Inr r)"
      "wf_vec r" "view r = map node ?es"
    using scan_bucket_spec [OF wf_new_vec, of ?es target] view_bound [OF wf] by auto
  then show thesis
  proof cases
    case 1
    with unfold show thesis by (intro exact) simp_all
  next
    case 2
    obtain r' where "spread bs k 1 r = Ok r'" "wf_vec r'"
      "view r' = take BUCKET_SIZE (view r @ map node (concat (map (ring bs k) [1..<length bs])))"
      using spread_view [OF 2(3) k _ vecs, of "Suc 0"] by auto
    with 2 unfold show thesis by (intro closest) (simp_all add: visit_order_def del: take_append)
  qed
qed

lemma find_node_eq:
  fixes rt target
  defines "k \<equiv> bucket_index (length (buckets rt)) (common_prefix_length (reference_id rt) target)"
  assumes wf: "wf_table rt" and t: "wf_id target" "target \<noteq> reference_id rt"
  shows "case entry_map rt target of
      Some e \<Rightarrow> find_node rt target = Ok (Exact (node e))
    | None \<Rightarrow> \<exists>r. find_node rt target = Ok (Closest r) \<and> wf_vec r \<and>
        view r = take BUCKET_SIZE (map node (visit_order (buckets rt) k))"
proof -
  define n where "n = \<lparr>contact_id = target, address = \<lparr>ip = 0, port = 0\<rparr>\<rparr>"
  have can: "can_update rt n" using wf t by (simp add: can_update_def n_def)
  have p: "common_prefix_length (reference_id rt) target < 160"
    using can_updateD(3) [OF can] by (simp add: n_def)
  have home: "home (reference_id rt) n (length (buckets rt)) = k"
    by (simp add: home_def k_def n_def)
  have map: "entry_map rt target = Some e \<longleftrightarrow>
      e \<in> set (contents (buckets rt ! k)) \<and> entry_id e = target" for e
    using entry_map_home [OF can, unfolded home, of e] by (simp add: n_def)
  have vecs: "\<forall>i < length (buckets rt). wf_vec (entries (buckets rt ! i))"
    using wf_tableD(6) [OF wf] by (simp add: wf_bucket_def)
  show ?thesis
  proof (rule find_node_bucket [OF bucket_for_wf [OF wf p, folded k_def]
        home_bucketD(2) [OF can, unfolded home] vecs])
    fix e
    assume "e \<in> set (contents (buckets rt ! k))" "entry_id e = target"
      "find_node rt target = Ok (Exact (node e))"
    then show ?thesis using map [of e] by simp
  next
    fix r
    assume "\<forall>e \<in> set (contents (buckets rt ! k)). entry_id e \<noteq> target"
      and r: "find_node rt target = Ok (Closest r)" "wf_vec r"
        "view r = take BUCKET_SIZE (map node (visit_order (buckets rt) k))"
    then have "entry_map rt target = None" using map by (metis not_None_eq)
    with r show ?thesis by simp
  qed
qed

section \<open>The search reaches every contact once\<close>

lemma mset_concat_append:
  "mset (concat (map (\<lambda>i. f i @ g i) is)) = mset (concat (map f is)) + mset (concat (map g is))"
  by (induction "is") simp_all

lemma concat_below:
  assumes "k < n"
  shows "concat (map (\<lambda>i. if i \<le> k then c (k - i) else []) [1..<n]) = concat (map c (rev [0..<k]))"
proof -
  have split: "[1..<n] = [1..<Suc k] @ [Suc k..<n]"
    using assms upt_add_eq_append [of 1 "Suc k" "n - Suc k"] by simp
  have "map (\<lambda>i. if i \<le> k then c (k - i) else []) [1..<Suc k] = map c (rev [0..<k])"
    by (rule nth_equalityI) (simp_all add: rev_nth del: upt_Suc)
  moreover have "concat (map (\<lambda>i. if i \<le> k then c (k - i) else []) [Suc k..<n]) = []" by simp
  ultimately show ?thesis unfolding split by simp
qed

lemma concat_above:
  assumes "k < n"
  shows "concat (map (\<lambda>i. if k + i < n then c (k + i) else []) [1..<n]) = concat (map c [Suc k..<n])"
proof -
  have split: "[1..<n] = [1..<n - k] @ [n - k..<n]"
    using assms upt_add_eq_append [of 1 "n - k" k] by simp
  have "map (\<lambda>i. if k + i < n then c (k + i) else []) [1..<n - k] = map c [Suc k..<n]"
    by (rule nth_equalityI) (auto simp: less_diff_conv)
  moreover have "concat (map (\<lambda>i. if k + i < n then c (k + i) else []) [n - k..<n]) = []"
    using assms by auto
  ultimately show ?thesis unfolding split by simp
qed

lemma mset_visit_order:
  assumes "k < length bs"
  shows "mset (visit_order bs k) = mset (concat (map contents bs))"
proof -
  let ?c = "\<lambda>i. contents (bs ! i)" and ?n = "length bs"
  have "mset (visit_order bs k) =
      mset (?c k) + (mset (concat (map ?c (rev [0..<k]))) + mset (concat (map ?c [Suc k..<?n])))"
    unfolding visit_order_def ring_def mset_append mset_concat_append
      concat_below [OF assms, of ?c] concat_above [OF assms, of ?c] ..
  also have "\<dots> = mset (concat (map ?c ([0..<k] @ k # [Suc k..<?n])))"
    by (simp add: mset_concat rev_map [symmetric] sum_list_rev ac_simps)
  also have "[0..<k] @ k # [Suc k..<?n] = [0..<?n]"
    using assms upt_add_eq_append [of 0 k "?n - k"] by (simp add: upt_conv_Cons)
  also have "map ?c [0..<?n] = map contents bs" by (rule nth_equalityI) simp_all
  finally show ?thesis .
qed

section \<open>Nearness of the visited contacts\<close>

text \<open>
  The contacts of the target's own bucket share a longer prefix with the target than all others;
  those of the buckets above it share a longer one than those of the buckets below it.
\<close>

lemma own_bucket_nearer:
  fixes rt target
  defines "k \<equiv> bucket_index (length (buckets rt)) (common_prefix_length (reference_id rt) target)"
  assumes wf: "wf_table rt" and t: "wf_id target" "target \<noteq> reference_id rt"
    and e: "e \<in> set (contents (buckets rt ! k))"
    and f: "i < length (buckets rt)" "i \<noteq> k" "f \<in> set (contents (buckets rt ! i))"
  shows "common_prefix_length target (entry_id f) < common_prefix_length target (entry_id e)"
proof -
  let ?ref = "reference_id rt" and ?n = "length (buckets rt)"
  have k: "k < ?n" using wf_tableD(3) [OF wf] by (simp add: k_def bucket_index_less)
  note ref = wf_tableD(1) [OF wf]
  note he = entry_home [OF wf k e] and hf = entry_home [OF wf f(1,3)]
  have pt: "common_prefix_length ?ref target < 160" using prefix_bounds(3) [OF ref t(1)] t(2) by simp
  show ?thesis
  proof (cases "k < ?n - 1")
    case True
    then have "entry_prefix ?ref e = k" "common_prefix_length ?ref target = k" "entry_prefix ?ref f \<noteq> k"
      using he(1) hf(1) f(2) by (auto simp: k_def bucket_index_def min_def split: if_splits)
    with pt show ?thesis
      by (intro node.same_place_nearer [OF ref t(1) he(3) hf(3)]) (simp_all add: entry_prefix_def)
  next
    case False
    then have f_k: "entry_prefix ?ref f < k"
      using hf(1) f(1,2) k by (auto simp: bucket_index_def min_def split: if_splits)
    have tk: "k \<le> common_prefix_length ?ref target" "k \<le> entry_prefix ?ref e"
      using he(1) by (simp_all add: k_def bucket_index_def)
    have "common_prefix_length (entry_id f) target = common_prefix_length (entry_id f) ?ref"
      using f_k tk(1) node.commute [OF hf(3) ref]
      by (intro node.isosceles [OF hf(3) ref t(1)]) (simp add: entry_prefix_def)
    then have "common_prefix_length target (entry_id f) = entry_prefix ?ref f"
      using node.commute [OF hf(3) ref] node.commute [OF hf(3) t(1)]
      by (simp add: entry_prefix_def)
    moreover have "k \<le> common_prefix_length target (entry_id e)"
      using node.ultrametric [OF t(1) ref he(3)] tk node.commute [OF t(1) ref]
      by (simp add: entry_prefix_def)
    ultimately show ?thesis using f_k by simp
  qed
qed

lemma upper_nearer:
  fixes rt target
  defines "k \<equiv> bucket_index (length (buckets rt)) (common_prefix_length (reference_id rt) target)"
  assumes wf: "wf_table rt" and t: "wf_id target"
    and e: "i < k" "e \<in> set (contents (buckets rt ! i))"
    and f: "k < j" "j < length (buckets rt)" "f \<in> set (contents (buckets rt ! j))"
  shows "common_prefix_length target (entry_id e) < common_prefix_length target (entry_id f)"
proof -
  let ?ref = "reference_id rt" and ?n = "length (buckets rt)"
  note ref = wf_tableD(1) [OF wf]
  have i: "i < ?n" using e(1) f(1,2) by simp
  note he = entry_home [OF wf i e(2)] and hf = entry_home [OF wf f(2,3)]
  have ei: "entry_prefix ?ref e = i"
    using he(1) e(1) f(1,2) by (auto simp: bucket_index_def min_def split: if_splits)
  have tk: "common_prefix_length ?ref target = k" "k < entry_prefix ?ref f"
    using hf(1) f(1,2) by (auto simp: k_def bucket_index_def min_def split: if_splits)
  have sym: "common_prefix_length target ?ref = k"
    using node.commute [OF t(1) ref] tk(1) by simp
  have "common_prefix_length target (entry_id f) = k"
    using node.isosceles [OF t(1) ref hf(3)] tk sym by (simp add: entry_prefix_def)
  moreover have "common_prefix_length (entry_id e) target = i"
    using node.isosceles [OF he(3) ref t(1)] node.commute [OF he(3) ref] ei tk e(1)
    by (simp add: entry_prefix_def)
  ultimately show ?thesis using node.commute [OF he(3) t(1)] e(1) by simp
qed

section \<open>Properties\<close>

text \<open>
  C6. \<open>find\<close> never panics for a target other than the table's own id: it returns the contact if
  the table knows the target, and otherwise the first eight contacts in the order of the search.
\<close>

theorem find_result:
  fixes rt target
  defines "k \<equiv> bucket_index (length (buckets rt)) (common_prefix_length (reference_id rt) target)"
  assumes "wf_table rt" "wf_id target" "target \<noteq> reference_id rt"
  shows "case entry_map rt target of
      Some e \<Rightarrow> find_node rt target = Ok (Exact (node e))
    | None \<Rightarrow> \<exists>r. find_node rt target = Ok (Closest r) \<and> wf_vec r \<and>
        view r = take BUCKET_SIZE (map node (visit_order (buckets rt) k))"
  unfolding k_def by (rule find_node_eq [OF assms(2-4)])

theorem find_result_witness:
  "find_node three_buckets (example_id 32) = Ok (Exact (example_contact 32)) \<and>
   (\<exists>r. find_node three_buckets (example_id 33) = Ok (Closest r) \<and>
     view r = map example_contact [32, 128, 129, 130, 131, 132, 133, 134])"
proof -
  have "map_option node (entry_map three_buckets (example_id 32)) = Some (example_contact 32)"
    "entry_map three_buckets (example_id 33) = None"
    by code_simp+
  moreover have "take BUCKET_SIZE (map node (visit_order (buckets three_buckets)
      (bucket_index 3 (common_prefix_length zero_id (example_id 33))))) =
      map example_contact [32, 128, 129, 130, 131, 132, 133, 134]" "length (buckets three_buckets) = 3"
    by code_simp+
  ultimately show ?thesis
    using find_result [OF wf_three_buckets, of "example_id 32"]
      find_result [OF wf_three_buckets, of "example_id 33"] by auto
qed

lemma find_closest:
  assumes "wf_table rt" "wf_id target" "target \<noteq> reference_id rt" "entry_map rt target = None"
  obtains r where "find_node rt target = Ok (Closest r)" "wf_vec r"
    "view r = take BUCKET_SIZE (map node (visit_order (buckets rt)
      (bucket_index (length (buckets rt)) (common_prefix_length (reference_id rt) target))))"
  using find_node_eq [OF assms(1-3)] assms(4) by auto

lemma visit_order_entries:
  assumes "wf_table rt"
  shows "mset (visit_order (buckets rt) (bucket_index (length (buckets rt)) p)) = mset (all_entries rt)"
  using mset_visit_order [of "bucket_index (length (buckets rt)) p" "buckets rt"]
    wf_tableD(3) [OF assms]
  by (simp add: bucket_index_less all_entries_def)

text \<open>
  C27. When the target is not known, \<open>find\<close> returns contacts of the table, each once, and as many
  as there are up to eight.
\<close>

theorem find_closest_contacts:
  assumes "wf_table rt" "wf_id target" "target \<noteq> reference_id rt" "entry_map rt target = None"
  shows "\<exists>r. find_node rt target = Ok (Closest r) \<and> distinct (map contact_id (view r)) \<and>
    set (view r) \<subseteq> node ` set (all_entries rt) \<and>
    length (view r) = min 8 (length (all_entries rt))"
proof (rule find_closest [OF assms])
  fix r
  let ?vs = "visit_order (buckets rt)
    (bucket_index (length (buckets rt)) (common_prefix_length (reference_id rt) target))"
  assume r: "find_node rt target = Ok (Closest r)" "view r = take BUCKET_SIZE (map node ?vs)"
  note vs = visit_order_entries [OF assms(1), of "common_prefix_length (reference_id rt) target"]
  have "distinct (map entry_id ?vs)"
    using distinct_all_entries [OF assms(1)] distinct_entries_mset [OF vs, of entry_id] by simp
  then have "distinct (map contact_id (view r))"
    unfolding r(2) take_map map_map comp_def by (simp flip: take_map)
  moreover have "set (view r) \<subseteq> node ` set (all_entries rt)"
    unfolding r(2) mset_eq_setD [OF vs, symmetric] by (auto dest: in_set_takeD)
  moreover have "length (view r) = min 8 (length (all_entries rt))"
    unfolding r(2) using mset_eq_length [OF vs] by (simp add: BUCKET_SIZE_def)
  ultimately show ?thesis using r(1) by blast
qed

theorem find_closest_contacts_witness:
  "\<exists>r. find_node three_buckets (example_id 64) = Ok (Closest r) \<and> length (view r) = 8"
proof -
  have "entry_map three_buckets (example_id 64) = None" "length (all_entries three_buckets) = 9"
    by code_simp+
  with find_closest_contacts [OF wf_three_buckets, of "example_id 64"] show ?thesis by auto
qed

text \<open>
  C16. All contacts of the target's own bucket are returned, and each of them is nearer to the
  target in the XOR metric than every contact outside that bucket.
\<close>

theorem find_own_bucket_first:
  fixes rt target
  defines "k \<equiv> bucket_index (length (buckets rt)) (common_prefix_length (reference_id rt) target)"
  assumes "wf_table rt" "wf_id target" "target \<noteq> reference_id rt" "entry_map rt target = None"
    and "e \<in> set (contents (buckets rt ! k))"
  shows "(\<exists>r. find_node rt target = Ok (Closest r) \<and> node e \<in> set (view r)) \<and>
    (\<forall>f \<in> set (all_entries rt). f \<notin> set (contents (buckets rt ! k)) \<longrightarrow>
      id_value (distance target (entry_id e)) < id_value (distance target (entry_id f)))"
proof (rule find_closest [OF assms(2-5), folded k_def])
  fix r
  assume r: "find_node rt target = Ok (Closest r)"
    "view r = take BUCKET_SIZE (map node (visit_order (buckets rt) k))"
  have "k < length (buckets rt)" using wf_tableD(3) [OF assms(2)] by (simp add: k_def bucket_index_less)
  then have "length (contents (buckets rt ! k)) \<le> BUCKET_SIZE"
    using wf_tableD(6) [OF assms(2)] by (simp add: wf_bucket_def view_bound del: length_view)
  then have "node e \<in> set (view r)"
    unfolding r(2) visit_order_def using assms(6) by (simp del: length_view)
  moreover have "id_value (distance target (entry_id e)) < id_value (distance target (entry_id f))"
    if f: "f \<in> set (all_entries rt)" "f \<notin> set (contents (buckets rt ! k))" for f
  proof -
    obtain i where "i < length (buckets rt)" "f \<in> set (contents (buckets rt ! i))" "i \<noteq> k"
      using f unfolding in_all_entries by metis
    then show ?thesis
      using own_bucket_nearer [OF assms(2-4)] assms(6) by (intro prefix_orders_distance) (simp add: k_def)
  qed
  ultimately show ?thesis using r(1) by blast
qed

theorem find_own_bucket_first_witness:
  "\<exists>r. find_node three_buckets (example_id 33) = Ok (Closest r) \<and> example_contact 32 \<in> set (view r)"
proof -
  let ?e = "entry_update (entry_new (example_contact 32)) Response 0"
  have "entry_map three_buckets (example_id 33) = None"
    "?e \<in> set (contents (buckets three_buckets !
      bucket_index (length (buckets three_buckets)) (common_prefix_length zero_id (example_id 33))))"
    by code_simp+
  with find_own_bucket_first [OF wf_three_buckets, of "example_id 33" ?e] show ?thesis
    by (simp add: entry_new_def)
qed

text \<open>
  C38. The result need not be the nearest contacts: the search visits a lower bucket before the
  higher one at the same distance, whose contacts are nearer. When the target's own bucket and
  the one below it hold eight contacts, a contact of a bucket above is left out for a farther one.
\<close>

theorem find_misses_nearer:
  fixes rt target
  defines "k \<equiv> bucket_index (length (buckets rt)) (common_prefix_length (reference_id rt) target)"
  assumes "wf_table rt" "wf_id target" "target \<noteq> reference_id rt" "entry_map rt target = None"
    and "0 < k" "length (contents (buckets rt ! k)) < BUCKET_SIZE"
    and "BUCKET_SIZE \<le> length (contents (buckets rt ! k)) + length (contents (buckets rt ! (k - 1)))"
    and f: "k < j" "j < length (buckets rt)" "f \<in> set (contents (buckets rt ! j))"
  shows "\<exists>r e. find_node rt target = Ok (Closest r) \<and> e \<in> set (all_entries rt) \<and>
    node e \<in> set (view r) \<and> node f \<notin> set (view r) \<and>
    id_value (distance target (entry_id f)) < id_value (distance target (entry_id e))"
proof (rule find_closest [OF assms(2-5), folded k_def])
  fix r
  assume r: "find_node rt target = Ok (Closest r)"
    "view r = take BUCKET_SIZE (map node (visit_order (buckets rt) k))"
  let ?own = "contents (buckets rt ! k)" and ?below = "contents (buckets rt ! (k - 1))"
  have n: "k < length (buckets rt)" "1 < length (buckets rt)" "k - 1 < length (buckets rt)"
    using assms(6) f(1,2) by simp_all
  have "[1..<length (buckets rt)] = 1 # [2..<length (buckets rt)]"
    using n(2) by (simp add: upt_conv_Cons numeral_2_eq_2)
  then obtain rest where "visit_order (buckets rt) k = ?own @ ?below @ rest"
    using assms(6) by (simp add: visit_order_def ring_def del: upt_Suc)
  then have view: "view r = map node (take BUCKET_SIZE (?own @ ?below))"
    unfolding r(2) using assms(8) by (simp add: take_map del: length_view)
  then have "view r = map node ?own @ map node (take (BUCKET_SIZE - length ?own) ?below)"
    using assms(7) by (simp del: length_view)
  moreover have "take (BUCKET_SIZE - length ?own) ?below \<noteq> []"
    using assms(7,8) by (auto simp del: length_view)
  ultimately obtain e where e: "e \<in> set ?below" "node e \<in> set (view r)"
    by (metis UnCI in_set_takeD list.set_intros(1) list.set_map neq_Nil_conv rev_image_eqI set_append)
  then have "e \<in> set (all_entries rt)" using n(3) in_all_entries by blast
  moreover have "node f \<notin> set (view r)"
  proof
    assume "node f \<in> set (view r)"
    then obtain g i where "g \<in> set (contents (buckets rt ! i))" "i < j" "entry_id g = entry_id f"
      unfolding view using f(1) by (auto dest!: in_set_takeD)
    then show False
      using entry_home(1) [OF assms(2)] f(2,3) by (metis entry_prefix_def less_irrefl less_trans)
  qed
  moreover have "id_value (distance target (entry_id f)) < id_value (distance target (entry_id e))"
    using upper_nearer [OF assms(2,3), of "k - 1" e j f, folded k_def] e(1) f assms(6)
    by (intro prefix_orders_distance) simp
  ultimately show ?thesis using r(1) e(2) by blast
qed

theorem find_misses_nearer_witness:
  "\<exists>r e. find_node three_buckets (example_id 64) = Ok (Closest r) \<and>
    node e \<in> set (view r) \<and> example_contact 32 \<notin> set (view r) \<and>
    id_value (distance (example_id 64) (example_id 32)) <
      id_value (distance (example_id 64) (entry_id e))"
proof -
  let ?f = "entry_update (entry_new (example_contact 32)) Response 0"
  have k: "bucket_index (length (buckets three_buckets)) (common_prefix_length zero_id (example_id 64)) = 1"
    by code_simp
  have "entry_map three_buckets (example_id 64) = None" "?f \<in> set (contents (buckets three_buckets ! 2))"
    "length (contents (buckets three_buckets ! 1)) < BUCKET_SIZE" "2 < length (buckets three_buckets)"
    "BUCKET_SIZE \<le> length (contents (buckets three_buckets ! 1)) + length (contents (buckets three_buckets ! 0))"
    by code_simp+
  with find_misses_nearer [OF wf_three_buckets, of "example_id 64" 2 ?f] k show ?thesis
    by (auto simp: entry_new_def)
qed

text \<open>
  C28. After an update, \<open>find\<close> returns the updated node. For a known node it is the contact of the
  first update, whose address is not refreshed. A new node is found, with the contact that was
  given, whenever its bucket has room, or has an entry that is bad at every reading of the clock, or
  is the last one and both halves of its split get a node. Otherwise it is found or the table's
  entries are unchanged.
\<close>

theorem find_after_update:
  fixes rt n
  defines "k \<equiv> home (reference_id rt) n (length (buckets rt))"
  assumes "wf_table rt" "wf_id (contact_id n)" "contact_id n \<noteq> reference_id rt"
    and "update rt n seen clk = Ok rt'"
  shows "case entry_map rt (contact_id n) of
      Some e \<Rightarrow> find_node rt' (contact_id n) = Ok (Exact (node e))
    | None \<Rightarrow>
        (if length (contents (buckets rt ! k)) < BUCKET_SIZE \<or>
            (\<exists>e \<in> set (contents (buckets rt ! k)). \<forall>i. bad_at clk i e) \<or>
            Suc k = length (buckets rt) \<and> k < 159 \<and>
              (entry_prefix (reference_id rt) ` set (seen_entry n seen clk # contents (buckets rt ! k)) \<noteq> {k} \<and>
               k \<in> entry_prefix (reference_id rt) ` set (seen_entry n seen clk # contents (buckets rt ! k)))
         then find_node rt' (contact_id n) = Ok (Exact n)
         else find_node rt' (contact_id n) = Ok (Exact n) \<or> entry_map rt' = entry_map rt)"
proof -
  have step: "makes_step rt n seen clk (Ok rt')"
    using update_step [OF can_updateI [OF assms(2-4)], of seen clk] assms(5) by simp
  then have wf': "wf_table rt'" and ref: "contact_id n \<noteq> reference_id rt'"
    using assms(4) by (auto simp: makes_step_def)
  have "update_outcome n seen clk (entry_map rt) (entry_map rt')"
    using step table_step_outcome [OF can_updateI [OF assms(2-4)]] by (auto simp: makes_step_def)
  then have old: "case entry_map rt (contact_id n) of
      Some e \<Rightarrow> find_node rt' (contact_id n) = Ok (Exact (node e))
    | None \<Rightarrow> find_node rt' (contact_id n) = Ok (Exact n) \<or>
        entry_map rt' = entry_map rt \<and> entry_map rt' (contact_id n) = None"
    using find_node_eq [OF wf' assms(3) ref]
    by (auto simp: update_outcome_def split: option.splits)
  show ?thesis
  proof (cases "entry_map rt' (contact_id n) = None \<and> entry_map rt (contact_id n) = None")
    case True
    from discarded_only [OF assms(2-5), folded k_def] True old show ?thesis
      by (fastforce split: option.splits)
  next
    case False
    with old show ?thesis by (auto split: option.splits)
  qed
qed

theorem find_after_update_witness:
  "\<exists>rt'. update (table_new zero_id) (example_contact 7) Response example_clock = Ok rt' \<and>
    find_node rt' (example_id 7) = Ok (Exact (example_contact 7))"
proof -
  let ?m = "update (table_new zero_id) (example_contact 7) Response example_clock"
  have "case ?m of Ok rt \<Rightarrow> True | _ \<Rightarrow> False" by code_simp
  then obtain rt' where rt': "?m = Ok rt'" by (cases ?m) auto
  have "entry_map (table_new zero_id) = Map.empty"
    by (simp add: entry_map_def all_entries_def table_new_def bucket_new_def)
  moreover have "length (contents (buckets (table_new zero_id) !
      home zero_id (example_contact 7) (length (buckets (table_new zero_id))))) < BUCKET_SIZE"
    by code_simp
  ultimately show ?thesis using find_after_update [OF _ _ _ rt'] rt' by (auto simp: wf_table_new)
qed

text \<open>
  C39. Both operations panic on the table's own id: no bucket covers the prefix length 160 (the
  \<open>expect\<close> whose message says that this should never happen).
\<close>

theorem own_id_panics:
  assumes "wf_table rt"
  shows "find_node rt (reference_id rt) = Crash ExpectFailed \<and>
    update rt \<lparr>contact_id = reference_id rt, address = a\<rparr> seen clk = Crash ExpectFailed"
proof
  show "find_node rt (reference_id rt) = Crash ExpectFailed"
    using bucket_for_own [OF assms] prefix_bounds(2) [OF wf_tableD(1) wf_tableD(1), OF assms assms]
    by (simp add: find_node_def)
qed (rule update_own_id [OF assms], simp)

theorem own_id_panics_witness:
  "find_node (full_table Response) zero_id = Crash ExpectFailed \<and>
   update (full_table Response) \<lparr>contact_id = zero_id, address = \<lparr>ip = 1, port = 2\<rparr>\<rparr> Query example_clock =
     Crash ExpectFailed"
  using own_id_panics [of "full_table Response"] wf_full_table by simp

end
