(* ===== verification/Go_Find.thy ===== *)
theory Go_Find
  imports Go_Routing Routing_Find
begin

text \<open>
  \<open>addEntry\<close> and \<open>findNode\<close> of the Go routing table (\<open>go/routing_table.go\<close>), with what they promise.
  The search starts in the target's bucket and goes to the buckets at growing distance on both sides.
\<close>

section \<open>The search\<close>

text \<open>
  One bucket: an exact match (\<open>Inl\<close>), or its entries appended as far as there is space. Slicing to a
  negative length panics.
\<close>

definition visit_bucket ::
  "go_table \<Rightarrow> nat \<Rightarrow> node_id \<Rightarrow> node_info list \<Rightarrow> (node_info list + node_info list) panics" where
  "visit_bucket t i target result =
     and_then (index_at (table_buckets t) i) (\<lambda>b.
       let (entries, exact) = get_entry_or_all b target in
       if exact then Ok (Inl entries)
       else
         let space = int (table_bucket_size t) - int (length result);
             n = min space (int (length entries)) in
         if n < 0 then Crash IndexOutOfBounds else Ok (Inr (result @ take (nat n) entries)))"

function find_loop ::
  "go_table \<Rightarrow> node_id \<Rightarrow> nat \<Rightarrow> nat \<Rightarrow> node_info list \<Rightarrow> (node_info list \<times> bool) panics" where
  "find_loop t target start offset result =
     (if offset < start \<or> start + offset < length (table_buckets t) then
        and_then (if offset \<le> start then visit_bucket t (start - offset) target result else Ok (Inr result))
          (\<lambda>r. case r of Inl found \<Rightarrow> Ok (found, True) | Inr result \<Rightarrow>
        and_then (if offset > 0 \<and> start + offset < length (table_buckets t)
            then visit_bucket t (start + offset) target result else Ok (Inr result))
          (\<lambda>r. case r of Inl found \<Rightarrow> Ok (found, True) | Inr result \<Rightarrow>
        if length result \<ge> table_bucket_size t then Ok (result, False)
        else find_loop t target start (offset + 1) result))
      else Ok (result, False))"
  by pat_completeness auto
termination
  by (relation "measure (\<lambda>(t, _, start, offset, _). start + length (table_buckets t) - offset)") auto

declare find_loop.simps [simp del]

definition find_node_without_self :: "go_table \<Rightarrow> node_id \<Rightarrow> (node_info list \<times> bool) panics" where
  "find_node_without_self t target =
     (let max = length (table_buckets t) - 1;
          prefix = go_common_prefix_length (info_id (this_node t)) target in
      find_loop t target (min prefix max) 0 [])"

definition go_find_node :: "go_table \<Rightarrow> node_id \<Rightarrow> (node_info list \<times> bool) panics" where
  "go_find_node t target =
     (if info_id (this_node t) = target then Ok ([this_node t], True) else find_node_without_self t target)"

section \<open>Its order\<close>

text \<open>
  The entries at distance \<open>offset\<close> from bucket \<open>k\<close>, and the first distance the loop does not reach: its
  condition asks for \<open>k - offset > 0\<close>, so that bucket 0 is reached only while the loop runs for the
  buckets above.
\<close>

abbreviation entries_at :: "go_table \<Rightarrow> nat \<Rightarrow> node_info list" where
  "entries_at t i \<equiv> bucket_entries (table_buckets t ! i)"

definition go_ring :: "go_table \<Rightarrow> nat \<Rightarrow> nat \<Rightarrow> node_info list" where
  "go_ring t k offset =
     (if offset \<le> k then entries_at t (k - offset) else []) @
     (if offset > 0 \<and> k + offset < length (table_buckets t) then entries_at t (k + offset) else [])"

definition first_unreached :: "go_table \<Rightarrow> nat \<Rightarrow> nat" where
  "first_unreached t k = max k (length (table_buckets t) - k)"

definition search_order :: "go_table \<Rightarrow> nat \<Rightarrow> node_info list" where
  "search_order t k = concat (map (go_ring t k) [0..<first_unreached t k])"

lemma entry_or_all_eq:
  "entry_or_all all es i = (case find (\<lambda>e. info_id e = i) es of Some e \<Rightarrow> ([e], True) | None \<Rightarrow> (all, False))"
  by (induction es) auto

lemma visit_unknown:
  assumes "i < length (table_buckets t)" "target \<notin> info_id ` set (entries_at t i)"
    and "length result \<le> table_bucket_size t"
  shows "visit_bucket t i target result = Ok (Inr (take (table_bucket_size t) (result @ entries_at t i)))"
proof -
  have "find (\<lambda>e. info_id e = target) (entries_at t i) = None"
    using assms(2) by (auto simp: find_None_iff)
  moreover have "take (nat (min (int (table_bucket_size t) - int (length result)) (int (length es)))) es =
      take (table_bucket_size t - length result) es" for es :: "node_info list"
    using assms(3) by (cases "table_bucket_size t - length result \<le> length es")
      (auto simp: min_def nat_diff_distrib)
  ultimately show ?thesis
    using assms by (auto simp: visit_bucket_def get_entry_or_all_def entry_or_all_eq Let_def)
qed

lemma visit_known:
  assumes "i < length (table_buckets t)" "e \<in> set (entries_at t i)" "info_id e = target"
    and "distinct (map info_id (entries_at t i))"
  shows "visit_bucket t i target result = Ok (Inl [e])"
proof (cases "find (\<lambda>e. info_id e = target) (entries_at t i)")
  case None
  with assms(2,3) show ?thesis by (auto simp: find_None_iff)
next
  case (Some f)
  then have "f \<in> set (entries_at t i)" "info_id f = info_id e"
    using assms(3) by (auto simp: find_Some_iff)
  moreover have "inj_on info_id (set (entries_at t i))" using assms(4) by (simp add: distinct_map)
  ultimately have "f = e" using assms(2) by (auto dest: inj_onD)
  with Some assms(1) show ?thesis by (simp add: visit_bucket_def get_entry_or_all_def entry_or_all_eq)
qed

lemma go_ring_outside: "first_unreached t k \<le> offset \<Longrightarrow> \<not> (offset < k \<or> k + offset < length (table_buckets t))"
  by (auto simp: first_unreached_def)

lemma find_loop_unknown:
  fixes t target k
  defines "later \<equiv> \<lambda>offset. concat (map (go_ring t k) [offset..<first_unreached t k])"
  assumes k: "k < length (table_buckets t)"
    and unknown: "\<And>i. i < length (table_buckets t) \<Longrightarrow> target \<notin> info_id ` set (entries_at t i)"
    and "length result \<le> table_bucket_size t"
  shows "find_loop t target k offset result = Ok (take (table_bucket_size t) (result @ later offset), False)"
  using assms(4)
proof (induction "first_unreached t k - offset" arbitrary: offset result)
  case 0
  then show ?case
    using go_ring_outside [of t k offset] by (simp add: find_loop.simps [of t _ k offset] later_def)
next
  case (Suc m)
  let ?size = "table_bucket_size t"
  have later: "later offset = go_ring t k offset @ later (offset + 1)"
    using Suc.hyps(2) by (simp add: later_def upt_conv_Cons)
  have cond: "offset < k \<or> k + offset < length (table_buckets t)"
    using Suc.hyps(2) by (auto simp: first_unreached_def)
  let ?low = "if offset \<le> k then entries_at t (k - offset) else []"
  let ?high = "if offset > 0 \<and> k + offset < length (table_buckets t) then entries_at t (k + offset) else []"
  let ?r1 = "take ?size (result @ ?low)" and ?r2 = "take ?size (result @ go_ring t k offset)"
  have low: "(if offset \<le> k then visit_bucket t (k - offset) target result else Ok (Inr result)) = Ok (Inr ?r1)"
    using visit_unknown [of "k - offset" t target result] unknown k Suc.prems by simp
  have high: "(if offset > 0 \<and> k + offset < length (table_buckets t)
      then visit_bucket t (k + offset) target ?r1 else Ok (Inr ?r1)) = Ok (Inr ?r2)"
    using visit_unknown [of "k + offset" t target ?r1] unknown
    by (simp add: go_ring_def take_append_take [of _ "result @ _", simplified append_assoc] del: take_append)
  have step: "find_loop t target k offset result =
      (if length ?r2 \<ge> ?size then Ok (?r2, False) else find_loop t target k (offset + 1) ?r2)"
    unfolding find_loop.simps [of t target k offset] if_P [OF cond] low and_then.simps sum.case high ..
  show ?case
  proof (cases "length ?r2 \<ge> ?size")
    case True
    then have "?size \<le> length (result @ go_ring t k offset)" by simp
    then have "take ?size (result @ later offset) = ?r2"
      unfolding later append_assoc [symmetric] by (subst take_append) simp
    with True show ?thesis by (simp only: step if_True)
  next
    case False
    have "find_loop t target k (offset + 1) ?r2 = Ok (take ?size (?r2 @ later (offset + 1)), False)"
      using Suc.hyps(2) by (intro Suc.hyps(1)) auto
    then show ?thesis
      unfolding step later take_append_take append_assoc [symmetric] if_not_P [OF False] .
  qed
qed

text \<open>With bucket 0 appended where the loop stops before it, the order goes over all entries once.\<close>

definition stops_early :: "go_table \<Rightarrow> nat \<Rightarrow> bool" where
  "stops_early t k \<longleftrightarrow> 0 < k \<and> length (table_buckets t) \<le> 2 * k"

lemma mset_search_order:
  assumes k: "k < length (table_buckets t)"
  shows "mset (search_order t k @ (if stops_early t k then entries_at t 0 else [])) =
    mset (concat (map bucket_entries (table_buckets t)))"
proof -
  let ?n = "length (table_buckets t)" and ?stop = "first_unreached t k" and ?c = "entries_at t"
  let ?ring = "\<lambda>i. (if i \<le> k then ?c (k - i) else []) @ (if k + i < ?n then ?c (k + i) else [])"
  have pos: "0 < ?stop" "?stop \<le> ?n" using k by (auto simp: first_unreached_def)
  then have "[0..<?stop] = 0 # [1..<?stop]" by (simp add: upt_conv_Cons)
  moreover have "map (go_ring t k) [1..<?stop] = map ?ring [1..<?stop]"
    by (intro map_cong) (auto simp: go_ring_def)
  moreover have "go_ring t k 0 = ?c k" by (simp add: go_ring_def)
  ultimately have order: "search_order t k = ?c k @ concat (map ?ring [1..<?stop])"
    unfolding search_order_def by (simp only: list.map concat.simps)
  have "[1..<?n] = [1..<?stop] @ [?stop..<?n]"
    using pos upt_add_eq_append [of 1 ?stop "?n - ?stop"] by simp
  moreover have "concat (map ?ring [?stop..<?n]) = (if stops_early t k then ?c 0 else [])"
  proof (cases "stops_early t k")
    case True
    then have "?stop = k" by (auto simp: stops_early_def first_unreached_def)
    then have "[?stop..<?n] = k # [Suc k..<?n]" using k by (simp add: upt_conv_Cons)
    with True show ?thesis by (auto simp: stops_early_def)
  next
    case False
    then have "?stop = ?n - k" "k < ?n - k" using k by (auto simp: stops_early_def first_unreached_def)
    with False show ?thesis by auto
  qed
  ultimately have "search_order t k @ (if stops_early t k then ?c 0 else []) =
      ?c k @ concat (map ?ring [1..<?n])"
    by (simp add: order)
  moreover have "mset (?c k @ concat (map ?ring [1..<?n])) =
      mset (?c k) + (mset (concat (map ?c (rev [0..<k]))) + mset (concat (map ?c [Suc k..<?n])))"
    unfolding mset_append mset_concat_append concat_below [OF k, of ?c] concat_above [OF k, of ?c] ..
  moreover have "\<dots> = mset (concat (map ?c ([0..<k] @ k # [Suc k..<?n])))"
    by (simp add: mset_concat rev_map [symmetric] sum_list_rev ac_simps)
  moreover have "[0..<k] @ k # [Suc k..<?n] = [0..<?n]"
    using k upt_add_eq_append [of 0 k "?n - k"] by (simp add: upt_conv_Cons)
  moreover have "map ?c [0..<?n] = map bucket_entries (table_buckets t)"
    by (rule nth_equalityI) simp_all
  ultimately show ?thesis by simp
qed

lemma set_search_order:
  assumes "k < length (table_buckets t)"
  shows "set (search_order t k) \<union> (if stops_early t k then set (entries_at t 0) else {}) = all_infos t"
  using mset_eq_setD [OF mset_search_order [OF assms]]
  by (cases "stops_early t k") (simp_all add: all_infos_def)

lemma in_all_infosI: "i < length (table_buckets t) \<Longrightarrow> e \<in> set (entries_at t i) \<Longrightarrow> e \<in> all_infos t"
  using in_all_infos [of e t] by blast

lemma in_place_unique: "in_place n i p \<Longrightarrow> in_place n j p \<Longrightarrow> i = j"
  by (simp add: in_place_def)

lemma distinct_entries:
  assumes "wf_go_table t"
  shows "distinct (concat (map bucket_entries (table_buckets t)))"
proof -
  let ?n = "length (table_buckets t)"
  have bucket: "distinct (entries_at t i)"
    "e \<in> set (entries_at t i) \<Longrightarrow> in_place ?n i (info_prefix (own_id t) e)" if "i < ?n" for i e
    using assms that by (auto simp: wf_go_table_def wf_go_bucket_def distinct_map)
  have "m \<le> ?n \<Longrightarrow> distinct (concat (map (entries_at t) [0..<m]))" for m
  proof (induction m)
    case (Suc m)
    have False if "i < m" "e \<in> set (entries_at t i)" "e \<in> set (entries_at t m)" for i e
      using in_place_unique [OF bucket(2) [of i e] bucket(2) [of m e]] that Suc.prems by simp
    with Suc bucket(1) [of m] show ?case by auto
  qed simp
  moreover have "map (entries_at t) [0..<?n] = map bucket_entries (table_buckets t)"
    by (rule nth_equalityI) simp_all
  ultimately show ?thesis by (metis order_refl)
qed

section \<open>Adding entries in sequence\<close>

text \<open>The table after some calls of \<open>addEntry\<close>.\<close>

fun add_entries :: "go_table \<Rightarrow> node_info list \<Rightarrow> go_table panics" where
  "add_entries t [] = Ok t"
| "add_entries t (e # es) = and_then (add_entry t e) (\<lambda>t. add_entries t es)"

lemma in_bucket_iff:
  assumes "wf_go_table t" "Suc p < length (table_buckets t)"
  shows "set (entries_at t p) = {e \<in> all_infos t. info_prefix (own_id t) e = p}"
proof (intro set_eqI iffI)
  fix e
  assume e: "e \<in> set (entries_at t p)"
  then have "in_place (length (table_buckets t)) p (info_prefix (own_id t) e)"
    using assms by (simp add: wf_go_table_def wf_go_bucket_def)
  moreover have "e \<in> all_infos t" using e assms(2) in_all_infosI [of p t e] by simp
  ultimately show "e \<in> {e \<in> all_infos t. info_prefix (own_id t) e = p}"
    using assms(2) by (auto simp: in_place_def)
next
  fix e
  assume e: "e \<in> {e \<in> all_infos t. info_prefix (own_id t) e = p}"
  then have "home_of t e = p" using assms(2) by (simp add: home_of_def)
  with at_home [OF assms(1), of e e] e show "e \<in> set (entries_at t p)" by simp
qed

lemma card_entries:
  assumes "wf_go_table t" "p < length (table_buckets t)"
  shows "card (set (entries_at t p)) = length (entries_at t p)"
  using assms distinct_card [of "entries_at t p"]
  by (auto simp: wf_go_table_def wf_go_bucket_def distinct_map)

text \<open>A bucket that is full stays full.\<close>

lemma full_at_mono:
  assumes wf: "wf_go_table t" "wf_go_table t'"
    and same: "this_node t' = this_node t" "table_bucket_size t' = table_bucket_size t"
    and grown: "length (table_buckets t) \<le> length (table_buckets t')" "all_infos t \<subseteq> all_infos t'"
    and full: "full_at t p"
  shows "full_at t' p"
proof -
  have p: "Suc p < length (table_buckets t)" "Suc p < length (table_buckets t')"
    using full grown(1) by (simp_all add: full_at_def)
  have "set (entries_at t p) \<subseteq> set (entries_at t' p)"
    using in_bucket_iff [OF wf(1) p(1)] in_bucket_iff [OF wf(2) p(2)] same(1) grown(2) by auto
  then have "length (entries_at t p) \<le> length (entries_at t' p)"
    using card_entries [OF wf(1), of p] card_entries [OF wf(2), of p] p
      card_mono [of "set (entries_at t' p)" "set (entries_at t p)"] by simp
  moreover have "length (entries_at t' p) \<le> table_bucket_size t'"
    using wf(2) p(2) by (simp add: wf_go_table_def wf_go_bucket_def)
  ultimately show ?thesis using full p(2) same(2) by (simp add: full_at_def)
qed

definition kept :: "go_table \<Rightarrow> node_info \<Rightarrow> bool" where
  "kept t e \<longleftrightarrow> info_id e \<in> info_id ` all_infos t \<or> full_at t (info_prefix (own_id t) e)"

definition grown :: "go_table \<Rightarrow> go_table \<Rightarrow> bool" where
  "grown t t' \<longleftrightarrow> wf_go_table t' \<and> this_node t' = this_node t \<and>
     table_bucket_size t' = table_bucket_size t \<and>
     length (table_buckets t) \<le> length (table_buckets t') \<and> all_infos t \<subseteq> all_infos t'"

lemma kept_mono: "wf_go_table t \<Longrightarrow> grown t t' \<Longrightarrow> kept t e \<Longrightarrow> kept t' e"
  using full_at_mono [of t t' "info_prefix (own_id t) e"] by (auto simp: kept_def grown_def)

lemma add_outcome_grown:
  assumes "add_outcome t e t'"
  shows "grown t t'" "kept t' e" "all_infos t' \<subseteq> insert e (all_infos t)"
  using assms by (auto simp: add_outcome_def grown_def kept_def split: if_splits)

lemma add_entries_grown:
  assumes "wf_go_table t" "0 < table_bucket_size t" "\<forall>e \<in> set es. wf_id (info_id e)"
  shows "\<exists>t'. add_entries t es = Ok t' \<and> grown t t' \<and> all_infos t' \<subseteq> all_infos t \<union> set es \<and>
    (\<forall>e \<in> set es. kept t' e)"
  using assms
proof (induction es arbitrary: t)
  case Nil
  then show ?case by (simp add: grown_def)
next
  case (Cons e es)
  then obtain t1 where t1: "add_entry t e = Ok t1" "add_outcome t e t1"
    using add_entry_outcome [of t e] by auto
  note g1 = add_outcome_grown [OF t1(2)]
  then have "wf_go_table t1" "0 < table_bucket_size t1" using Cons.prems by (simp_all add: grown_def)
  then obtain t2 where t2: "add_entries t1 es = Ok t2" "grown t1 t2"
    "all_infos t2 \<subseteq> all_infos t1 \<union> set es" "\<forall>e \<in> set es. kept t2 e"
    using Cons.IH [of t1] Cons.prems(3) by auto
  then have "grown t t2" "kept t2 e"
    using g1 kept_mono [OF \<open>wf_go_table t1\<close> t2(2) g1(2)] by (auto simp: grown_def)
  with t1(1) t2 g1(3) show ?case by auto
qed

section \<open>Searching a well-formed table\<close>

lemma find_node_known:
  assumes wf: "wf_go_table t" and e: "e \<in> all_infos t" "info_id e \<noteq> own_id t"
  shows "go_find_node t (info_id e) = Ok ([e], True)"
proof -
  let ?k = "home_of t e"
  have k: "?k < length (table_buckets t)" by (rule home_of_bucket(1) [OF wf])
  have at: "e \<in> set (entries_at t ?k)" using at_home [OF wf e(1)] by simp
  have bucket: "distinct (map info_id (entries_at t ?k))" "wf_id (info_id e)"
    using home_of_bucket(2) [OF wf, of e] at by (simp_all add: wf_go_bucket_def)
  have "wf_id (own_id t)" using wf by (simp add: wf_go_table_def)
  then have "min (go_common_prefix_length (own_id t) (info_id e)) (length (table_buckets t) - 1) = ?k"
    using bucket(2) by (simp add: go_common_prefix_length_eq home_of_def info_prefix_def)
  then have "go_find_node t (info_id e) = find_loop t (info_id e) ?k 0 []"
    using e(2) by (simp add: go_find_node_def find_node_without_self_def Let_def)
  also have "\<dots> = Ok ([e], True)"
    using visit_known [OF k at refl bucket(1)] k by (simp add: find_loop.simps [of t _ ?k])
  finally show ?thesis .
qed

definition home_of_id :: "go_table \<Rightarrow> node_id \<Rightarrow> nat" where
  "home_of_id t i = min (common_prefix_length (own_id t) i) (length (table_buckets t) - 1)"

lemma find_node_unknown:
  assumes wf: "wf_go_table t" and i: "wf_id i" "i \<noteq> own_id t" "i \<notin> info_id ` all_infos t"
  shows "go_find_node t i = Ok (take (table_bucket_size t) (search_order t (home_of_id t i)), False)"
proof -
  have "wf_id (own_id t)" "table_buckets t \<noteq> []" using wf by (simp_all add: wf_go_table_def)
  then have k: "home_of_id t i < length (table_buckets t)"
    by (auto simp: home_of_id_def min_less_iff_disj)
  have "i \<notin> info_id ` set (entries_at t j)" if "j < length (table_buckets t)" for j
    using i(3) in_all_infosI [OF that] by blast
  from find_loop_unknown [OF k this, of "[]" 0] show ?thesis
    using i(1,2) \<open>wf_id (own_id t)\<close>
    by (simp add: go_find_node_def find_node_without_self_def go_common_prefix_length_eq
        home_of_id_def search_order_def Let_def)
qed

text \<open>A table of two buckets with one contact each; the own id is zero.\<close>

definition id_ending :: "u8 \<Rightarrow> node_id" where
  "id_ending b = replicate 19 0 @ [b]"

definition go_contact :: "node_id \<Rightarrow> node_info" where
  "go_contact i = \<lparr>info_id = i, info_address = \<lparr>udp_ip = ipv4 127 0 0 1, udp_port = 6881\<rparr>\<rparr>"

definition go_sample :: go_table where
  "go_sample = \<lparr>this_node = go_contact (id_ending 0), table_bucket_size = 8, table_buckets =
     [\<lparr>bucket_size = 8, bucket_entries = [go_contact (0x80 # replicate 19 0)]\<rparr>,
      \<lparr>bucket_size = 8, bucket_entries = [go_contact (id_ending 1)]\<rparr>]\<rparr>"

lemma go_sample_infos: "all_infos go_sample = {go_contact (0x80 # replicate 19 0), go_contact (id_ending 1)}"
  by (auto simp: all_infos_def go_sample_def)

lemma wf_go_sample: "wf_go_table go_sample"
proof -
  have "wf_id (id_ending 0)" "wf_id (id_ending 1)" "wf_id (0x80 # replicate 19 0)"
    "common_prefix_length (id_ending 0) (0x80 # replicate 19 0) = 0"
    "common_prefix_length (id_ending 0) (id_ending 1) = 159"
    by code_simp+
  then show ?thesis
    by (simp add: wf_go_table_def wf_go_bucket_def go_sample_def go_contact_def in_place_def
        info_prefix_def less_Suc_eq)
qed

section \<open>Properties\<close>

text \<open>
  C23. Adding contacts to a new table always ends without a panic: each contact is in the table
  afterwards (under its id), unless as many contacts as a bucket holds share exactly its prefix
  length with the own id; contacts that were in the table are never displaced, and nothing else is.
\<close>

theorem go_table_kept:
  assumes "wf_id (info_id this)" "0 < k" "\<forall>e \<in> set es. wf_id (info_id e)"
  shows "\<exists>t. add_entries (new_routing_table k this) es = Ok t \<and> wf_go_table t \<and>
    all_infos t \<subseteq> set es \<and> (\<forall>e \<in> set es. kept t e)"
proof -
  have "all_infos (new_routing_table k this) = {}"
    by (simp add: all_infos_def new_routing_table_def new_bucket_def)
  moreover have pos: "0 < table_bucket_size (new_routing_table k this)"
    using assms(2) by (simp add: new_routing_table_def)
  ultimately show ?thesis
    using add_entries_grown [OF wf_new_routing_table [OF assms(1)] pos assms(3)]
    by (auto simp: grown_def)
qed

theorem go_table_kept_witness:
  "\<exists>t. add_entries (new_routing_table 1 (go_contact (id_ending 0)))
      [go_contact (0x80 # replicate 19 0), go_contact (id_ending 1)] = Ok t \<and>
    kept t (go_contact (id_ending 1))"
proof -
  have "wf_id (id_ending 0)" "wf_id (id_ending 1)" "wf_id (0x80 # replicate 19 0)" by code_simp+
  then show ?thesis
    using go_table_kept [of "go_contact (id_ending 0)" 1
        "[go_contact (0x80 # replicate 19 0), go_contact (id_ending 1)]"]
    by (auto simp: go_contact_def)
qed

text \<open>
  \<open>findNode\<close> returns the contact with the wanted id alone when the table has it, and otherwise
  the first \<open>bucketSize\<close> entries in the order of the search.
\<close>

theorem go_find_result:
  assumes "wf_go_table t" "wf_id i" "i \<noteq> own_id t"
  shows "(\<exists>e \<in> all_infos t. info_id e = i \<and> go_find_node t i = Ok ([e], True)) \<or>
    i \<notin> info_id ` all_infos t \<and>
    go_find_node t i = Ok (take (table_bucket_size t) (search_order t (home_of_id t i)), False)"
  using find_node_known [OF assms(1)] find_node_unknown [OF assms] assms(3) by blast

theorem go_find_result_witness:
  "go_find_node go_sample (id_ending 1) = Ok ([go_contact (id_ending 1)], True)"
proof -
  have "wf_id (id_ending 1)" "id_ending 1 \<noteq> own_id go_sample" by code_simp+
  from go_find_result [OF wf_go_sample this] show ?thesis
    by (auto simp: go_sample_infos) (auto simp: go_contact_def id_ending_def)
qed

text \<open>
  That search is not complete: when the target's bucket is in the upper half of the table and
  the target is not known, the loop stops before bucket 0. None of its contacts is returned, however
  few the others are.
\<close>

theorem go_find_misses:
  assumes "wf_go_table t" "wf_id i" "i \<noteq> own_id t" "i \<notin> info_id ` all_infos t"
    and "stops_early t (home_of_id t i)"
  shows "\<exists>found. go_find_node t i = Ok (found, False) \<and> set found \<inter> set (entries_at t 0) = {} \<and>
    length found = min (table_bucket_size t) (card (all_infos t - set (entries_at t 0)))"
proof -
  let ?k = "home_of_id t i" and ?size = "table_bucket_size t" and ?first = "entries_at t 0"
  let ?order = "search_order t ?k"
  have "table_buckets t \<noteq> []" using assms(1) by (simp add: wf_go_table_def)
  then have k: "?k < length (table_buckets t)" by (auto simp: home_of_id_def min_less_iff_disj)
  have mset: "mset (?order @ ?first) = mset (concat (map bucket_entries (table_buckets t)))"
    using mset_search_order [OF k] assms(5) by simp
  then have "distinct (?order @ ?first)"
    using distinct_entries [OF assms(1)] mset_eq_imp_distinct_iff by blast
  then have dist: "distinct ?order" "set ?order \<inter> set ?first = {}" by auto
  have "set ?order \<union> set ?first = all_infos t" using set_search_order [OF k] assms(5) by simp
  with dist(2) have order: "set ?order = all_infos t - set ?first" by auto
  let ?found = "take ?size ?order"
  have "go_find_node t i = Ok (?found, False)" by (rule find_node_unknown [OF assms(1-4)])
  moreover have "set ?found \<inter> set ?first = {}" using dist(2) set_take_subset [of ?size ?order] by blast
  moreover have "length ?found = min ?size (card (all_infos t - set ?first))"
    using distinct_card [OF dist(1)] by (simp add: order min.commute)
  ultimately show ?thesis by blast
qed

theorem go_find_misses_witness:
  "go_find_node go_sample (id_ending 2) = Ok ([go_contact (id_ending 1)], False) \<and>
   go_contact (0x80 # replicate 19 0) \<in> all_infos go_sample"
proof -
  have "wf_id (id_ending 2)" "id_ending 2 \<noteq> own_id go_sample" "id_ending 2 \<notin> info_id ` all_infos go_sample"
    unfolding go_sample_infos by code_simp+
  moreover have "stops_early go_sample (home_of_id go_sample (id_ending 2))" by code_simp
  ultimately obtain found where "go_find_node go_sample (id_ending 2) = Ok (found, False)"
    using go_find_misses [OF wf_go_sample] by blast
  moreover have "go_find_node go_sample (id_ending 2) = Ok ([go_contact (id_ending 1)], False)"
    by code_simp
  ultimately show ?thesis by (simp add: go_sample_infos)
qed

end
