(* ===== verification/Go_Krpc.thy ===== *)
theory Go_Krpc
  imports Go_Codec Go_Find Krpc
begin

text \<open>
  The KRPC messages of the Go implementation (\<open>go/krpc_message.go\<close>) and the answers of the client to
  queries (\<open>go/dht_client.go\<close>). A map literal is written by ascending keys.
\<close>

section \<open>Messages\<close>

datatype go_message =
    GoQuery "u8 list" "u8 list" dict
  | GoResponse "u8 list" dict
  | GoError "u8 list" i64 "u8 list"

fun message_id :: "go_message \<Rightarrow> u8 list" where
  "message_id (GoQuery t _ _) = t"
| "message_id (GoResponse t _) = t"
| "message_id (GoError t _ _) = t"

fun set_message_id :: "u8 list \<Rightarrow> go_message \<Rightarrow> go_message" where
  "set_message_id t (GoQuery _ m a) = GoQuery t m a"
| "set_message_id t (GoResponse _ r) = GoResponse t r"
| "set_message_id t (GoError _ c m) = GoError t c m"

fun message_dict :: "go_message \<Rightarrow> dict" where
  "message_dict (GoQuery t m a) =
     [(bytes ''a'', Dict a), (bytes ''q'', Bytes m), (bytes ''t'', Bytes t), (bytes ''y'', Bytes (bytes ''q''))]"
| "message_dict (GoResponse t r) =
     [(bytes ''r'', Dict r), (bytes ''t'', Bytes t), (bytes ''y'', Bytes (bytes ''r''))]"
| "message_dict (GoError t c m) =
     [(bytes ''e'', List [Integer c, Bytes m]), (bytes ''t'', Bytes t), (bytes ''y'', Bytes (bytes ''e''))]"

definition encode_message :: "go_message \<Rightarrow> u8 list" where
  "encode_message m = go_encode (Dict (message_dict m))"

text \<open>A type assertion on a missing entry fails like one on another type.\<close>

fun as_bencode_string :: "bencode option \<Rightarrow> u8 list option" where
  "as_bencode_string (Some (Bytes s)) = Some s"
| "as_bencode_string _ = None"

fun as_bencode_dict :: "bencode option \<Rightarrow> dict option" where
  "as_bencode_dict (Some (Dict d)) = Some d"
| "as_bencode_dict _ = None"

datatype message_error =
    NoHeader
  | NoMethodOrArguments
  | NoReturnValues
  | NotTwoElements
  | NoCodeOrMessage
  | UnknownType "u8 list"

definition decode_krpc_message :: "dict \<Rightarrow> (go_message, message_error) outcome" where
  "decode_krpc_message d =
     (case (as_bencode_string (map_of d (bytes ''t'')), as_bencode_string (map_of d (bytes ''y''))) of
        (Some t, Some y) \<Rightarrow>
          if y = bytes ''q'' then
            (case (as_bencode_string (map_of d (bytes ''q'')), as_bencode_dict (map_of d (bytes ''a''))) of
               (Some q, Some a) \<Rightarrow> Ok (GoQuery t q a)
             | _ \<Rightarrow> Err NoMethodOrArguments)
          else if y = bytes ''r'' then
            (case as_bencode_dict (map_of d (bytes ''r'')) of
               Some r \<Rightarrow> Ok (GoResponse t r)
             | None \<Rightarrow> Err NoReturnValues)
          else if y = bytes ''e'' then
            (case map_of d (bytes ''e'') of
               Some (List [code, message]) \<Rightarrow>
                 (case (code, message) of
                    (Integer c, Bytes m) \<Rightarrow> Ok (GoError t c m)
                  | _ \<Rightarrow> Err NoCodeOrMessage)
             | _ \<Rightarrow> Err NotTwoElements)
          else Err (UnknownType y)
      | _ \<Rightarrow> Err NoHeader)"

lemma decode_message_dict: "decode_krpc_message (message_dict m) = Ok m"
  by (cases m) (simp_all add: decode_krpc_message_def key_order_simps bytes_def byte_def)

section \<open>Answers to queries\<close>

abbreviation KrpcErrorProtocol :: i64 where
  "KrpcErrorProtocol \<equiv> 203"

abbreviation KrpcErrorUnknownMethod :: i64 where
  "KrpcErrorUnknownMethod \<equiv> 204"

text \<open>A struct literal without \<open>transactionId\<close> has the empty one.\<close>

definition handle_ping :: "node_id \<Rightarrow> dict \<Rightarrow> go_message" where
  "handle_ping own args =
     (case map_of args (bytes ''id'') of
        None \<Rightarrow> GoError [] KrpcErrorProtocol (bytes ''Missing 'id' argument'')
      | Some (Bytes i) \<Rightarrow>
          if length i \<noteq> 20 then GoError [] KrpcErrorProtocol (bytes ''Invalid 'id' argument'')
          else GoResponse [] [(bytes ''id'', Bytes own)]
      | Some _ \<Rightarrow> GoError [] KrpcErrorProtocol (bytes ''Invalid 'id' argument''))"

text \<open>\<open>handlerFunctions\<close> has one entry.\<close>

abbreviation quote :: u8 where
  "quote \<equiv> byte CHR 0x27"

definition handle_query :: "node_id \<Rightarrow> u8 list \<Rightarrow> dict \<Rightarrow> go_message" where
  "handle_query own method args =
     (if method = bytes ''ping'' then handle_ping own args
      else GoError [] KrpcErrorUnknownMethod (bytes ''Unknown method '' @ [quote] @ method @ [quote]))"

definition ping_query :: "node_id \<Rightarrow> go_message" where
  "ping_query own = GoQuery [] (bytes ''ping'') [(bytes ''id'', Bytes own)]"

text \<open>What the receiver makes of the bytes of a datagram.\<close>

datatype read_error = NotBencode go_error | NotKrpc message_error

definition read_message :: "u8 list \<Rightarrow> (go_message, read_error) outcome" where
  "read_message input =
     (case go_decode_top_dict input of
        Ok v \<Rightarrow>
          (case v of
             Dict d \<Rightarrow> (case decode_krpc_message d of Ok m \<Rightarrow> Ok m | Err e \<Rightarrow> Err (NotKrpc e) | Crash p \<Rightarrow> Crash p)
           | _ \<Rightarrow> Crash UnreachableReached)
      | Err e \<Rightarrow> Err (NotBencode e)
      | Crash p \<Rightarrow> Crash p)"

section \<open>Messages are read back\<close>

definition valid_message :: "go_message \<Rightarrow> bool" where
  "valid_message m \<longleftrightarrow> wf_bencode (Dict (message_dict m)) \<and> no_min (Dict (message_dict m))"

lemma read_encoded:
  assumes "valid_message m" "wf_bytes (encode_message m @ rest)"
  shows "read_message (encode_message m @ rest) = Ok m"
proof -
  have "encode_message m = encode (Dict (message_dict m))"
    using assms(1) by (simp only: encode_message_def valid_message_def go_encode_eq)
  then show ?thesis
    using assms go_decode_top_dict_encode [of "message_dict m" rest]
    by (simp only: read_message_def valid_message_def decode_message_dict outcome.case bencode.case)
qed

interpretation go_bencoding: codec "\<lambda>v. wf_bencode v \<and> no_min v" wf_bytes go_encode go_decode
  by unfold_locales (auto simp: go_encode_eq go_decode_encode_append)

interpretation go_messages: codec valid_message wf_bytes encode_message read_message
  by unfold_locales (rule read_encoded)

text \<open>The answers are valid messages, whatever was asked.\<close>

lemma small_wf_bytes: "length s < 1000 \<Longrightarrow> wf_bytes s"
  by (simp add: wf_bytes_def)

lemma ascending_message_dict: "ascending (message_dict m)"
  by (cases m) (simp_all add: ascending_def byte_def)

lemma valid_message_iff:
  "valid_message (GoQuery t m a) \<longleftrightarrow> wf_bytes t \<and> wf_bytes m \<and> wf_bencode (Dict a) \<and> no_min (Dict a)"
  "valid_message (GoResponse t r) \<longleftrightarrow> wf_bytes t \<and> wf_bencode (Dict r) \<and> no_min (Dict r)"
  "valid_message (GoError t c s) \<longleftrightarrow> wf_bytes t \<and> wf_bytes s \<and> sint c \<noteq> - (2 ^ 63)"
proof -
  have "wf_bytes (bytes [x])" for x by (simp add: small_wf_bytes)
  then show "valid_message (GoQuery t m a) \<longleftrightarrow> wf_bytes t \<and> wf_bytes m \<and> wf_bencode (Dict a) \<and> no_min (Dict a)"
    "valid_message (GoResponse t r) \<longleftrightarrow> wf_bytes t \<and> wf_bencode (Dict r) \<and> no_min (Dict r)"
    "valid_message (GoError t c s) \<longleftrightarrow> wf_bytes t \<and> wf_bytes s \<and> sint c \<noteq> - (2 ^ 63)"
    using ascending_message_dict [of "GoQuery t m a"] ascending_message_dict [of "GoResponse t r"]
      ascending_message_dict [of "GoError t c s"]
    by (auto simp: valid_message_def)
qed

lemma handle_ping_cases:
  obtains (refused) why where "handle_ping own args = GoError [] KrpcErrorProtocol (bytes why)" "length why < 100"
    | (answered) i where "map_of args (bytes ''id'') = Some (Bytes i)" "length i = 20"
      "handle_ping own args = GoResponse [] [(bytes ''id'', Bytes own)]"
proof -
  consider (missing) "map_of args (bytes ''id'') = None"
    | (good) i where "map_of args (bytes ''id'') = Some (Bytes i)" "length i = 20"
    | (bad) v where "map_of args (bytes ''id'') = Some v" "\<And>i. v = Bytes i \<Longrightarrow> length i \<noteq> 20"
    by (cases "map_of args (bytes ''id'')") blast+
  then show thesis
  proof cases
    case missing
    then show thesis by (intro refused [of "''Missing 'id' argument''"]) (simp_all add: handle_ping_def)
  next
    case good
    then show thesis by (intro answered [of i]) (simp_all add: handle_ping_def)
  next
    case bad
    then show thesis
      by (intro refused [of "''Invalid 'id' argument''"]) (simp_all add: handle_ping_def split: bencode.split)
  qed
qed

lemma handle_query_valid:
  assumes "wf_id own" "wf_bytes t" "wf_bytes (bytes ''Unknown method '' @ [quote] @ method @ [quote])"
  shows "valid_message (set_message_id t (handle_query own method args))"
proof (cases "method = bytes ''ping''")
  case True
  have "sint (203 :: i64) = 203" by code_simp
  then show ?thesis
    using True assms(1,2)
    by (cases rule: handle_ping_cases [of own args])
      (simp_all add: handle_query_def valid_message_iff small_wf_bytes ascending_def wf_id_def)
next
  case False
  have "sint (204 :: i64) = 204" by code_simp
  with False assms(2,3) show ?thesis by (simp add: handle_query_def valid_message_iff)
qed

section \<open>Properties\<close>

text \<open>
  Round trip of the Go messages: a query, response or error without the smallest integer is read
  back from its bytes, whatever follows them, and no other message begins with the same bytes.
\<close>

theorem go_message_roundtrip:
  assumes "valid_message m" "wf_bytes (encode_message m @ rest)"
  shows "read_message (encode_message m @ rest) = Ok m \<and>
    (\<forall>m' rest'. valid_message m' \<and> encode_message m @ rest = encode_message m' @ rest' \<longrightarrow>
      m' = m \<and> rest' = rest)"
  using read_encoded [OF assms] go_messages.prefix_free [OF assms(1) _ assms(2)] by blast

theorem go_message_roundtrip_witness:
  "read_message (encode_message (GoError (bytes ''aB'') 203 (bytes ''no'')) @ bytes ''x'') =
    Ok (GoError (bytes ''aB'') 203 (bytes ''no''))"
proof -
  have "sint (203 :: i64) = 203" by code_simp
  then have "valid_message (GoError (bytes ''aB'') 203 (bytes ''no''))"
    by (simp add: valid_message_iff small_wf_bytes)
  moreover have "wf_bytes (encode_message (GoError (bytes ''aB'') 203 (bytes ''no'')) @ bytes ''x'')"
    by code_simp
  ultimately show ?thesis using go_message_roundtrip by blast
qed

end
