(* ===== verification/Go_Client.thy ===== *)
theory Go_Client
  imports Go_Krpc
begin

text \<open>
  The client of the Go implementation as a state machine: \<open>go/krpc_runtime.go\<close> and \<open>go/dht_client.go\<close>.
  A step is what one goroutine does between two points where it waits: a call of \<open>ping\<close> up to its
  \<open>select\<close>, the receiver with one datagram, a handler goroutine, a waiting call that takes its reply,
  or its time-out. The locks make the changes of the map and of the table single steps. What the
  socket does (the datagrams, whether a write succeeds) and the random numbers are parameters.
\<close>

section \<open>State\<close>

text \<open>A call of \<open>ping\<close> that waits in the \<open>select\<close> of \<open>rpcCall\<close>; a goroutine that will answer a query.\<close>

record go_call =
  call_channel :: nat
  call_id :: "u8 list"
  call_dest :: udp_addr

record go_handler =
  query_id :: "u8 list"
  query_method :: "u8 list"
  query_args :: dict
  query_source :: udp_addr

text \<open>What \<open>ping\<close> returns.\<close>

datatype ping_result =
    Replied go_message
  | SendFailed
  | TimedOut
  | MissingId
  | InvalidId

text \<open>
  A channel has a buffer of one message; \<open>pending_requests\<close> maps a transaction id to a channel. The
  datagrams written and the results of the calls are kept in order.
\<close>

record go_client =
  client_id :: node_id
  routing_table :: go_table
  pending_requests :: "u8 list \<Rightarrow> nat option"
  channels :: "go_message option list"
  calls :: "go_call list"
  handlers :: "go_handler list"
  outgoing :: "(u8 list \<times> udp_addr) list"
  pings :: "ping_result list"

definition start_dht_client :: "nat \<Rightarrow> node_info \<Rightarrow> go_client" where
  "start_dht_client k this =
     \<lparr>client_id = info_id this, routing_table = new_routing_table k this,
      pending_requests = (\<lambda>_. None), channels = [], calls = [], handlers = [], outgoing = [], pings = []\<rparr>"

section \<open>Requests\<close>

definition letter_bytes :: "u8 list" where
  "letter_bytes = bytes ''abcdefghijklmnopqrstuvwxyzABCDEFGHIJKLMNOPQRSTUVWXYZ''"

text \<open>The two numbers are the results of \<open>rand.Intn(len(letterBytes))\<close>.\<close>

definition generate_transaction_id :: "nat \<Rightarrow> nat \<Rightarrow> u8 list" where
  "generate_transaction_id r1 r2 = [letter_bytes ! r1, letter_bytes ! r2]"

definition enqueue_pending_request :: "u8 list \<Rightarrow> go_client \<Rightarrow> nat \<times> go_client" where
  "enqueue_pending_request t c =
     (length (channels c),
      c\<lparr>channels := channels c @ [None], pending_requests := (pending_requests c)(t := Some (length (channels c)))\<rparr>)"

definition cancel_pending_request :: "u8 list \<Rightarrow> go_client \<Rightarrow> go_client" where
  "cancel_pending_request t c = c\<lparr>pending_requests := (pending_requests c)(t := None)\<rparr>"

definition dequeue_pending_request :: "u8 list \<Rightarrow> go_client \<Rightarrow> nat option \<times> go_client" where
  "dequeue_pending_request t c =
     (pending_requests c t, c\<lparr>pending_requests := (pending_requests c)(t := None)\<rparr>)"

text \<open>\<open>ping\<close> up to the \<open>select\<close>; a failed write returns at once and leaves the request in the map.\<close>

definition start_ping :: "u8 list \<Rightarrow> udp_addr \<Rightarrow> bool \<Rightarrow> go_client \<Rightarrow> go_client" where
  "start_ping t dest written c =
     (let (ch, c) = enqueue_pending_request t c;
          msg = set_message_id t (ping_query (client_id c)) in
      if written then
        c\<lparr>outgoing := outgoing c @ [(encode_message msg, dest)],
          calls := calls c @ [\<lparr>call_channel = ch, call_id = t, call_dest = dest\<rparr>]\<rparr>
      else c\<lparr>pings := pings c @ [SendFailed]\<rparr>)"

definition remove_at :: "nat \<Rightarrow> 'a list \<Rightarrow> 'a list" where
  "remove_at i xs = take i xs @ drop (Suc i) xs"

text \<open>The rest of \<open>ping\<close> once it has the reply.\<close>

definition finish_ping :: "go_message \<Rightarrow> udp_addr \<Rightarrow> go_client \<Rightarrow> go_client panics" where
  "finish_ping reply dest c =
     (case reply of
        GoResponse _ values \<Rightarrow>
          (case map_of values (bytes ''id'') of
             None \<Rightarrow> Ok (c\<lparr>pings := pings c @ [MissingId]\<rparr>)
           | Some (Bytes i) \<Rightarrow>
               if length i \<noteq> 20 then Ok (c\<lparr>pings := pings c @ [InvalidId]\<rparr>)
               else and_then (add_entry (routing_table c) \<lparr>info_id = i, info_address = dest\<rparr>) (\<lambda>table.
                 Ok (c\<lparr>routing_table := table, pings := pings c @ [Replied reply]\<rparr>))
           | Some _ \<Rightarrow> Ok (c\<lparr>pings := pings c @ [InvalidId]\<rparr>))
      | _ \<Rightarrow> Ok (c\<lparr>pings := pings c @ [Replied reply]\<rparr>))"

text \<open>The two cases of the \<open>select\<close>, for the call at position \<open>i\<close>.\<close>

definition take_reply :: "nat \<Rightarrow> go_message \<Rightarrow> go_client \<Rightarrow> go_client panics" where
  "take_reply i reply c =
     (let call = calls c ! i in
      finish_ping reply (call_dest call)
        (c\<lparr>channels := (channels c)[call_channel call := None], calls := remove_at i (calls c)\<rparr>))"

definition time_out :: "nat \<Rightarrow> go_client \<Rightarrow> go_client" where
  "time_out i c =
     (let c' = cancel_pending_request (call_id (calls c ! i)) c in
      c'\<lparr>calls := remove_at i (calls c), pings := pings c @ [TimedOut]\<rparr>)"

section \<open>The receiver\<close>

text \<open>Sending to a channel whose buffer is full waits.\<close>

datatype blocked = Blocked

definition channel_send :: "nat \<Rightarrow> go_message \<Rightarrow> go_client \<Rightarrow> (go_client, blocked) outcome" where
  "channel_send ch msg c =
     (case channels c ! ch of
        None \<Rightarrow> Ok (c\<lparr>channels := (channels c)[ch := Some msg]\<rparr>)
      | Some _ \<Rightarrow> Err Blocked)"

text \<open>What is not a message is logged and dropped, like an answer that nobody waits for.\<close>

definition receive_datagram :: "u8 list \<Rightarrow> udp_addr \<Rightarrow> go_client \<Rightarrow> (go_client, blocked) outcome" where
  "receive_datagram d src c =
     (case read_message (take 65535 d) of
        Ok msg \<Rightarrow>
          (case msg of
             GoQuery t m a \<Rightarrow>
               Ok (c\<lparr>handlers := handlers c @
                 [\<lparr>query_id = t, query_method = m, query_args = a, query_source = src\<rparr>]\<rparr>)
           | _ \<Rightarrow>
               (case dequeue_pending_request (message_id msg) c of
                  (Some ch, c) \<Rightarrow> channel_send ch msg c
                | (None, c) \<Rightarrow> Ok c))
      | Err _ \<Rightarrow> Ok c
      | Crash p \<Rightarrow> Crash p)"

definition run_handler :: "nat \<Rightarrow> bool \<Rightarrow> go_client \<Rightarrow> go_client" where
  "run_handler i written c =
     (let h = handlers c ! i;
          response = set_message_id (query_id h) (handle_query (client_id c) (query_method h) (query_args h));
          c = c\<lparr>handlers := remove_at i (handlers c)\<rparr> in
      if written then c\<lparr>outgoing := outgoing c @ [(encode_message response, query_source h)]\<rparr> else c)"

section \<open>Steps\<close>

inductive client_step :: "go_client \<Rightarrow> go_client \<Rightarrow> bool" where
  ping: "r1 < 52 \<Longrightarrow> r2 < 52 \<Longrightarrow>
    client_step c (start_ping (generate_transaction_id r1 r2) dest written c)"
| receive: "receive_datagram d src c = Ok c' \<Longrightarrow> client_step c c'"
| handle: "i < length (handlers c) \<Longrightarrow> client_step c (run_handler i written c)"
| reply: "i < length (calls c) \<Longrightarrow> channels c ! call_channel (calls c ! i) = Some msg \<Longrightarrow>
    take_reply i msg c = Ok c' \<Longrightarrow> client_step c c'"
| timeout: "i < length (calls c) \<Longrightarrow> client_step c (time_out i c)"

inductive reachable_client :: "nat \<Rightarrow> node_info \<Rightarrow> go_client \<Rightarrow> bool" for k this where
  start: "reachable_client k this (start_dht_client k this)"
| step: "reachable_client k this c \<Longrightarrow> client_step c c' \<Longrightarrow> reachable_client k this c'"

inductive_cases client_stepE: "client_step c c'"

section \<open>The invariant\<close>

text \<open>
  A pending request has a channel of its own with an empty buffer; a waiting call only finds messages
  with its transaction id in its channel.
\<close>

definition wf_requests :: "(u8 list \<Rightarrow> nat option) \<Rightarrow> go_message option list \<Rightarrow> go_call list \<Rightarrow> bool" where
  "wf_requests pending chs cs \<longleftrightarrow>
     (\<forall>t ch. pending t = Some ch \<longrightarrow> ch < length chs \<and> chs ! ch = None) \<and>
     (\<forall>t t' ch. pending t = Some ch \<longrightarrow> pending t' = Some ch \<longrightarrow> t = t') \<and>
     (\<forall>t. \<forall>call \<in> set cs. pending t = Some (call_channel call) \<longrightarrow> call_id call = t) \<and>
     (\<forall>call \<in> set cs. call_channel call < length chs) \<and>
     (\<forall>call \<in> set cs. \<forall>m. chs ! call_channel call = Some m \<longrightarrow> message_id m = call_id call)"

definition wf_client :: "go_client \<Rightarrow> bool" where
  "wf_client c \<longleftrightarrow> wf_go_table (routing_table c) \<and> 0 < table_bucket_size (routing_table c) \<and>
     own_id (routing_table c) = client_id c \<and>
     wf_requests (pending_requests c) (channels c) (calls c)"

lemma wf_start: "wf_id (info_id this) \<Longrightarrow> 0 < k \<Longrightarrow> wf_client (start_dht_client k this)"
  using wf_new_routing_table [of this k]
  by (simp add: wf_client_def wf_requests_def start_dht_client_def new_routing_table_def)

text \<open>The five ways in which the map, the channels and the calls change.\<close>

lemma requestsD:
  assumes "wf_requests pending chs cs"
  shows "pending t = Some ch \<Longrightarrow> ch < length chs" "pending t = Some ch \<Longrightarrow> chs ! ch = None"
    "pending t = Some ch \<Longrightarrow> pending t' = Some ch \<Longrightarrow> t = t'"
    "pending t = Some (call_channel call) \<Longrightarrow> call \<in> set cs \<Longrightarrow> call_id call = t"
    "call \<in> set cs \<Longrightarrow> call_channel call < length chs"
    "call \<in> set cs \<Longrightarrow> chs ! call_channel call = Some m \<Longrightarrow> message_id m = call_id call"
  using assms by (auto simp: wf_requests_def)

lemma requests_fewer_calls: "wf_requests pending chs cs \<Longrightarrow> set cs' \<subseteq> set cs \<Longrightarrow> wf_requests pending chs cs'"
  by (auto simp: wf_requests_def)

lemma requests_cancel: "wf_requests pending chs cs \<Longrightarrow> wf_requests (pending(t := None)) chs cs"
  by (auto simp: wf_requests_def)

lemma requests_clear:
  assumes "wf_requests pending chs cs"
  shows "wf_requests pending (chs[ch := None]) cs"
proof -
  have "chs[ch := None] ! i = (if i = ch \<and> ch < length chs then None else chs ! i)" for i
    by (cases "ch < length chs") (simp_all add: list_update_beyond)
  with assms show ?thesis unfolding wf_requests_def by simp
qed

lemma requests_enqueue:
  assumes wf: "wf_requests pending chs cs" and call: "call_channel call = length chs" "call_id call = t"
  shows "wf_requests (pending(t := Some (length chs))) (chs @ [None]) (cs @ [call])"
proof -
  have p: "ch < length chs" "chs ! ch = None" if "pending t' = Some ch" for t' ch
    using requestsD(1,2) [OF wf that] .
  have c: "call_channel call' < length chs" if "call' \<in> set cs" for call'
    using requestsD(5) [OF wf that] .
  show ?thesis
    unfolding wf_requests_def
  proof (intro conjI allI ballI impI)
    fix t' ch
    assume "(pending(t := Some (length chs))) t' = Some ch"
    then have "ch = length chs \<or> pending t' = Some ch" by (auto split: if_splits)
    then show "ch < length (chs @ [None])" "(chs @ [None]) ! ch = None"
      using p [of t' ch] by (auto simp: nth_append)
  next
    fix t1 t2 ch
    assume "(pending(t := Some (length chs))) t1 = Some ch" "(pending(t := Some (length chs))) t2 = Some ch"
    then show "t1 = t2" using p(1) [of t1 ch] p(1) [of t2 ch] requestsD(3) [OF wf, of t1 ch t2]
      by (auto split: if_splits)
  next
    fix t' call'
    assume "call' \<in> set (cs @ [call])" "(pending(t := Some (length chs))) t' = Some (call_channel call')"
    then show "call_id call' = t'"
      using c [of call'] p(1) [of t' "call_channel call'"] requestsD(4) [OF wf, of t' call'] call
      by (auto split: if_splits)
  next
    fix call'
    assume "call' \<in> set (cs @ [call])"
    then show "call_channel call' < length (chs @ [None])" using c [of call'] call by auto
  next
    fix call' m
    assume "call' \<in> set (cs @ [call])" "(chs @ [None]) ! call_channel call' = Some m"
    then show "message_id m = call_id call'"
      using c [of call'] requestsD(6) [OF wf, of call' m] call by (auto simp: nth_append)
  qed
qed

lemma requests_deliver:
  assumes wf: "wf_requests pending chs cs" and ch: "pending (message_id m) = Some ch"
  shows "wf_requests (pending(message_id m := None)) (chs[ch := Some m]) cs"
proof -
  have "ch < length chs" by (rule requestsD(1) [OF wf ch])
  moreover have "pending t \<noteq> Some ch" if "t \<noteq> message_id m" for t
    using requestsD(3) [OF wf ch, of t] that by blast
  moreover have "call_id call = message_id m" if "call \<in> set cs" "call_channel call = ch" for call
    using requestsD(4) [OF wf _ that(1)] ch that(2) by simp
  ultimately show ?thesis
    using wf ch unfolding wf_requests_def by (auto simp: nth_list_update)
qed

section \<open>Its preservation\<close>

lemma set_remove_at: "set (remove_at i xs) \<subseteq> set xs"
  unfolding remove_at_def by (metis Un_least set_append set_drop_subset set_take_subset)

lemma requests_remove: "wf_requests pending chs cs \<Longrightarrow> wf_requests pending chs (remove_at i cs)"
  by (rule requests_fewer_calls [OF _ set_remove_at])

lemma wf_start_ping:
  assumes "wf_client c"
  shows "wf_client (start_ping t dest written c)"
proof -
  let ?call = "\<lparr>call_channel = length (channels c), call_id = t, call_dest = dest\<rparr>"
  have "wf_requests ((pending_requests c)(t := Some (length (channels c)))) (channels c @ [None]) (calls c @ [?call])"
    using assms by (intro requests_enqueue) (simp_all add: wf_client_def)
  moreover from this have
    "wf_requests ((pending_requests c)(t := Some (length (channels c)))) (channels c @ [None]) (calls c)"
    by (rule requests_fewer_calls) auto
  ultimately show ?thesis
    using assms by (simp add: wf_client_def start_ping_def enqueue_pending_request_def)
qed

lemma finish_ping_Ok:
  assumes "wf_client c"
  shows "\<exists>c'. finish_ping reply dest c = Ok c' \<and> wf_client c'"
proof -
  have "\<exists>table. add_entry (routing_table c) \<lparr>info_id = i, info_address = dest\<rparr> = Ok table \<and>
      wf_client (c\<lparr>routing_table := table, pings := p\<rparr>)" if "length i = 20" for i p
    using add_entry_outcome [of "routing_table c" "\<lparr>info_id = i, info_address = dest\<rparr>"] assms that
    by (auto simp: wf_client_def wf_id_def add_outcome_def)
  moreover have "wf_client (c\<lparr>pings := p\<rparr>)" for p
    using assms by (simp add: wf_client_def)
  ultimately show ?thesis
    by (fastforce simp: finish_ping_def split: go_message.split option.split bencode.split)
qed

lemma take_reply_Ok:
  assumes "wf_client c"
  shows "\<exists>c'. take_reply i msg c = Ok c' \<and> wf_client c'"
proof -
  have "wf_client (c\<lparr>channels := (channels c)[ch := None], calls := remove_at i (calls c)\<rparr>)" for ch
    using assms by (simp add: wf_client_def requests_clear requests_remove)
  then show ?thesis unfolding take_reply_def Let_def by (rule finish_ping_Ok)
qed

lemma wf_time_out: "wf_client c \<Longrightarrow> wf_client (time_out i c)"
  by (simp add: wf_client_def time_out_def cancel_pending_request_def requests_cancel requests_remove)

lemma wf_run_handler: "wf_client c \<Longrightarrow> wf_client (run_handler i written c)"
  by (simp add: wf_client_def run_handler_def Let_def)

lemma wf_dequeue: "wf_client c \<Longrightarrow> dequeue_pending_request t c = (r, c') \<Longrightarrow> wf_client c'"
  by (auto simp: dequeue_pending_request_def wf_client_def intro: requests_cancel)

text \<open>The answer to a pending request never waits for space in its channel.\<close>

lemma deliver:
  assumes "wf_client c" "dequeue_pending_request (message_id m) c = (Some ch, c')"
  shows "\<exists>c''. channel_send ch m c' = Ok c'' \<and> wf_client c''"
proof -
  have c': "pending_requests c (message_id m) = Some ch"
    "c' = c\<lparr>pending_requests := (pending_requests c)(message_id m := None)\<rparr>"
    using assms(2) by (simp_all add: dequeue_pending_request_def)
  have wf: "wf_requests (pending_requests c) (channels c) (calls c)" using assms(1) by (simp add: wf_client_def)
  have "channel_send ch m c' = Ok (c'\<lparr>channels := (channels c)[ch := Some m]\<rparr>)"
    using requestsD(2) [OF wf c'(1)] c'(2) by (simp add: channel_send_def)
  moreover have "wf_client (c'\<lparr>channels := (channels c)[ch := Some m]\<rparr>)"
    using assms(1) requests_deliver [OF wf c'(1)] c'(2) by (simp add: wf_client_def)
  ultimately show ?thesis by blast
qed

lemma receive_datagram_cases:
  assumes "wf_client c"
  shows "case receive_datagram d src c of
      Ok c' \<Rightarrow> wf_client c'
    | Err _ \<Rightarrow> False
    | Crash p \<Rightarrow> read_message (take 65535 d) = Crash p"
proof (cases "read_message (take 65535 d)")
  case (Ok msg)
  have "case (case dequeue_pending_request (message_id msg) c of
        (Some ch, c) \<Rightarrow> channel_send ch msg c | (None, c) \<Rightarrow> Ok c) of
      Ok c' \<Rightarrow> wf_client c' | Err _ \<Rightarrow> False | Crash p \<Rightarrow> False"
  proof -
    obtain r c' where r: "dequeue_pending_request (message_id msg) c = (r, c')" by force
    then show ?thesis using deliver [OF assms, of msg] wf_dequeue [OF assms r] by (cases r) auto
  qed
  then show ?thesis
    using Ok assms by (cases msg) (auto simp: receive_datagram_def wf_client_def split: outcome.split)
qed (use assms in \<open>simp_all add: receive_datagram_def\<close>)

lemma wf_client_step: "client_step c c' \<Longrightarrow> wf_client c \<Longrightarrow> wf_client c'"
proof (induction rule: client_step.induct)
  case (receive d src c c')
  then show ?case using receive_datagram_cases [of c d src] by simp
next
  case (reply i c msg c')
  then show ?case using take_reply_Ok [of c i msg] by auto
qed (auto intro: wf_start_ping wf_run_handler wf_time_out)

lemma wf_reachable:
  assumes "reachable_client k this c" "wf_id (info_id this)" "0 < k"
  shows "wf_client c"
  using assms(1) by induction (auto intro: wf_start [OF assms(2,3)] wf_client_step)

section \<open>The bytes of a ping\<close>

lemma length_transaction_id: "length (generate_transaction_id r1 r2) = 2"
  by (simp add: generate_transaction_id_def)

lemma ping_valid:
  assumes "wf_id own" "length t = 2"
  shows "valid_message (GoQuery t (bytes ''ping'') [(bytes ''id'', Bytes own)])"
    "valid_message (GoResponse t [(bytes ''id'', Bytes own)])"
  using assms by (simp_all add: valid_message_iff small_wf_bytes ascending_def wf_id_def)

definition query_bytes :: "node_id \<Rightarrow> u8 list \<Rightarrow> u8 list" where
  "query_bytes own t = bytes ''d1:ad2:id20:'' @ own @ bytes ''e1:q4:ping1:t2:'' @ t @ bytes ''1:y1:qe''"

definition answer_bytes :: "node_id \<Rightarrow> u8 list \<Rightarrow> u8 list" where
  "answer_bytes own t = bytes ''d1:rd2:id20:'' @ own @ bytes ''e1:t2:'' @ t @ bytes ''1:y1:re''"

lemma ping_bytes:
  assumes "wf_id own" "length t = 2"
  shows "encode_message (GoQuery t (bytes ''ping'') [(bytes ''id'', Bytes own)]) = query_bytes own t"
    "encode_message (GoResponse t [(bytes ''id'', Bytes own)]) = answer_bytes own t"
proof -
  have "encode_bytes (bytes ''a'') = bytes ''1:a''" "encode_bytes (bytes ''q'') = bytes ''1:q''"
    "encode_bytes (bytes ''r'') = bytes ''1:r''" "encode_bytes (bytes ''t'') = bytes ''1:t''"
    "encode_bytes (bytes ''y'') = bytes ''1:y''" "encode_bytes (bytes ''id'') = bytes ''2:id''"
    "encode_bytes (bytes ''ping'') = bytes ''4:ping''"
    "nat_to_string 20 = bytes ''20''" "nat_to_string 2 = bytes ''2''"
    by code_simp+
  note keys = this
  note valid = ping_valid [OF assms, unfolded valid_message_def]
  show "encode_message (GoQuery t (bytes ''ping'') [(bytes ''id'', Bytes own)]) = query_bytes own t"
    unfolding encode_message_def go_encode_eq [OF conjunct1 [OF valid(1)]] query_bytes_def
    using assms keys by (simp add: encode_bytes_def wf_id_def) (simp add: bytes_def)
  show "encode_message (GoResponse t [(bytes ''id'', Bytes own)]) = answer_bytes own t"
    unfolding encode_message_def go_encode_eq [OF conjunct1 [OF valid(2)]] answer_bytes_def
    using assms keys by (simp add: encode_bytes_def wf_id_def) (simp add: bytes_def)
qed

lemma read_ping:
  assumes "wf_id own" "length t = 2"
  shows "read_message (take 65535 (query_bytes own t)) = Ok (GoQuery t (bytes ''ping'') [(bytes ''id'', Bytes own)])"
    "read_message (take 65535 (answer_bytes own t)) = Ok (GoResponse t [(bytes ''id'', Bytes own)])"
proof -
  have "length (query_bytes own t) < 1000" "length (answer_bytes own t) < 1000"
    using assms by (simp_all add: query_bytes_def answer_bytes_def wf_id_def)
  then show "read_message (take 65535 (query_bytes own t)) = Ok (GoQuery t (bytes ''ping'') [(bytes ''id'', Bytes own)])"
    "read_message (take 65535 (answer_bytes own t)) = Ok (GoResponse t [(bytes ''id'', Bytes own)])"
    using read_encoded [OF ping_valid(1) [OF assms], of "[]"] read_encoded [OF ping_valid(2) [OF assms], of "[]"]
      ping_bytes [OF assms] by (simp_all add: small_wf_bytes)
qed

section \<open>The three parts of an exchange\<close>

lemma start_ping_fields:
  assumes "wf_id (client_id a)" "length t = 2"
  shows "outgoing (start_ping t there True a) = outgoing a @ [(query_bytes (client_id a) t, there)]"
    "channels (start_ping t there True a) = channels a @ [None]"
    "calls (start_ping t there True a) =
      calls a @ [\<lparr>call_channel = length (channels a), call_id = t, call_dest = there\<rparr>]"
    "pings (start_ping t there True a) = pings a"
    "pending_requests (start_ping t there True a) t = Some (length (channels a))"
    "routing_table (start_ping t there True a) = routing_table a"
  by (simp_all add: start_ping_def enqueue_pending_request_def ping_query_def ping_bytes [OF assms])

lemma query_answered:
  assumes "wf_id asker" "wf_id (client_id b)" "length t = 2"
  shows "\<exists>b1. receive_datagram (query_bytes asker t) here b = Ok b1 \<and>
    outgoing (run_handler (length (handlers b)) True b1) = outgoing b @ [(answer_bytes (client_id b) t, here)]"
proof -
  let ?h = "\<lparr>query_id = t, query_method = bytes ''ping'',
    query_args = [(bytes ''id'', Bytes asker)], query_source = here\<rparr>"
  have "receive_datagram (query_bytes asker t) here b = Ok (b\<lparr>handlers := handlers b @ [?h]\<rparr>)"
    by (simp add: receive_datagram_def read_ping [OF assms(1,3)])
  moreover have "handle_query (client_id b) (query_method ?h) (query_args ?h) =
      GoResponse [] [(bytes ''id'', Bytes (client_id b))]"
    using assms(1) by (simp add: handle_query_def handle_ping_def wf_id_def)
  then have "outgoing (run_handler (length (handlers b)) True (b\<lparr>handlers := handlers b @ [?h]\<rparr>)) =
      outgoing b @ [(answer_bytes (client_id b) t, here)]"
    by (simp add: run_handler_def ping_bytes [OF assms(2,3)])
  ultimately show ?thesis by blast
qed

lemma answer_completes:
  assumes wf: "wf_client a" and peer: "wf_id peer" and t: "length t = 2"
  shows "\<exists>a1 a2 reply. receive_datagram (answer_bytes peer t) src (start_ping t there True a) = Ok a1 \<and>
    channels a1 ! length (channels a) = Some reply \<and>
    take_reply (length (calls a)) reply a1 = Ok a2 \<and> calls a2 = calls a \<and>
    pings a2 = pings a @ [Replied reply] \<and>
    add_outcome (routing_table a) \<lparr>info_id = peer, info_address = there\<rparr> (routing_table a2)"
proof -
  let ?n = "length (channels a)" and ?reply = "GoResponse t [(bytes ''id'', Bytes peer)]"
  let ?peer = "\<lparr>info_id = peer, info_address = there\<rparr>"
  define a0 where "a0 = start_ping t there True a"
  have "wf_id (client_id a)" using wf by (auto simp: wf_client_def wf_go_table_def)
  note a0 = start_ping_fields [OF this t, of there, folded a0_def]
  let ?a1 = "a0\<lparr>pending_requests := (pending_requests a0)(t := None), channels := channels a @ [Some ?reply]\<rparr>"
  have "receive_datagram (answer_bytes peer t) src a0 = Ok ?a1"
    using a0 by (simp add: receive_datagram_def read_ping [OF peer t] dequeue_pending_request_def channel_send_def)
  moreover obtain table where "add_entry (routing_table a) ?peer = Ok table"
    "add_outcome (routing_table a) ?peer table"
    using add_entry_outcome [of "routing_table a" ?peer] wf peer by (auto simp: wf_client_def)
  moreover from this(1) have "\<exists>a2. take_reply (length (calls a)) ?reply ?a1 = Ok a2 \<and> calls a2 = calls a \<and>
      pings a2 = pings a @ [Replied ?reply] \<and> routing_table a2 = table"
    using peer a0 by (simp add: take_reply_def finish_ping_def remove_at_def wf_id_def)
  moreover have "channels ?a1 ! ?n = Some ?reply" by simp
  ultimately show ?thesis unfolding a0_def by blast
qed

definition loopback_udp :: udp_addr where
  "loopback_udp = \<lparr>udp_ip = ipv4 127 0 0 1, udp_port = 6881\<rparr>"

section \<open>Properties\<close>

text \<open>
  C20. In every state the client can reach, the receiver never waits for space in a channel, whatever
  datagram comes; a call only finds an answer with its own transaction id, takes it without a panic;
  and the routing table is well formed.
\<close>

theorem go_client_safe:
  assumes "reachable_client k this c" "wf_id (info_id this)" "0 < k"
  shows "(\<forall>d src. receive_datagram d src c \<noteq> Err Blocked) \<and>
    (\<forall>i < length (calls c). \<forall>m. channels c ! call_channel (calls c ! i) = Some m \<longrightarrow>
      message_id m = call_id (calls c ! i) \<and> (\<exists>c'. take_reply i m c = Ok c')) \<and>
    wf_go_table (routing_table c)"
proof -
  have wf: "wf_client c" by (rule wf_reachable [OF assms])
  then have "message_id m = call_id (calls c ! i)"
    if "i < length (calls c)" "channels c ! call_channel (calls c ! i) = Some m" for i m
    using requestsD(6) [OF _ nth_mem [OF that(1)] that(2)] by (auto simp: wf_client_def)
  moreover have "receive_datagram d src c \<noteq> Err Blocked" for d src
    using receive_datagram_cases [OF wf, of d src] by auto
  moreover have "\<exists>c'. take_reply i m c = Ok c'" for i m using take_reply_Ok [OF wf] by blast
  ultimately show ?thesis using wf unfolding wf_client_def by blast
qed

theorem go_client_safe_witness:
  "reachable_client 8 (go_contact (id_ending 0))
      (start_ping (generate_transaction_id 0 27) loopback_udp True (start_dht_client 8 (go_contact (id_ending 0)))) \<and>
   receive_datagram (bytes ''de'') loopback_udp
      (start_ping (generate_transaction_id 0 27) loopback_udp True (start_dht_client 8 (go_contact (id_ending 0))))
    \<noteq> Err Blocked"
proof -
  have reach: "reachable_client 8 (go_contact (id_ending 0))
      (start_ping (generate_transaction_id 0 27) loopback_udp True (start_dht_client 8 (go_contact (id_ending 0))))"
    by (rule reachable_client.step [OF reachable_client.start client_step.ping]) simp_all
  moreover have "wf_id (info_id (go_contact (id_ending 0)))" by code_simp
  ultimately show ?thesis using go_client_safe [OF reach] by simp
qed



text \<open>
  C22. One datagram ends the whole process: a key whose length is the largest \<open>int\<close> makes the
  decoder panic in the receiver, which does not recover, in every state of the client.
\<close>

theorem go_datagram_kills:
  assumes "length rest < 1000"
  shows "receive_datagram (bytes ''d9223372036854775807:'' @ rest) src c = Crash IndexOutOfBounds"
proof -
  have len: "length (bytes ''d9223372036854775807:'') = 21" by simp
  then have "take 65535 (bytes ''d9223372036854775807:'' @ rest) = bytes ''d9223372036854775807:'' @ rest"
    using assms by simp
  moreover have "wf_bytes (bytes ''d9223372036854775807:'' @ rest)"
    using assms len by (simp add: wf_bytes_def)
  ultimately show ?thesis
    by (simp only: receive_datagram_def read_message_def go_decode_panics outcome.case)
qed

theorem go_datagram_kills_witness:
  "receive_datagram (bytes ''d9223372036854775807:'' @ []) \<lparr>udp_ip = ipv4 10 0 0 1, udp_port = 6881\<rparr>
     (start_dht_client 8 (go_contact (id_ending 0))) = Crash IndexOutOfBounds"
  by (rule go_datagram_kills) simp

end
