(* ===== verification/Go_Interop.thy ===== *)
theory Go_Interop
  imports Go_Client Net_Loop
begin

text \<open>
  The two implementations talking to each other: the network thread of \<open>rust/src/main.rs\<close> and the
  client of \<open>go/dht_client.go\<close>, each with the other's datagrams.
\<close>

section \<open>A Rust node asks a Go node\<close>

definition find_node_args :: "node_id \<Rightarrow> dict" where
  "find_node_args me = [(bytes ''id'', Bytes me), (bytes ''target'', Bytes me)]"

definition unknown_method_text :: "u8 list" where
  "unknown_method_text = bytes ''Unknown method '' @ [quote] @ bytes ''find_node'' @ [quote]"

definition unknown_method_bytes :: "u8 list \<Rightarrow> u8 list" where
  "unknown_method_bytes t = bytes ''d1:eli204e26:'' @ unknown_method_text @ bytes ''e1:t2:'' @ t @ bytes ''1:y1:ee''"

abbreviation unknown_method :: "u8 list \<Rightarrow> go_message" where
  "unknown_method t \<equiv> GoError t KrpcErrorUnknownMethod unknown_method_text"

lemma bootstrap_is_query:
  assumes "wf_id (my_id i)" "client_version i = None" "length t = 2"
  defines "query \<equiv> GoQuery t (bytes ''find_node'') (find_node_args (my_id i))"
  shows "valid_message query" "encode (bootstrap_request i t) = encode_message query"
proof -
  have "as_bytes (str_of ''find_node'') = bytes ''find_node''" by code_simp
  then have eq: "bootstrap_request i t = Dict (message_dict query)"
    using assms(2) by (simp add: query_def bootstrap_request_def krpc_request_eq key_order_simps find_node_args_def)
  have "ascending (find_node_args (my_id i))" by (simp add: find_node_args_def ascending_def key_order)
  then show valid: "valid_message query"
    using assms(1,3) by (simp add: query_def valid_message_iff find_node_args_def small_wf_bytes wf_id_def)
  then show "encode (bootstrap_request i t) = encode_message query"
    by (simp only: eq encode_message_def go_encode_eq valid_message_def)
qed

lemma unknown_method_answer:
  assumes "length t = 2"
  shows "encode_message (unknown_method t) = unknown_method_bytes t" "valid_message (unknown_method t)"
proof -
  have sint: "sint (204 :: i64) = 204" by code_simp
  have "length unknown_method_text = 26" by (simp add: unknown_method_text_def)
  then show valid: "valid_message (unknown_method t)"
    using assms sint by (simp add: valid_message_iff small_wf_bytes)
  have "encode_bytes (bytes ''e'') = bytes ''1:e''" "encode_bytes (bytes ''t'') = bytes ''1:t''"
    "encode_bytes (bytes ''y'') = bytes ''1:y''"
    "encode_bytes unknown_method_text = bytes ''26:'' @ unknown_method_text"
    "i64_to_string 204 = bytes ''204''" "nat_to_string 2 = bytes ''2''"
    by code_simp+
  then show "encode_message (unknown_method t) = unknown_method_bytes t"
    unfolding encode_message_def go_encode_eq [OF conjunct1 [OF valid [unfolded valid_message_def]]]
      unknown_method_bytes_def
    using assms by (simp add: encode_bytes_def [of t]) (simp add: bytes_def)
qed

lemma decode_unknown_method:
  assumes "length t = 2"
  shows "decode (unknown_method_bytes t) = Ok (Dict (message_dict (unknown_method t)))"
proof -
  have "length (unknown_method_bytes t) < 1000"
    using assms by (simp add: unknown_method_bytes_def unknown_method_text_def)
  then show ?thesis
    using unknown_method_answer [OF assms] decode_encode_append [of "Dict (message_dict (unknown_method t))" "[]"]
    by (simp add: valid_message_def encode_message_def go_encode_eq small_wf_bytes
        del: message_dict.simps encode.simps go_encode.simps)
qed

section \<open>Properties\<close>

text \<open>
  C24. A Rust node that bootstraps from a Go node: the Go node reads the \<open>find_node\<close> query it sends,
  does not know the method and answers with error 204 under the query's transaction id; the Rust
  thread decodes that answer and shows it, and its dispatcher takes it as an error response.
\<close>

theorem rust_asks_go:
  assumes "wf_thread th" "length t = 2" "datagram r = Some (unknown_method_bytes t)"
  shows "\<exists>c1 d. receive_datagram (encode (bootstrap_request (info th) t)) here c = Ok c1 \<and>
    outgoing (run_handler (length (handlers c)) True c1) = outgoing c @ [(unknown_method_bytes t, here)] \<and>
    decode (unknown_method_bytes t) = Ok (Dict d) \<and>
    krpc_handle (Dict d) = (Ok (), [str_of ''Received error response: '' @ display (Dict d)]) \<and>
    (\<exists>th'. net_step r th = Ok th' \<and> last (shown th') = str_of ''received: '' @ display (Dict d))"
proof -
  let ?me = "my_id (info th)" and ?d = "message_dict (unknown_method t)"
  let ?query = "encode (bootstrap_request (info th) t)"
  have me: "wf_id ?me" "client_version (info th) = None" using assms(1) by (simp_all add: wf_thread_def)
  note query = bootstrap_is_query [OF me assms(2)]
  have "length ?query < 1000"
    unfolding bootstrap_request_bytes [OF me assms(2)] using me(1) assms(2) by (simp add: wf_id_def)
  then have "read_message (take 65535 ?query) = Ok (GoQuery t (bytes ''find_node'') (find_node_args ?me))"
    using read_encoded [OF query(1), of "[]"] by (simp add: query(2) small_wf_bytes)
  moreover have "handle_query i (bytes ''find_node'') a = unknown_method []" for i a
    by (simp add: handle_query_def unknown_method_text_def) (simp add: bytes_def)
  ultimately have "\<exists>c1. receive_datagram ?query here c = Ok c1 \<and>
      outgoing (run_handler (length (handlers c)) True c1) = outgoing c @ [(unknown_method_bytes t, here)]"
    using unknown_method_answer(1) [OF assms(2)] by (simp add: receive_datagram_def run_handler_def)
  moreover have dec: "decode (unknown_method_bytes t) = Ok (Dict ?d)" by (rule decode_unknown_method [OF assms(2)])
  moreover have "krpc_handle (Dict ?d) = (Ok (), [str_of ''Received error response: '' @ display (Dict ?d)])"
    by (simp add: krpc_handle_def krpc_on_error_def bt_get_def bytes_def byte_def)
  moreover have "received (unknown_method_bytes t) = unknown_method_bytes t"
    using assms(2) by (simp add: received_def unknown_method_bytes_def unknown_method_text_def)
  then obtain b where "net_step r th =
      Ok (show_line (str_of ''received: '' @ display (Dict ?d)) (run_command r th\<lparr>buf := b\<rparr>))"
    using net_step_receives [OF assms(1,3), of "Dict ?d"] dec by auto
  then have "\<exists>th'. net_step r th = Ok th' \<and> last (shown th') = str_of ''received: '' @ display (Dict ?d)"
    by (simp add: show_line_def)
  ultimately show ?thesis by blast
qed

theorem rust_asks_go_witness:
  "\<exists>c1. receive_datagram (encode (bootstrap_request (info (net_start (id_ending 3))) (bytes ''xy'')))
      loopback_udp (start_dht_client 8 (go_contact (id_ending 1))) = Ok c1 \<and>
    outgoing (run_handler 0 True c1) = [(unknown_method_bytes (bytes ''xy''), loopback_udp)]"
proof -
  have "wf_id (id_ending 3)" by code_simp
  from rust_asks_go [OF wf_net_start [OF this], of "bytes ''xy''"
      "quiet_round\<lparr>datagram := Some (unknown_method_bytes (bytes ''xy''))\<rparr>" loopback_udp
      "start_dht_client 8 (go_contact (id_ending 1))"]
  show ?thesis by (auto simp: start_dht_client_def)
qed

text \<open>
  A Go node that pings a Rust node gets no answer: the Rust thread shows the query and sends
  nothing for it. The ping can only end by its time-out, which forgets the request.
\<close>

theorem go_asks_rust:
  assumes "wf_thread th" "wf_id own" "length t = 2"
    and "datagram r = Some (query_bytes own t)" "command r = None"
  shows "(\<exists>th' b. net_step r th = Ok th' \<and> sent th' = sent th \<and>
      shown th' = shown th @ [str_of ''received: '' @ display b]) \<and>
    (let c' = time_out (length (calls c)) (start_ping t there True c) in
      pings c' = pings c @ [TimedOut] \<and> calls c' = calls c \<and> pending_requests c' t = None)"
proof -
  let ?query = "GoQuery t (bytes ''ping'') [(bytes ''id'', Bytes own)]"
  define d where "d = Dict (message_dict ?query)"
  have "length (query_bytes own t) < 1000" using assms(2,3) by (simp add: query_bytes_def wf_id_def)
  then have fit: "received (query_bytes own t) = query_bytes own t" "wf_bytes (query_bytes own t)"
    by (simp_all add: received_def small_wf_bytes)
  have "wf_bencode d"
    using ping_valid(1) [OF assms(2,3)] by (simp only: valid_message_def d_def)
  moreover have "query_bytes own t = go_encode d"
    by (simp only: ping_bytes(1) [OF assms(2,3), symmetric] encode_message_def d_def)
  ultimately have "decode (received (query_bytes own t)) = Ok d"
    using decode_encode_append [of d "[]"] fit by (simp add: go_encode_eq)
  then obtain b where "net_step r th =
      Ok (show_line (str_of ''received: '' @ display d) (run_command r th\<lparr>buf := b\<rparr>))"
    by (rule net_step_receives [OF assms(1,4)])
  moreover have "run_command r th = th" using assms(5) by (simp add: run_command_def)
  ultimately have "\<exists>th' b. net_step r th = Ok th' \<and> sent th' = sent th \<and>
      shown th' = shown th @ [str_of ''received: '' @ display b]"
    by (auto simp: show_line_def)
  then show ?thesis
    by (simp add: time_out_def start_ping_def enqueue_pending_request_def cancel_pending_request_def remove_at_def)
qed

theorem go_asks_rust_witness:
  "\<exists>th' b. net_step (quiet_round\<lparr>datagram := Some (query_bytes (id_ending 1) (bytes ''xy''))\<rparr>)
      (net_start (id_ending 3)) = Ok th' \<and> sent th' = [] \<and>
    shown th' = [str_of ''received: '' @ display b]"
proof -
  have "wf_id (id_ending 3)" "wf_id (id_ending 1)" by code_simp+
  from go_asks_rust [OF wf_net_start [OF this(1)] this(2), of "bytes ''xy''"
      "quiet_round\<lparr>datagram := Some (query_bytes (id_ending 1) (bytes ''xy''))\<rparr>"]
  show ?thesis by (simp add: quiet_round_def net_start_def)
qed

end
