(* ===== verification/Test_Support.thy ===== *)
theory Test_Support
  imports Prelude
begin

text \<open>
  The unit tests of the three source files are modelled like the program: a test is a value of
  type \<open>unit panics\<close>, \<open>Ok ()\<close> when it passes and a \<open>Crash\<close> when an assertion or an \<open>unwrap\<close>
  fails. What a test draws at random is a parameter, so a theorem about a test holds for every
  draw. This theory has the assertion macros.
\<close>

definition assert_eq :: "'a \<Rightarrow> 'a \<Rightarrow> unit panics" where
  "assert_eq a b = assert (a = b)"

definition assert_ne :: "'a \<Rightarrow> 'a \<Rightarrow> unit panics" where
  "assert_ne a b = assert (a \<noteq> b)"

definition unwrap_err :: "('a, 'e) outcome \<Rightarrow> 'e panics" where
  "unwrap_err m = (case m of Ok _ \<Rightarrow> Crash UnwrapFailed | Err e \<Rightarrow> Ok e | Crash p \<Rightarrow> Crash p)"

text \<open>The value of a method that also returns the changed receiver.\<close>

definition value_of :: "('a \<times> 'b, 'e) outcome \<Rightarrow> ('a, 'e) outcome" where
  "value_of m = and_then m (\<lambda>(x, _). Ok x)"

text \<open>The statements of a test, one after the other.\<close>

fun statements :: "unit panics list \<Rightarrow> unit panics" where
  "statements [] = Ok ()"
| "statements (m # ms) = and_then m (\<lambda>_. statements ms)"

lemma statements_Ok_iff: "statements ms = Ok () \<longleftrightarrow> (\<forall>m \<in> set ms. m = Ok ())"
  by (induction ms) (auto simp: and_then_eq_Ok_iff)

lemma assertions_Ok [simp]:
  "assert_eq a b = Ok () \<longleftrightarrow> a = b"
  "assert_ne a b = Ok () \<longleftrightarrow> a \<noteq> b"
  "assert c = Ok () \<longleftrightarrow> c"
  by (simp_all add: assert_eq_def assert_ne_def assert_def)

end
