(* ===== verification/Bencode_Tests.thy ===== *)
theory Bencode_Tests
  imports Bencode_Decode Test_Support
begin

text \<open>
  The tests of \<open>rust/src/bencode.rs\<close>. \<open>Decoder::new\<close> wraps the cursor, so a decoder is a cursor.
  Every test passes; each lemma evaluates the model on the test's input.
\<close>

definition test_parse_int :: "unit panics" where
  "test_parse_int = statements
     [and_then (unwrap (value_of (parse_int (cursor_new (bytes ''123''))))) (assert_eq 123),
      and_then (unwrap (value_of (parse_int (cursor_new (bytes ''+123''))))) (assert_eq 123),
      and_then (unwrap (value_of (parse_int (cursor_new (bytes ''-123''))))) (assert_eq (- 123)),
      and_then (unwrap_err (value_of (parse_int (cursor_new (bytes ''-a''))))) (assert_eq ExpectedInteger),
      and_then (unwrap_err (value_of (parse_int (cursor_new [])))) (assert_eq EndOfStream),
      and_then (unwrap_err (value_of (parse_int (cursor_new (bytes ''-100000000000000000000'')))))
        (assert_eq OversizedInteger)]"

lemma test_parse_int_passes: "test_parse_int = Ok ()"
  by code_simp

definition test_decode_int :: "unit panics" where
  "test_decode_int =
     and_then (unwrap (value_of (decode_int (cursor_new (bytes ''i-123e'')))))
       (assert_eq (Integer (- 123)))"

lemma test_decode_int_passes: "test_decode_int = Ok ()"
  by code_simp

definition test_decode_bytestring :: "unit panics" where
  "test_decode_bytestring =
     and_then (unwrap (value_of (decode_bytestring (cursor_new (bytes ''3:abcxyz'')))))
       (assert_eq (Bytes (bytes ''abc'')))"

lemma test_decode_bytestring_passes: "test_decode_bytestring = Ok ()"
  by code_simp

definition test_decode_list :: "unit panics" where
  "test_decode_list =
     and_then (unwrap (value_of (decode_list (cursor_new (bytes ''li4e3:qwee'')))))
       (assert_eq (List [Integer 4, Bytes (bytes ''qwe'')]))"

lemma test_decode_list_passes: "test_decode_list = Ok ()"
  by code_simp

definition test_decode_dict :: "unit panics" where
  "test_decode_dict =
     (let m = bt_insert (bytes ''one'') (Bytes (bytes ''hello'')) [];
          m = bt_insert (bytes ''two'') (Integer 123) m in
      and_then (unwrap (value_of (decode_dict (cursor_new (bytes ''d3:one5:hello3:twoi123ee'')))))
        (assert_eq (Dict m)))"

lemma test_decode_dict_passes: "test_decode_dict = Ok ()"
  by code_simp

end
