(* ===== verification/Fixed_Vec_Tests.thy ===== *)
theory Fixed_Vec_Tests
  imports Fixed_Vec Test_Support
begin

text \<open>
  The tests of \<open>rust/src/fixed_vec.rs\<close>. All of them pass; their items have nothing to drop, so the
  destructors at the end of a test do nothing.
\<close>

text \<open>\<open>assert_eq!(x, v[i])\<close>, which panics or is undefined where the index is.\<close>

definition item_is :: "'a fixed_vec \<Rightarrow> nat \<times> 'a \<Rightarrow> unit panics" where
  "item_is v p = and_then (index_vec v (fst p)) (assert_eq (snd p))"

definition test_push :: "unit panics" where
  "test_push =
     and_then (push new_vec ''a'') (\<lambda>v. and_then (push v ''b'') (\<lambda>v.
     and_then (statements [item_is v (0, ''a''), item_is v (1, ''b'')]) (\<lambda>_.
     and_then (push v ''c'') (\<lambda>v.
       statements [item_is v (0, ''a''), item_is v (1, ''b''), item_is v (2, ''c'')]))))"

lemma test_push_passes: "test_push = Ok ()"
  by code_simp

definition test_append :: "unit panics" where
  "test_append =
     and_then (push new_vec ''a'') (\<lambda>other. and_then (push other ''b'') (\<lambda>other.
     and_then (push other ''c'') (\<lambda>other. and_then (append new_vec other) (\<lambda>v.
       statements [item_is v (0, ''a''), item_is v (1, ''b''), item_is v (2, ''c'')]))))"

lemma test_append_passes: "test_append = Ok ()"
  by code_simp

definition test_append_vec :: "unit panics" where
  "test_append_vec =
     and_then (append_vec new_vec [''a'', ''b'', ''c'']) (\<lambda>v.
       statements [item_is v (0, ''a''), item_is v (1, ''b''), item_is v (2, ''c'')])"

lemma test_append_vec_passes: "test_append_vec = Ok ()"
  by code_simp

definition test_len_and_full :: "unit panics" where
  "test_len_and_full =
     (let v = new_vec :: string fixed_vec in
      and_then (statements [assert_eq 0 (vec_length v), and_then (empty_slots v) (assert_eq 8),
        assert (is_not_full v)]) (\<lambda>_.
      and_then (append_vec v [''a'', ''b'']) (\<lambda>v.
      and_then (statements [assert_eq 2 (vec_length v), and_then (empty_slots v) (assert_eq 6),
        assert (is_not_full v)]) (\<lambda>_.
      and_then (append_vec v [''c'', ''d'', ''e'', ''f'', ''g'', ''h'']) (\<lambda>v.
        statements [assert_eq 8 (vec_length v), and_then (empty_slots v) (assert_eq 0),
          assert (is_full v)])))))"

lemma test_len_and_full_passes: "test_len_and_full = Ok ()"
  by code_simp

definition test_iter :: "unit panics" where
  "test_iter =
     and_then (push new_vec ''a'') (\<lambda>v. and_then (push v ''b'') (\<lambda>v. and_then (push v ''c'') (\<lambda>v.
     and_then (as_slice v) (\<lambda>vec.
       statements [assert_eq 3 (length vec), and_then (index_at vec 0) (assert_eq ''a''),
         and_then (index_at vec 1) (assert_eq ''b''), and_then (index_at vec 2) (assert_eq ''c'')]))))"

lemma test_iter_passes: "test_iter = Ok ()"
  by code_simp

definition test_swap_remove :: "unit panics" where
  "test_swap_remove =
     and_then (push new_vec ''a'') (\<lambda>v. and_then (push v ''b'') (\<lambda>v. and_then (push v ''c'') (\<lambda>v.
     and_then (swap_remove v 0) (\<lambda>(_, v).
     and_then (statements [assert_eq 2 (vec_length v), item_is v (0, ''c''), item_is v (1, ''b'')]) (\<lambda>_.
     and_then (swap_remove v 1) (\<lambda>(_, v).
       statements [assert_eq 1 (vec_length v), item_is v (0, ''c'')]))))))"

lemma test_swap_remove_passes: "test_swap_remove = Ok ()"
  by code_simp

definition test_eq :: "unit panics" where
  "test_eq =
     (let a = new_vec :: 32 word fixed_vec; b = new_vec in
      and_then (and_then (eq_vec a b) assert) (\<lambda>_.
      and_then (push a 12) (\<lambda>a.
      and_then (and_then (eq_vec a b) (assert \<circ> Not)) (\<lambda>_.
      and_then (push b 12) (\<lambda>b.
      and_then (and_then (eq_vec a b) assert) (\<lambda>_.
      and_then (push a 3) (\<lambda>a. and_then (push b 4) (\<lambda>b.
        and_then (eq_vec a b) (assert \<circ> Not)))))))))"

lemma test_eq_passes: "test_eq = Ok ()"
  by code_simp

end
