(* ===== verification/Routing_Tests.thy ===== *)
theory Routing_Tests
  imports Routing_Find Test_Support
begin

text \<open>
  The tests of \<open>rust/src/main.rs\<close>. Random ids and contacts are parameters, and so are the clock
  readings; \<open>first_bytes\<close> sets the first byte of each id as the tests do.
\<close>

section \<open>Helpers of the tests\<close>

text \<open>\<open>build_contact\<close>, \<open>build_contacts\<close> and \<open>build_entry\<close>, for the ids that are drawn.\<close>

definition build_contact :: "node_id \<Rightarrow> node_contact_info panics" where
  "build_contact random_id =
     and_then (unwrap (parse_socket_addr (str_of ''127.0.0.1:6881''))) (\<lambda>addr.
       Ok \<lparr>contact_id = random_id, address = addr\<rparr>)"

fun build_contacts :: "node_id list \<Rightarrow> node_contact_info list panics" where
  "build_contacts [] = Ok []"
| "build_contacts (i # is) =
     and_then (build_contact i) (\<lambda>n. and_then (build_contacts is) (\<lambda>ns. Ok (n # ns)))"

definition build_entry :: "node_id \<Rightarrow> routing_entry panics" where
  "build_entry random_id = and_then (build_contact random_id) (\<lambda>n. Ok (entry_new n))"

fun build_entries :: "node_id list \<Rightarrow> routing_entry list panics" where
  "build_entries [] = Ok []"
| "build_entries (i # is) =
     and_then (build_entry i) (\<lambda>e. and_then (build_entries is) (\<lambda>es. Ok (e # es)))"

text \<open>\<open>nodes[i].id[0] = b\<close>; ids are arrays of twenty bytes, so the index is in range.\<close>

definition with_first :: "u8 \<Rightarrow> node_contact_info \<Rightarrow> node_contact_info" where
  "with_first b n = n\<lparr>contact_id := (contact_id n)[0 := b]\<rparr>"

definition first_bytes :: "u8 list \<Rightarrow> node_contact_info list \<Rightarrow> node_contact_info list" where
  "first_bytes bs ns = map2 with_first bs ns"

text \<open>\<open>rt.buckets[i].entries.push(e)\<close> and \<open>append_vec\<close>.\<close>

definition on_entries :: "nat \<Rightarrow> (routing_entry fixed_vec \<Rightarrow> routing_entry fixed_vec panics) \<Rightarrow>
    routing_table \<Rightarrow> routing_table panics" where
  "on_entries i f rt =
     and_then (index_at (buckets rt) i) (\<lambda>b. and_then (f (entries b)) (\<lambda>v. Ok (set_entries rt i b v)))"

fun push_all :: "(nat \<times> routing_entry) list \<Rightarrow> routing_table \<Rightarrow> routing_table panics" where
  "push_all [] rt = Ok rt"
| "push_all ((i, e) # es) rt = and_then (on_entries i (\<lambda>v. push v e) rt) (push_all es)"

fun contains_from :: "nat list \<Rightarrow> routing_entry fixed_vec \<Rightarrow> node_contact_info \<Rightarrow> bool \<Rightarrow> bool panics" where
  "contains_from [] v n res = Ok res"
| "contains_from (i # is) v n res =
     and_then (index_vec v i) (\<lambda>e. contains_from is v n (if node e = n then True else res))"

definition bucket_contains :: "bucket \<Rightarrow> node_contact_info \<Rightarrow> bool panics" where
  "bucket_contains b n = contains_from [0..<vec_length (entries b)] (entries b) n False"

text \<open>\<open>assert!(bucket_contains(&rt.buckets[i], &n))\<close>, for all nodes of a list.\<close>

definition assert_in :: "routing_table \<Rightarrow> nat \<Rightarrow> node_contact_info \<Rightarrow> unit panics" where
  "assert_in rt i n = and_then (index_at (buckets rt) i) (\<lambda>b. and_then (bucket_contains b n) assert)"

definition assert_not_in :: "routing_table \<Rightarrow> nat \<Rightarrow> node_contact_info \<Rightarrow> unit panics" where
  "assert_not_in rt i n =
     and_then (index_at (buckets rt) i) (\<lambda>b. and_then (bucket_contains b n) (\<lambda>c. assert (\<not> c)))"

definition assert_entries :: "routing_table \<Rightarrow> nat \<Rightarrow> nat \<Rightarrow> unit panics" where
  "assert_entries rt i len =
     and_then (index_at (buckets rt) i) (\<lambda>b. assert_eq len (vec_length (entries b)))"

definition assert_bounds :: "routing_table \<Rightarrow> nat \<Rightarrow> nat \<Rightarrow> nat \<Rightarrow> unit panics" where
  "assert_bounds rt i lo hi =
     and_then (index_at (buckets rt) i) (\<lambda>b. assert_eq \<lparr>range_start = lo, range_end = hi\<rparr> (bounds b))"

text \<open>The closest nodes of a search that must not be exact, and that all given nodes are among them.\<close>

definition assert_closest :: "node_contact_info list \<Rightarrow> node_match \<Rightarrow> unit panics" where
  "assert_closest ns m =
     (case m of
        Closest r \<Rightarrow> and_then (as_slice r) (\<lambda>found. statements (map (\<lambda>n. assert (n \<in> set found)) ns))
      | Exact _ \<Rightarrow> Crash AssertFailed)"

section \<open>The tests\<close>

definition test_common_prefix_length :: "unit panics" where
  "test_common_prefix_length =
     (let id1 = replicate 20 0; id2 = replicate 20 0; id3 = replicate 20 255;
          id4 = id3[0 := 0, 1 := 0x20] in
      statements [assert_eq 160 (common_prefix_length id1 id2), assert_eq 0 (common_prefix_length id1 id3),
        assert_eq 10 (common_prefix_length id1 id4)])"

definition test_find_exact_node :: "node_id \<Rightarrow> node_id \<Rightarrow> unit panics" where
  "test_find_exact_node ref i =
     and_then (build_entry i) (\<lambda>e.
     and_then (on_entries 0 (\<lambda>v. push v e) (table_new ref)) (\<lambda>rt.
     and_then (find_node rt (entry_id e)) (assert_eq (Exact (node e)))))"

text \<open>The entries that some tests build from their contacts, never queried and never heard of.\<close>

definition plain_entries :: "node_contact_info list \<Rightarrow> routing_entry list" where
  "plain_entries ns = map (\<lambda>n. \<lparr>node = n, last_response = None, last_query = None\<rparr>) ns"

definition test_find_full_bucket :: "node_id \<Rightarrow> node_id list \<Rightarrow> node_id \<Rightarrow> unit panics" where
  "test_find_full_bucket ref ids needle =
     and_then (build_contacts ids) (\<lambda>ns.
     let ns = first_bytes [1, 2, 4, 8, 16, 32, 64, 128] ns; needle = needle[0 := 255] in
     and_then (on_entries 0 (\<lambda>v. append_vec v (plain_entries ns)) (table_new ref)) (\<lambda>rt.
     and_then (find_node rt needle) (assert_closest ns)))"

definition test_find_spanning :: "node_id \<Rightarrow> node_id list \<Rightarrow> node_id \<Rightarrow> unit panics" where
  "test_find_spanning ref ids needle =
     and_then (build_contacts ids) (\<lambda>ns.
     let ns = first_bytes [1, 2, 4, 8, 16, 32, 64, 128] ns; ref = ref[0 := 9]; needle = needle[0 := 11];
         range = (\<lambda>lo hi. \<lparr>range_start = lo, range_end = hi\<rparr>);
         rt = \<lparr>buckets = [bucket_new (range 0 2), bucket_new (range 2 5), bucket_new (range 5 100),
           bucket_new (range 100 160)], reference_id = ref\<rparr> in
     and_then (push_all (zip [0, 0, 1, 2, 2, 3, 3, 3] (plain_entries ns)) rt) (\<lambda>rt.
     and_then (find_node rt needle) (assert_closest ns)))"

text \<open>The entry of the only node of a table, and which of its two timestamps are set.\<close>

definition assert_entry :: "routing_table \<Rightarrow> node_contact_info \<Rightarrow> bool \<Rightarrow> bool \<Rightarrow> unit panics" where
  "assert_entry rt n queried responded =
     and_then (index_at (buckets rt) 0) (\<lambda>b. and_then (index_vec (entries b) 0) (\<lambda>e.
       statements [assert_eq n (node e), assert ((last_query e \<noteq> None) = queried),
         assert ((last_response e \<noteq> None) = responded)]))"

definition test_add_and_update :: "node_id \<Rightarrow> node_id \<Rightarrow> clock \<Rightarrow> clock \<Rightarrow> clock \<Rightarrow> unit panics" where
  "test_add_and_update ref i c1 c2 c3 =
     and_then (build_contact i) (\<lambda>n.
     let rt = table_new ref in
     and_then (statements [assert_eq 1 (length (buckets rt)), assert_entries rt 0 0]) (\<lambda>_.
     and_then (update rt n Referral c1) (\<lambda>rt.
     and_then (statements [assert_eq 1 (length (buckets rt)), assert_entries rt 0 1,
       assert_entry rt n False False]) (\<lambda>_.
     and_then (update rt n Query c2) (\<lambda>rt.
     and_then (statements [assert_eq 1 (length (buckets rt)), assert_entries rt 0 1,
       assert_entry rt n True False]) (\<lambda>_.
     and_then (update rt n Response c3) (\<lambda>rt.
       statements [assert_eq 1 (length (buckets rt)), assert_entries rt 0 1,
         assert_entry rt n True True])))))))"

definition test_add_to_non_full :: "node_id \<Rightarrow> node_id list \<Rightarrow> node_id \<Rightarrow> clock \<Rightarrow> unit panics" where
  "test_add_to_non_full ref ids i clk =
     and_then (build_entries ids) (\<lambda>es.
     and_then (on_entries 0 (\<lambda>v. append_vec v es) (table_new ref)) (\<lambda>rt.
     and_then (statements [assert_eq 1 (length (buckets rt)), assert_entries rt 0 7]) (\<lambda>_.
     and_then (build_contact i) (\<lambda>n.
     and_then (update rt n Referral clk) (\<lambda>rt.
       statements [assert_eq 1 (length (buckets rt)), assert_entries rt 0 8])))))"

text \<open>Entries with both timestamps set to the readings \<open>now\<close>, two for each entry.\<close>

definition seen_entries :: "node_contact_info list \<Rightarrow> (nat \<Rightarrow> instant) \<Rightarrow> routing_entry list" where
  "seen_entries ns now = map (\<lambda>(i, n). \<lparr>node = n, last_response = Some (now (2 * i + 1)),
     last_query = Some (now (2 * i))\<rparr>) (enumerate 0 ns)"

definition minutes :: "int \<Rightarrow> int" where
  "minutes m = 60 * m * 10 ^ 9"

definition test_replace_bad_node :: "node_id \<Rightarrow> node_id list \<Rightarrow> node_id \<Rightarrow> (nat \<Rightarrow> instant) \<Rightarrow> clock \<Rightarrow>
    clock \<Rightarrow> unit panics" where
  "test_replace_bad_node ref ids i now rate_clk clk =
     and_then (build_contacts ids) (\<lambda>ns.
     and_then (push_all (zip (replicate 8 0) (seen_entries ns now)) (table_new ref)) (\<lambda>rt.
     and_then (index_at (buckets rt) 0) (\<lambda>b. and_then (index_vec (entries b) 3) (\<lambda>bad.
     and_then (on_entries 0 (\<lambda>v. index_mut v 3 (\<lambda>e. e\<lparr>last_query := Some (now 16 - minutes 23),
       last_response := Some (now 17 - minutes 23)\<rparr>)) rt) (\<lambda>rt.
     and_then (statements [assert_eq 1 (length (buckets rt)), assert_entries rt 0 8]) (\<lambda>_.
     and_then (index_at (buckets rt) 0) (\<lambda>b. and_then (as_slice (entries b)) (\<lambda>es.
     and_then (assert (bad_position rate_clk es \<noteq> None)) (\<lambda>_.
     and_then (build_contact i) (\<lambda>n.
     and_then (update rt n Referral clk) (\<lambda>rt.
       statements [assert_eq 1 (length (buckets rt)), assert_entries rt 0 8,
         assert_not_in rt 0 (node bad), assert_in rt 0 n])))))))))))"

definition test_split_bucket :: "node_id \<Rightarrow> node_id list \<Rightarrow> node_id \<Rightarrow> clock \<Rightarrow> unit panics" where
  "test_split_bucket ref ids i clk =
     and_then (build_contacts ids) (\<lambda>ns.
     let ns = first_bytes [0x80, 0xC0, 0xE0, 0xF0, 0, 0x40, 0x60, 0x70] ns in
     and_then (on_entries 0 (\<lambda>v. append_vec v (plain_entries ns)) (table_new (ref[0 := 255]))) (\<lambda>rt.
     and_then (build_contact i) (\<lambda>n. let n = with_first 0 n in
     and_then (update rt n Referral clk) (\<lambda>rt.
       statements ([assert_eq 2 (length (buckets rt)), assert_bounds rt 0 0 1, assert_bounds rt 1 1 160] @
         map (assert_in rt 0) (drop 4 ns @ [n]) @ map (assert_in rt 1) (take 4 ns))))))"

definition test_split_alone :: "node_id \<Rightarrow> node_id list \<Rightarrow> node_id \<Rightarrow> clock \<Rightarrow> unit panics" where
  "test_split_alone ref ids i clk =
     and_then (build_contacts ids) (\<lambda>ns.
     let ns = first_bytes [0x80, 0xC0, 0xE0, 0xF0, 0xF8, 0xFC, 0xFE, 0x81] ns in
     and_then (on_entries 0 (\<lambda>v. append_vec v (plain_entries ns)) (table_new (ref[0 := 255]))) (\<lambda>rt.
     and_then (build_contact i) (\<lambda>n. let n = with_first 0 n in
     and_then (update rt n Referral clk) (\<lambda>rt.
       statements ([assert_eq 2 (length (buckets rt)), assert_bounds rt 0 0 1, assert_bounds rt 1 1 160,
         assert_in rt 0 n] @ map (assert_in rt 1) ns)))))"

definition test_discard_node :: "node_id list \<Rightarrow> node_id \<Rightarrow> (nat \<Rightarrow> instant) \<Rightarrow> clock \<Rightarrow> unit panics" where
  "test_discard_node ids i now clk =
     (let rt = \<lparr>buckets = [bucket_new \<lparr>range_start = 0, range_end = 1\<rparr>,
          bucket_new \<lparr>range_start = 1, range_end = 160\<rparr>], reference_id = replicate 20 0\<rparr> in
      and_then (build_contacts ids) (\<lambda>ns.
      let ns = map (with_first 255) ns in
      and_then (push_all (zip (replicate 8 0) (seen_entries ns now)) rt) (\<lambda>rt.
      and_then (statements [assert_eq 2 (length (buckets rt)), assert_entries rt 0 8]) (\<lambda>_.
      and_then (build_contact i) (\<lambda>n. let n = with_first 255 n in
      and_then (update rt n Referral clk) (\<lambda>rt.
        statements [assert_eq 2 (length (buckets rt)), assert_entries rt 0 8,
          assert_not_in rt 0 n, assert_not_in rt 1 n]))))))"

text \<open>The ratings of one entry; \<open>now\<close> lists the clock readings in the order they are made.\<close>

definition test_entry_rating :: "node_id \<Rightarrow> (nat \<Rightarrow> instant) \<Rightarrow> unit panics" where
  "test_entry_rating i now =
     and_then (build_contact i) (\<lambda>n.
     let e0 = entry_new n;
         e1 = e0\<lparr>last_response := Some (now 0 - minutes 10)\<rparr>;
         e2 = e1\<lparr>last_response := Some (now 2 - minutes 20)\<rparr>;
         e3 = e2\<lparr>last_query := Some (now 4 - minutes 7)\<rparr>;
         e4 = e3\<lparr>last_query := Some (now 7 - minutes 16)\<rparr> in
     statements [assert_eq Questionable (rating e0 (now 0) (now 0)),
       assert_eq Good (rating e1 (now 1) (now 1)), assert_eq Bad (rating e2 (now 3) (now 3)),
       assert_eq Good (rating e3 (now 5) (now 6)), assert_eq Bad (rating e4 (now 8) (now 9))])"

section \<open>Every test passes\<close>

lemma build_contact_Ok: "build_contact i = Ok \<lparr>contact_id = i, address = \<lparr>ip = 0x7F000001, port = 6881\<rparr>\<rparr>"
  by (simp add: build_contact_def loopback_address)

definition contact :: "node_id \<Rightarrow> node_contact_info" where
  "contact i = \<lparr>contact_id = i, address = \<lparr>ip = 0x7F000001, port = 6881\<rparr>\<rparr>"

lemma build_simps [simp]:
  "build_contact i = Ok (contact i)" "build_contacts ids = Ok (map contact ids)"
  "build_entry i = Ok (entry_new (contact i))" "build_entries ids = Ok (map (entry_new \<circ> contact) ids)"
proof -
  show c: "build_contact i = Ok (contact i)" for i by (simp add: build_contact_Ok contact_def)
  then show e: "build_entry i = Ok (entry_new (contact i))" for i by (simp add: build_entry_def)
  show "build_contacts ids = Ok (map contact ids)" by (induction ids) (simp_all add: c)
  show "build_entries ids = Ok (map (entry_new \<circ> contact) ids)" by (induction ids) (simp_all add: e)
qed

lemma test_common_prefix_length_passes: "test_common_prefix_length = Ok ()"
  by code_simp

text \<open>Tables of one bucket, as the tests build them.\<close>

definition one_bucket :: "node_id \<Rightarrow> routing_entry fixed_vec \<Rightarrow> routing_table" where
  "one_bucket ref v =
     \<lparr>buckets = [\<lparr>entries = v, bounds = \<lparr>range_start = 0, range_end = 160\<rparr>\<rparr>], reference_id = ref\<rparr>"

lemma one_bucket_simps [simp]:
  "buckets (one_bucket ref v) = [\<lparr>entries = v, bounds = \<lparr>range_start = 0, range_end = 160\<rparr>\<rparr>]"
  "reference_id (one_bucket ref v) = ref"
  "table_new ref = one_bucket ref new_vec"
  "set_entries (one_bucket ref v) 0 \<lparr>entries = v, bounds = \<lparr>range_start = 0, range_end = 160\<rparr>\<rparr> w =
    one_bucket ref w"
  by (simp_all add: one_bucket_def table_new_def bucket_new_def set_entries_def)

lemma wf_one_bucket:
  assumes "wf_id ref" "wf_vec v" "distinct (map entry_id (view v))"
    and "\<And>e. e \<in> set (view v) \<Longrightarrow> wf_id (entry_id e) \<and> entry_id e \<noteq> ref"
  shows "wf_table (one_bucket ref v)"
proof -
  have "entry_prefix ref e < 160" if "e \<in> set (view v)" for e
    using prefix_bounds(3) [OF assms(1)] assms(4) [OF that] by (auto simp: entry_prefix_def)
  then show ?thesis
    using assms by (auto simp: wf_table_def table_bounds_def wf_bucket_def contains_def)
qed

lemma append_to_new:
  assumes "length es \<le> 8"
  obtains v where "on_entries 0 (\<lambda>v. append_vec v es) (one_bucket ref new_vec) = Ok (one_bucket ref v)"
    "wf_vec v" "view v = es"
proof -
  obtain v where "append_vec new_vec es = Ok v" "wf_vec v" "view v = es"
    using append_vec_view [OF wf_new_vec, of es] assms by (auto simp: BUCKET_SIZE_def)
  then show thesis by (intro that [of v]) (simp_all add: on_entries_def)
qed

lemma contains_from_eq:
  "wf_vec v \<Longrightarrow> \<forall>i \<in> set is. i < length (view v) \<Longrightarrow>
    contains_from is v n res = Ok (res \<or> (\<exists>i \<in> set is. node (view v ! i) = n))"
proof (induction "is" arbitrary: res)
  case (Cons i "is")
  then show ?case by (auto simp: index_vec_view simp del: length_view)
qed simp

lemma bucket_contains_eq:
  assumes "wf_vec (entries b)"
  shows "bucket_contains b n = Ok (n \<in> node ` set (contents b))"
proof -
  have "(\<exists>i \<in> set [0..<vec_length (entries b)]. node (contents b ! i) = n) \<longleftrightarrow> n \<in> node ` set (contents b)"
    using assms by (force simp: in_set_conv_nth)
  then show ?thesis using assms by (simp add: bucket_contains_def contains_from_eq)
qed

lemma assert_in_iff:
  "i < length (buckets rt) \<Longrightarrow> wf_vec (entries (buckets rt ! i)) \<Longrightarrow>
    assert_in rt i n = Ok () \<longleftrightarrow> n \<in> node ` set (contents (buckets rt ! i))"
  "i < length (buckets rt) \<Longrightarrow> wf_vec (entries (buckets rt ! i)) \<Longrightarrow>
    assert_not_in rt i n = Ok () \<longleftrightarrow> n \<notin> node ` set (contents (buckets rt ! i))"
  by (simp_all add: assert_in_def assert_not_in_def bucket_contains_eq)

text \<open>Pushing entries into several buckets: the contents of the buckets, with the room for each push.\<close>

fun pushed :: "(nat \<times> routing_entry) list \<Rightarrow> routing_entry list list \<Rightarrow> routing_entry list list" where
  "pushed [] vs = vs"
| "pushed ((i, e) # es) vs = pushed es (vs[i := vs ! i @ [e]])"

fun fits :: "(nat \<times> routing_entry) list \<Rightarrow> routing_entry list list \<Rightarrow> bool" where
  "fits [] vs = True"
| "fits ((i, e) # es) vs = (i < length vs \<and> length (vs ! i) < 8 \<and> fits es (vs[i := vs ! i @ [e]]))"

definition holds :: "bucket list \<Rightarrow> range_u32 list \<Rightarrow> routing_entry list list \<Rightarrow> bool" where
  "holds bs rs vs \<longleftrightarrow> map bounds bs = rs \<and> map contents bs = vs \<and> (\<forall>b \<in> set bs. wf_vec (entries b))"

lemma holds_length: "holds bs rs vs \<Longrightarrow> length bs = length vs"
  by (auto simp: holds_def)

lemma holds_views: "holds bs rs vs \<Longrightarrow> i < length bs \<Longrightarrow> contents (bs ! i) = vs ! i"
  by (auto simp: holds_def)

lemma push_all_holds:
  "holds (buckets rt) rs vs \<Longrightarrow> fits es vs \<Longrightarrow>
    \<exists>rt'. push_all es rt = Ok rt' \<and> reference_id rt' = reference_id rt \<and>
      holds (buckets rt') rs (pushed es vs)"
proof (induction es arbitrary: rt vs)
  case Nil
  then show ?case by simp
next
  case (Cons ie es)
  obtain i e where ie: "ie = (i, e)" by (cases ie)
  let ?b = "buckets rt ! i"
  have i: "i < length (buckets rt)" "contents ?b = vs ! i" "wf_vec (entries ?b)" "length (vs ! i) < 8"
    using Cons.prems ie by (auto simp: holds_def)
  obtain v where v: "push (entries ?b) e = Ok v" "wf_vec v" "view v = vs ! i @ [e]"
    using push_view [OF i(3), of e] i(2,4) by (auto simp: BUCKET_SIZE_def)
  let ?rt = "set_entries rt i ?b v"
  have "(map bounds (buckets rt))[i := bounds ?b] = map bounds (buckets rt)"
    using i(1) by (metis list_update_id map_update)
  then have "holds (buckets ?rt) rs (vs[i := vs ! i @ [e]])"
    using Cons.prems(1) v
    by (auto simp: holds_def set_entries_def map_update dest!: set_update_subset_insert [THEN subsetD])
  then obtain rt' where "push_all es ?rt = Ok rt'" "reference_id rt' = reference_id ?rt"
    "holds (buckets rt') rs (pushed es (vs[i := vs ! i @ [e]]))"
    using Cons.IH Cons.prems(2) ie by fastforce
  then show ?case
    using ie i(1) v(1) by (auto simp: on_entries_def set_entries_def)
qed

text \<open>Ids with a given first byte.\<close>

lemma wf_id_first: "wf_id i \<Longrightarrow> wf_id (i[0 := b])"
  by (simp add: wf_id_def)

lemma nth_first: "wf_id i \<Longrightarrow> i[0 := b] ! 0 = b"
  by (simp add: wf_id_def)

lemma entry_id_plain [simp]: "map node (plain_entries ns) = ns" "node ` set (plain_entries ns) = set ns"
  "map entry_id (plain_entries ns) = map contact_id ns" "length (plain_entries ns) = length ns"
  "set (plain_entries ns) = (\<lambda>n. \<lparr>node = n, last_response = None, last_query = None\<rparr>) ` set ns"
  by (auto simp: plain_entries_def comp_def image_iff)

lemma contact_id_first [simp]: "contact_id (with_first b n) = (contact_id n)[0 := b]"
  "contact_id (contact i) = i"
  by (simp_all add: with_first_def contact_def)

lemma first_bytes_ids: "map contact_id (first_bytes bs (map contact ids)) = map2 (\<lambda>b i. i[0 := b]) bs ids"
  by (simp add: first_bytes_def zip_map2 comp_def case_prod_beta)

lemma distinct_first:
  assumes "length ids = length bs" "distinct bs" "\<forall>i \<in> set ids. wf_id i"
  shows "distinct (map2 (\<lambda>b i. i[0 := b]) bs ids)"
proof -
  have "map (\<lambda>i. i ! 0) (map2 (\<lambda>b i. i[0 := b]) bs ids) = bs"
    using assms by (intro nth_equalityI) (auto simp: nth_first)
  with assms(2) show ?thesis by (metis distinct_map)
qed

lemma first_bytes_mem:
  assumes "n \<in> set (first_bytes bs (map contact ids))" "\<forall>i \<in> set ids. wf_id i"
  shows "wf_id (contact_id n)" "contact_id n ! 0 \<in> set bs"
    "contact_id n \<in> set (map2 (\<lambda>b i. i[0 := b]) bs ids)"
proof -
  show mem: "contact_id n \<in> set (map2 (\<lambda>b i. i[0 := b]) bs ids)"
    using assms(1) first_bytes_ids by (metis image_eqI image_set)
  then obtain b i where i: "contact_id n = i[0 := b]" "(b, i) \<in> set (zip bs ids)" by auto
  then have "wf_id i" "b \<in> set bs" using assms(2) by (auto dest: set_zip_leftD set_zip_rightD)
  with i(1) show "wf_id (contact_id n)" "contact_id n ! 0 \<in> set bs"
    by (simp_all add: wf_id_first nth_first)
qed

lemma test_find_exact_node_passes:
  assumes "wf_id ref" "wf_id i" "i \<noteq> ref"
  shows "test_find_exact_node ref i = Ok ()"
proof -
  let ?e = "entry_new (contact i)"
  obtain v where v: "push new_vec ?e = Ok v" "wf_vec v" "view v = [?e]"
    using push_view [OF wf_new_vec, of ?e] by (auto simp: BUCKET_SIZE_def)
  have e: "entry_id ?e = i" "node ?e = contact i" by (simp_all add: entry_new_def)
  have wf: "wf_table (one_bucket ref v)"
    using assms v e by (intro wf_one_bucket) auto
  have "entry_map (one_bucket ref v) i = Some ?e"
    using v e by (simp add: entry_map_def all_entries_def)
  then have "find_node (one_bucket ref v) i = Ok (Exact (contact i))"
    using find_node_eq [OF wf assms(2)] assms(3) e by simp
  with v e show ?thesis by (simp add: test_find_exact_node_def on_entries_def)
qed

lemma test_find_full_bucket_passes:
  assumes "wf_id ref" "length ids = 8" "\<forall>i \<in> set ids. wf_id i" "wf_id needle"
    and "needle[0 := 255] \<noteq> ref" "ref \<notin> set (map2 (\<lambda>b i. i[0 := b]) [1, 2, 4, 8, 16, 32, 64, 128] ids)"
  shows "test_find_full_bucket ref ids needle = Ok ()"
proof -
  let ?ns = "first_bytes [1, 2, 4, 8, 16, 32, 64, 128] (map contact ids)"
  let ?needle = "needle[0 := 255]"
  have len: "length ?ns = 8" using assms(2) by (simp add: first_bytes_def)
  obtain v where v: "on_entries 0 (\<lambda>v. append_vec v (plain_entries ?ns)) (one_bucket ref new_vec) =
      Ok (one_bucket ref v)" "wf_vec v" "view v = plain_entries ?ns"
    using append_to_new [of "plain_entries ?ns" ref] len by auto
  have mem: "\<forall>n \<in> set ?ns. wf_id (contact_id n) \<and> contact_id n \<noteq> ref \<and> contact_id n \<noteq> ?needle"
    using first_bytes_mem [OF _ assms(3)] assms(6) nth_first [OF assms(4), of 255] by fastforce
  have "distinct (map contact_id ?ns)"
    unfolding first_bytes_ids using assms(2,3) by (intro distinct_first) simp_all
  then have wf: "wf_table (one_bucket ref v)"
    using assms(1) v mem by (intro wf_one_bucket) auto
  have "entry_map (one_bucket ref v) ?needle = None"
    using v mem by (auto simp: entry_map_def all_entries_def map_of_eq_None_iff)
  then obtain r where r: "find_node (one_bucket ref v) ?needle = Ok (Closest r)" "wf_vec r"
    "view r = take BUCKET_SIZE (map node (visit_order (buckets (one_bucket ref v))
      (bucket_index 1 (common_prefix_length ref ?needle))))"
    using find_closest [OF wf wf_id_first [OF assms(4), of 255]] assms(5) by auto
  then have "view r = ?ns"
    using v len by (simp add: visit_order_def bucket_index_def BUCKET_SIZE_def)
  with v r(1,2) show ?thesis
    by (simp add: test_find_full_bucket_def assert_closest_def statements_Ok_iff Let_def)
qed

text \<open>The prefix length of two ids whose first bytes differ.\<close>

lemma prefix_first:
  assumes "wf_id a" "wf_id b" "x \<noteq> y"
  shows "common_prefix_length (a[0 := x]) (b[0 := y]) = leading_zeros (x XOR y)"
proof -
  obtain a' b' where ab: "a[0 := x] = x # a'" "b[0 := y] = y # b'"
    using assms(1,2) by (cases a; cases b) (auto simp: wf_id_def)
  have "x XOR y \<noteq> 0" using assms(3) by (auto simp: bit_eq_iff bit_xor_iff)
  then show ?thesis
    using distance_Cons [OF wf_id_first wf_id_first, OF assms(1,2), of x y]
    by (simp add: ab common_prefix_length_def count_zeros_Cons del: count_zeros.simps)
qed

lemma first_neq: "wf_id a \<Longrightarrow> wf_id b \<Longrightarrow> x \<noteq> y \<Longrightarrow> a[0 := x] \<noteq> b[0 := y]"
  using nth_first by metis

lemma test_find_spanning_passes:
  assumes "wf_id ref" "length ids = 8" "\<forall>i \<in> set ids. wf_id i" "wf_id needle"
  shows "test_find_spanning ref ids needle = Ok ()"
proof -
  obtain a b c d e f g h where ids: "ids = [a, b, c, d, e, f, g, h]"
    using assms(2) by (auto simp: numeral_eq_Suc length_Suc_conv)
  have "leading_zeros (9 XOR 11) = 6" by code_simp
  then have p: "common_prefix_length (ref[0 := 9]) (needle[0 := 11]) = 6"
    using prefix_first [OF assms(1,4), of 9 11] by simp
  have neq: "d[0 := 8] \<noteq> needle[0 := 11]" "e[0 := 16] \<noteq> needle[0 := 11]"
    using assms(3,4) ids by (simp_all add: first_neq)
  let ?ns = "first_bytes [1, 2, 4, 8, 16, 32, 64, 128] (map contact ids)"
  let ?r = "\<lambda>lo hi. \<lparr>range_start = lo, range_end = hi\<rparr>"
  let ?rt = "\<lparr>buckets = [bucket_new (?r 0 2), bucket_new (?r 2 5), bucket_new (?r 5 100),
    bucket_new (?r 100 160)], reference_id = ref[0 := 9]\<rparr>"
  have start: "holds (buckets ?rt) [?r 0 2, ?r 2 5, ?r 5 100, ?r 100 160] [[], [], [], []]"
    by (simp add: holds_def bucket_new_def)
  have fits: "fits (zip [0, 0, 1, 2, 2, 3, 3, 3] (plain_entries ?ns)) [[], [], [], []]"
    by (simp add: ids first_bytes_def plain_entries_def)
  obtain rt where rt: "push_all (zip [0, 0, 1, 2, 2, 3, 3, 3] (plain_entries ?ns)) ?rt = Ok rt"
    "reference_id rt = ref[0 := 9]"
    "holds (buckets rt) [?r 0 2, ?r 2 5, ?r 5 100, ?r 100 160]
      (pushed (zip [0, 0, 1, 2, 2, 3, 3, 3] (plain_entries ?ns)) [[], [], [], []])"
    using push_all_holds [OF start fits] by auto
  note views = holds_views [OF rt(3)]
  have four: "length (buckets rt) = 4" using holds_length [OF rt(3)] by (simp add: ids first_bytes_def plain_entries_def)
  have own: "contents (buckets rt ! 2) = plain_entries [with_first 8 (contact d), with_first 16 (contact e)]"
    and others: "contents (buckets rt ! 0) = plain_entries [with_first 1 (contact a), with_first 2 (contact b)]"
    "contents (buckets rt ! 1) = plain_entries [with_first 4 (contact c)]"
    "contents (buckets rt ! 3) = plain_entries [with_first 32 (contact f), with_first 64 (contact g),
      with_first 128 (contact h)]"
    using views four by (simp_all add: ids first_bytes_def plain_entries_def)
  have "map bounds (buckets rt) = [?r 0 2, ?r 2 5, ?r 5 100, ?r 100 160]"
    using rt(3) by (simp add: holds_def)
  then have start_at: "bucket_for (buckets rt) (common_prefix_length (reference_id rt) (needle[0 := 11])) =
      Ok (2, buckets rt ! 2)"
    unfolding rt(2) p by (auto simp: bucket_for_def contains_def map_eq_Cons_conv)
  have vecs: "\<forall>i < length (buckets rt). wf_vec (entries (buckets rt ! i))"
    using rt(3) by (simp add: holds_def)
  have "2 < length (buckets rt)" by (simp add: four)
  then show ?thesis
  proof (rule find_node_bucket [OF start_at _ vecs])
    fix x
    assume "x \<in> set (contents (buckets rt ! 2))" "entry_id x = needle[0 := 11]"
    then show ?thesis using neq by (auto simp: own)
  next
    fix r
    assume r: "find_node rt (needle[0 := 11]) = Ok (Closest r)" "wf_vec r"
      "view r = take BUCKET_SIZE (map node (visit_order (buckets rt) 2))"
    have "[1..<length (buckets rt)] = [1, 2, 3]" by (simp add: four upt_rec)
    then have "set (view r) = set ?ns"
      using r(3) own others by (auto simp: visit_order_def ring_def four BUCKET_SIZE_def ids first_bytes_def)
    with rt(1) r(1,2) show ?thesis
      by (simp add: test_find_spanning_def assert_closest_def statements_Ok_iff Let_def)
  qed
qed

text \<open>Updates of a table of one bucket.\<close>

lemma update_one:
  assumes "wf_table (one_bucket ref v)" "wf_id (contact_id n)" "contact_id n \<noteq> ref"
  shows "\<forall>e \<in> set (view v). entry_id e \<noteq> contact_id n \<Longrightarrow> length (view v) < BUCKET_SIZE \<Longrightarrow>
      \<exists>v'. update (one_bucket ref v) n seen clk = Ok (one_bucket ref v') \<and> wf_vec v' \<and>
        view v' = view v @ [seen_entry n seen clk]"
    and "\<forall>e \<in> set (view v). entry_id e \<noteq> contact_id n \<Longrightarrow> length (view v) = BUCKET_SIZE \<Longrightarrow>
      bad_position clk (view v) = Some i \<Longrightarrow>
      \<exists>v'. update (one_bucket ref v) n seen clk = Ok (one_bucket ref v') \<and> wf_vec v' \<and>
        view v' = (view v)[i := seen_entry n seen clk]"
    and "view v = [e] \<Longrightarrow> entry_id e = contact_id n \<Longrightarrow>
      \<exists>v'. update (one_bucket ref v) n seen clk = Ok (one_bucket ref v') \<and> wf_vec v' \<and>
        view v' = [entry_update e seen (seen_now clk)]"
proof -
  have can: "can_update (one_bucket ref v) n" using assms by (simp add: can_update_def)
  have wf: "wf_vec v" using assms(1) by (auto simp: wf_table_def wf_bucket_def)
  note eq = update_eq [OF can, of seen clk, unfolded home_def one_bucket_simps]
  show "\<exists>v'. update (one_bucket ref v) n seen clk = Ok (one_bucket ref v') \<and> wf_vec v' \<and>
        view v' = view v @ [seen_entry n seen clk]"
    if "\<forall>e \<in> set (view v). entry_id e \<noteq> contact_id n" "length (view v) < BUCKET_SIZE"
    using push_view [OF wf that(2), of "seen_entry n seen clk"] that wf
    by (auto simp: eq bucket_index_def iter_position_None_iff [THEN iffD2] is_not_full_iff)
  show "\<exists>v'. update (one_bucket ref v) n seen clk = Ok (one_bucket ref v') \<and> wf_vec v' \<and>
        view v' = (view v)[i := seen_entry n seen clk]"
    if "\<forall>e \<in> set (view v). entry_id e \<noteq> contact_id n" "length (view v) = BUCKET_SIZE"
      "bad_position clk (view v) = Some i"
    using index_mut_view [OF wf bad_position_SomeD(1) [OF that(3)], of "\<lambda>_. seen_entry n seen clk"] that wf
    by (auto simp: eq bucket_index_def iter_position_None_iff [THEN iffD2] is_not_full_iff)
  show "\<exists>v'. update (one_bucket ref v) n seen clk = Ok (one_bucket ref v') \<and> wf_vec v' \<and>
        view v' = [entry_update e seen (seen_now clk)]"
    if "view v = [e]" "entry_id e = contact_id n"
    using index_mut_view [OF wf, of 0 "\<lambda>e. entry_update e seen (seen_now clk)"] that
    by (auto simp: eq bucket_index_def)
qed

lemma test_add_and_update_passes:
  assumes "wf_id ref" "wf_id i" "i \<noteq> ref"
  shows "test_add_and_update ref i c1 c2 c3 = Ok ()"
proof -
  let ?n = "contact i"
  have wf: "wf_table (one_bucket ref v)" if "wf_vec v" "view v = es" "map node es \<in> {[], [?n]}" for v es
  proof (rule wf_one_bucket [OF assms(1) that(1), unfolded that(2)])
    show "distinct (map entry_id es)" using that(3) by auto
    show "wf_id (entry_id e) \<and> entry_id e \<noteq> ref" if "e \<in> set es" for e
      using \<open>map node es \<in> _\<close> that assms by auto
  qed
  obtain v1 where v1: "update (one_bucket ref new_vec) ?n Referral c1 = Ok (one_bucket ref v1)" "wf_vec v1"
    "view v1 = [seen_entry ?n Referral c1]"
    using update_one(1) [OF wf, of new_vec "[]" ?n Referral c1] assms by (auto simp: BUCKET_SIZE_def)
  obtain v2 where v2: "update (one_bucket ref v1) ?n Query c2 = Ok (one_bucket ref v2)" "wf_vec v2"
    "view v2 = [entry_update (seen_entry ?n Referral c1) Query (seen_now c2)]"
    using update_one(3) [OF wf, of v1 _ ?n _ Query c2] v1 assms by auto
  obtain v3 where v3: "update (one_bucket ref v2) ?n Response c3 = Ok (one_bucket ref v3)" "wf_vec v3"
    "view v3 = [entry_update (entry_update (seen_entry ?n Referral c1) Query (seen_now c2)) Response (seen_now c3)]"
    using update_one(3) [OF wf, of v2 _ ?n _ Response c3] v2 assms by auto
  have len: "vec_length v = length (view v)" if "wf_vec v" for v :: "routing_entry fixed_vec"
    using that by simp
  show ?thesis
    using v1 v2 v3 len [OF v1(2)] len [OF v2(2)] len [OF v3(2)] len [OF wf_new_vec]
    by (simp add: test_add_and_update_def assert_entries_def assert_entry_def index_vec_view Let_def
        seen_entry_def entry_new_def entry_update_def statements_Ok_iff and_then_eq_Ok_iff)
qed

text \<open>Some tests need that no two of the drawn ids are equal.\<close>

definition fresh_ids :: "node_id list \<Rightarrow> bool" where
  "fresh_ids ids \<longleftrightarrow> distinct ids \<and> (\<forall>i \<in> set ids. wf_id i)"

lemma entry_id_entry_new [simp]: "node (entry_new n) = n"
  by (simp add: entry_new_def)

lemma test_add_to_non_full_passes:
  assumes "length ids = 7" "fresh_ids (ref # i # ids)"
  shows "test_add_to_non_full ref ids i clk = Ok ()"
proof -
  let ?es = "map (entry_new \<circ> contact) ids"
  obtain v where v: "on_entries 0 (\<lambda>v. append_vec v ?es) (one_bucket ref new_vec) = Ok (one_bucket ref v)"
    "wf_vec v" "view v = ?es"
    using append_to_new [of ?es ref] assms(1) by auto
  have "map entry_id ?es = ids" by (simp add: comp_def)
  moreover have "\<forall>e \<in> set ?es. wf_id (entry_id e) \<and> entry_id e \<noteq> ref \<and> entry_id e \<noteq> i"
    using assms(2) by (auto simp: fresh_ids_def)
  ultimately have wf: "wf_table (one_bucket ref v)"
    using assms(2) v by (intro wf_one_bucket) (auto simp: fresh_ids_def)
  obtain v' where v': "update (one_bucket ref v) (contact i) Referral clk = Ok (one_bucket ref v')" "wf_vec v'"
    "view v' = view v @ [seen_entry (contact i) Referral clk]"
    using update_one(1) [OF wf, of "contact i" Referral clk] assms v
    by (auto simp: fresh_ids_def BUCKET_SIZE_def)
  have "vec_length v = 7" "vec_length v' = 8"
    using v(3) v'(3) length_view [OF v(2)] length_view [OF v'(2)] assms(1) by simp_all
  with v(1) v'(1) show ?thesis
    by (simp add: test_add_to_non_full_def assert_entries_def statements_Ok_iff and_then_eq_Ok_iff)
qed

text \<open>The clock during a test: it takes less than a minute.\<close>

definition within_minute :: "instant \<Rightarrow> instant \<Rightarrow> bool" where
  "within_minute t0 t \<longleftrightarrow> t0 \<le> t \<and> t < t0 + minutes 1"

definition clock_within_minute :: "instant \<Rightarrow> clock \<Rightarrow> bool" where
  "clock_within_minute t0 clk \<longleftrightarrow> within_minute t0 (seen_now clk) \<and>
     (\<forall>i. within_minute t0 (query_now clk i) \<and> within_minute t0 (response_now clk i))"

lemma rating_recent:
  assumes "last_response e = Some r" "t - r < minutes 16"
  shows "rating e q t = Good"
  using assms by (cases "last_query e") (simp_all add: rating_def elapsed_minutes_le_15 minutes_def)

lemma rating_old:
  assumes "last_response e = Some r" "minutes 16 \<le> t - r"
    and "\<And>s. last_query e = Some s \<Longrightarrow> minutes 16 \<le> q - s"
  shows "rating e q t = Bad"
  using assms by (cases "last_query e") (auto simp: rating_def elapsed_minutes_le_15 minutes_def)

lemma test_entry_rating_passes:
  assumes "mono now" "\<forall>j. within_minute t0 (now j)"
  shows "test_entry_rating i now = Ok ()"
proof -
  have w: "t0 \<le> now j" "now j < t0 + minutes 1" for j using assms(2) by (auto simp: within_minute_def)
  have "now 7 \<le> now 8" using assms(1) by (simp add: mono_def)
  with w [of 0] w [of 1] w [of 2] w [of 3] w [of 4] w [of 5] w [of 6] w [of 7] w [of 8] w [of 9]
  show ?thesis
    by (simp add: test_entry_rating_def statements_Ok_iff Let_def minutes_def)
      (simp add: rating_def entry_new_def elapsed_minutes_le_15 assert_eq_def)
qed

text \<open>Filling one bucket by pushing.\<close>

lemma fill_first:
  "fits (zip (replicate (length es) 0) es) (xs # vs) \<longleftrightarrow> es = [] \<or> length xs + length es \<le> 8"
  "pushed (zip (replicate (length es) 0) es) (xs # vs) = (xs @ es) # vs"
  by (induction es arbitrary: xs) auto

lemma holds_one:
  assumes "holds (buckets rt) [\<lparr>range_start = 0, range_end = 160\<rparr>] [es]"
  obtains v where "rt = one_bucket (reference_id rt) v" "wf_vec v" "view v = es"
proof -
  obtain b where "buckets rt = [b]" "bounds b = \<lparr>range_start = 0, range_end = 160\<rparr>" "contents b = es"
    "wf_vec (entries b)"
    using assms by (auto simp: holds_def)
  then show thesis by (intro that [of "entries b"]) (simp_all add: one_bucket_def)
qed

lemma length_seen_entries [simp]: "length (seen_entries ns now) = length ns"
  by (simp add: seen_entries_def)

lemma seen_entries_nth:
  "j < length ns \<Longrightarrow> seen_entries ns now ! j =
    \<lparr>node = ns ! j, last_response = Some (now (2 * j + 1)), last_query = Some (now (2 * j))\<rparr>"
  by (simp add: seen_entries_def nth_enumerate_eq)

lemma map_node_seen_entries [simp]: "map node (seen_entries ns now) = ns"
  by (rule nth_equalityI) (simp_all add: seen_entries_nth)

lemma within_minute_less: "within_minute t0 a \<Longrightarrow> within_minute t0 b \<Longrightarrow> a - b < minutes 1"
  by (simp add: within_minute_def)

lemma replaced_out: "distinct xs \<Longrightarrow> x \<notin> set xs \<Longrightarrow> k < length xs \<Longrightarrow> xs ! k \<notin> set (xs[k := x])"
  using nth_mem [of k xs] by (metis Diff_iff insert_iff set_update_distinct)

lemma test_replace_bad_node_passes:
  assumes "length ids = 8" "fresh_ids (ref # i # ids)"
    and "\<forall>j. within_minute t0 (now j)" "clock_within_minute t0 rate_clk" "clock_within_minute t0 clk"
  shows "test_replace_bad_node ref ids i now rate_clk clk = Ok ()"
proof -
  let ?ns = "map contact ids" and ?old = "\<lambda>e. e\<lparr>last_query := Some (now 16 - minutes 23),
    last_response := Some (now 17 - minutes 23)\<rparr>"
  let ?es = "seen_entries ?ns now"
  let ?es' = "?es[3 := ?old (?es ! 3)]"
  have start: "holds (buckets (one_bucket ref new_vec)) [\<lparr>range_start = 0, range_end = 160\<rparr>] [[]]"
    by (simp add: holds_def)
  obtain rt where rt: "push_all (zip (replicate 8 0) ?es) (one_bucket ref new_vec) = Ok rt"
    "reference_id rt = ref" "holds (buckets rt) [\<lparr>range_start = 0, range_end = 160\<rparr>] [?es]"
    using push_all_holds [OF start, of "zip (replicate 8 0) ?es"] fill_first [of ?es "[]" "[]"] assms(1)
    by auto
  obtain v where v: "rt = one_bucket ref v" "wf_vec v" "view v = ?es"
    using holds_one [OF rt(3)] rt(2) by metis
  obtain v' where v': "index_mut v 3 ?old = Ok v'" "wf_vec v'" "view v' = ?es'"
    using index_mut_view [OF v(2), of 3 ?old] v(3) assms(1) by auto
  have nodes: "map node ?es' = ?ns"
  proof -
    have "node (?old (?es ! 3)) = ?ns ! 3" using assms(1) by (simp add: seen_entries_nth)
    then show ?thesis by (simp only: map_update map_node_seen_entries list_update_id)
  qed
  have ids: "map entry_id ?es' = ids"
    using arg_cong [OF nodes, of "map contact_id"] by (simp add: comp_def)
  have mem: "wf_id (entry_id e) \<and> entry_id e \<noteq> ref \<and> entry_id e \<noteq> i" if "e \<in> set ?es'" for e
  proof -
    have "entry_id e \<in> set (map entry_id ?es')" unfolding set_map using that by (rule imageI)
    then have "entry_id e \<in> set ids" unfolding ids .
    then show ?thesis using assms(2) by (auto simp: fresh_ids_def)
  qed
  have wf: "wf_table (one_bucket ref v')"
  proof (rule wf_one_bucket [OF _ v'(2), unfolded v'(3)])
    show "wf_id ref" using assms(2) by (simp add: fresh_ids_def)
    have "distinct ids" using assms(2) by (simp add: fresh_ids_def)
    then show "distinct (map entry_id ?es')" by (simp only: ids)
    show "wf_id (entry_id e) \<and> entry_id e \<noteq> ref" if "e \<in> set ?es'" for e
      using mem [OF that] by blast
  qed
  have bad: "bad_position c ?es' = Some 3" if "clock_within_minute t0 c" for c
    unfolding bad_position_def
  proof (rule iter_position_SomeI)
    have c: "within_minute t0 (query_now c j)" "within_minute t0 (response_now c j)" for j
      using that by (auto simp: clock_within_minute_def)
    show "case enumerate 0 ?es' ! 3 of (i, e) \<Rightarrow> rating e (query_now c i) (response_now c i) = Bad"
      using assms(1) assms(3) [rule_format, of 16] assms(3) [rule_format, of 17] c [of 3]
      by (auto simp: nth_enumerate_eq within_minute_def minutes_def intro!: rating_old)
    show "\<not> (case enumerate 0 ?es' ! j of (i, e) \<Rightarrow> rating e (query_now c i) (response_now c i) = Bad)"
      if "j < 3" for j
    proof -
      have "rating (?es ! j) (query_now c j) (response_now c j) = Good"
        using that assms(1) within_minute_less [OF c(2) [of j] assms(3) [rule_format, of "2 * j + 1"]]
        by (intro rating_recent [of _ "now (2 * j + 1)"]) (simp_all add: seen_entries_nth minutes_def)
      then show ?thesis using that assms(1) by (simp add: nth_enumerate_eq)
    qed
  qed (use assms(1) in simp)
  obtain v'' where v'': "update (one_bucket ref v') (contact i) Referral clk = Ok (one_bucket ref v'')"
    "wf_vec v''" "view v'' = ?es'[3 := seen_entry (contact i) Referral clk]"
    using update_one(2) [OF wf, of "contact i" clk 3 Referral] bad [OF assms(5)] mem v' assms(1,2)
    by (auto simp: fresh_ids_def BUCKET_SIZE_def)
  have nodes'': "node ` set (view v'') = set (?ns[3 := contact i])"
    using nodes v''(3) by (simp add: map_update flip: set_map)
  have ns: "distinct ?ns" "contact i \<notin> set ?ns"
    using assms(2) by (auto simp: fresh_ids_def distinct_map inj_on_def contact_def)
  have "?ns ! 3 \<notin> set (?ns[3 := contact i])"
    using replaced_out [OF ns, of 3] assms(1) by simp
  moreover have "contact i \<in> set (?ns[3 := contact i])"
    using assms(1) by (simp add: set_update_memI)
  moreover have "vec_length v' = 8" "vec_length v'' = 8"
    using length_view [OF v'(2)] length_view [OF v''(2)] v'(3) v''(3) assms(1) by simp_all
  moreover have "index_vec v 3 = Ok (?es ! 3)" "node (?es ! 3) = ?ns ! 3"
    using index_vec_view [OF v(2), of 3] v(3) assms(1) by (simp_all add: seen_entries_nth)
  ultimately show ?thesis
    using rt(1) v v' v'' bad [OF assms(4)] nodes''
    by (simp add: test_replace_bad_node_def on_entries_def assert_entries_def statements_Ok_iff
        and_then_eq_Ok_iff assert_in_iff)
qed

text \<open>An update that splits the only bucket of a table.\<close>

lemma update_splits:
  assumes wf: "wf_table (one_bucket ref v)" "wf_id (contact_id n)" "contact_id n \<noteq> ref"
    and unknown: "\<forall>e \<in> set (view v). entry_id e \<noteq> contact_id n"
    and full: "length (view v) = BUCKET_SIZE" and good: "\<forall>e \<in> set (view v). \<forall>j. \<not> bad_at clk j e"
    and far: "common_prefix_length ref (contact_id n) = 0"
    and near: "e' \<in> set (view v)" "entry_prefix ref e' \<noteq> 0"
  obtains rt where "update (one_bucket ref v) n seen clk = Ok rt" "wf_table rt" "length (buckets rt) = 2"
    "node ` set (contents (buckets rt ! 0)) = insert n (node ` {e \<in> set (view v). entry_prefix ref e = 0})"
    "node ` set (contents (buckets rt ! 1)) = node ` {e \<in> set (view v). entry_prefix ref e \<noteq> 0}"
proof -
  have can: "can_update (one_bucket ref v) n" using wf by (simp add: can_update_def)
  let ?T = "abs_table (one_bucket ref v)" and ?new = "seen_entry n seen clk"
  have T: "?T = [mset (view v)]" by (simp add: abs_table_def)
  have home: "home ref n (length ?T) = 0" by (simp add: home_def bucket_index_def)
  obtain rt where rt: "update (one_bucket ref v) n seen clk = Ok rt" "wf_table rt"
    "table_step ref n seen clk ?T (abs_table rt)"
    using update_step [OF can, of seen clk] by (auto simp: makes_step_def)
  let ?both = "add_mset ?new (mset (view v))"
  have new: "entry_prefix ref ?new = 0" using far by simp
  have "abs_table rt = [filter_mset (\<lambda>e. entry_prefix ref e = 0) ?both,
      filter_mset (\<lambda>e. entry_prefix ref e \<noteq> 0) ?both]"
    using rt(3)
  proof cases
    case (split k both)
    then show ?thesis unfolding home T by simp
  next
    case (discard k both)
    then show ?thesis using near new home T by auto
  qed (use unknown full good home T in auto)
  then have two: "map (\<lambda>b. mset (contents b)) (buckets rt) =
      [filter_mset (\<lambda>e. entry_prefix ref e = 0) ?both, filter_mset (\<lambda>e. entry_prefix ref e \<noteq> 0) ?both]"
    by (simp add: abs_table_def)
  then have len: "length (buckets rt) = 2" by (metis length_map length_Cons list.size(3) One_nat_def Suc_1)
  have parts: "set (contents (buckets rt ! 0)) = insert ?new {e \<in> set (view v). entry_prefix ref e = 0}"
    "set (contents (buckets rt ! 1)) = {e \<in> set (view v). entry_prefix ref e \<noteq> 0}"
    using arg_cong [OF two, of "\<lambda>xs. set_mset (xs ! 0)"] arg_cong [OF two, of "\<lambda>xs. set_mset (xs ! 1)"] len new
    by auto
  show thesis by (rule that [OF rt(1,2) len]) (simp only: parts, simp, simp only: parts)
qed

text \<open>
  The two tests that split: a table for an id that starts with 255 and holds eight contacts with
  given first bytes, and a new contact whose id starts with 0.
\<close>

lemma split_table:
  fixes bs ids ref i
  defines "ns \<equiv> first_bytes bs (map contact ids)" and "n \<equiv> with_first 0 (contact i)"
  defines "low \<equiv> \<lambda>m. leading_zeros (255 XOR contact_id m ! 0) = 0"
  assumes ids: "length ids = 8" "length bs = 8" "distinct bs" "255 \<notin> set bs"
    "\<forall>j \<in> set (ref # i # ids). wf_id j"
    and new: "contact_id n \<notin> set (map contact_id ns)"
    and high: "leading_zeros (255 XOR hd bs) \<noteq> 0"
  obtains v rt where
    "on_entries 0 (\<lambda>v. append_vec v (plain_entries ns)) (table_new (ref[0 := 255])) = Ok (one_bucket (ref[0 := 255]) v)"
    "update (one_bucket (ref[0 := 255]) v) n Referral clk = Ok rt"
    "wf_table rt" "length (buckets rt) = 2"
    "node ` set (contents (buckets rt ! 0)) = insert n {m \<in> set ns. low m}"
    "node ` set (contents (buckets rt ! 1)) = {m \<in> set ns. \<not> low m}"
proof -
  let ?ref = "ref[0 := 255]"
  have len: "length ns = 8" using ids(1,2) by (simp add: ns_def first_bytes_def)
  have wf_ids: "wf_id ref" "wf_id i" "\<forall>j \<in> set ids. wf_id j" using ids(5) by simp_all
  obtain v where v: "on_entries 0 (\<lambda>v. append_vec v (plain_entries ns)) (one_bucket ?ref new_vec) =
      Ok (one_bucket ?ref v)" "wf_vec v" "view v = plain_entries ns"
    using append_to_new [of "plain_entries ns" ?ref] len by auto
  have mem: "wf_id (contact_id m)" "contact_id m ! 0 \<in> set bs" if "m \<in> set ns" for m
    using first_bytes_mem [OF that [unfolded ns_def] wf_ids(3)] by simp_all
  have own: "contact_id m \<noteq> ?ref" if "m \<in> set ns" for m
    using mem [OF that] nth_first [OF wf_ids(1), of 255] ids(4) by metis
  have n: "wf_id (contact_id n)" "contact_id n \<noteq> ?ref"
    using wf_id_first [OF wf_ids(2), of 0] first_neq [OF wf_ids(2,1), of 0 255] by (simp_all add: n_def)
  have prefix: "common_prefix_length ?ref x = leading_zeros (255 XOR x ! 0)" if "wf_id x" "x ! 0 \<noteq> 255" for x
    using prefix_first [OF wf_ids(1) that(1), of 255 "x ! 0"] that(2) by simp
  have low: "low m \<longleftrightarrow> common_prefix_length ?ref (contact_id m) = 0" if "m \<in> set ns" for m
  proof -
    have "contact_id m ! 0 \<noteq> 255" using mem(2) [OF that] ids(4) by metis
    with prefix [OF mem(1) [OF that]] show ?thesis by (simp add: low_def)
  qed
  have "distinct (map contact_id ns)"
    unfolding ns_def first_bytes_ids using ids wf_ids by (intro distinct_first) simp_all
  then have wf: "wf_table (one_bucket ?ref v)"
    using wf_id_first [OF wf_ids(1)] v mem own by (intro wf_one_bucket) auto
  have hd: "bs = hd bs # tl bs" "ids = hd ids # tl ids" using ids(1,2) by (cases bs; cases ids; simp)+
  have near: "with_first (hd bs) (contact (hd ids)) \<in> set ns"
    unfolding ns_def first_bytes_def by (subst hd(1), subst hd(2)) simp
  moreover have "\<not> low (with_first (hd bs) (contact (hd ids)))"
    using high hd(2) wf_ids(3) nth_first [of "hd ids" "hd bs"] by (metis contact_id_first list.set_intros(1) low_def)
  ultimately obtain m where m: "m \<in> set ns" "common_prefix_length ?ref (contact_id m) \<noteq> 0"
    using low by blast
  let ?e = "\<lparr>node = m, last_response = None, last_query = None\<rparr>"
  have far: "common_prefix_length ?ref (contact_id n) = 0"
  proof -
    have "leading_zeros (255 XOR 0) = 0" by code_simp
    then show ?thesis using prefix_first [OF wf_ids(1,2), of 255 0] by (simp add: n_def)
  qed
  have good: "\<forall>e \<in> set (view v). \<forall>j. \<not> bad_at clk j e"
    by (auto simp: v(3) bad_at_def rating_def)
  show thesis
  proof (rule update_splits [OF wf n _ _ good far, of ?e Referral])
    show "\<forall>e \<in> set (view v). entry_id e \<noteq> contact_id n"
      using new v(3) by (force dest: sym)
    show "length (view v) = BUCKET_SIZE" using v(3) len by (simp add: BUCKET_SIZE_def)
    show "?e \<in> set (view v)" "entry_prefix ?ref ?e \<noteq> 0" using m v(3) by (simp_all add: entry_prefix_def)
    fix rt
    assume rt: "update (one_bucket ?ref v) n Referral clk = Ok rt" "wf_table rt" "length (buckets rt) = 2"
      "node ` set (contents (buckets rt ! 0)) = insert n (node ` {e \<in> set (view v). entry_prefix ?ref e = 0})"
      "node ` set (contents (buckets rt ! 1)) = node ` {e \<in> set (view v). entry_prefix ?ref e \<noteq> 0}"
    have part: "node ` {e \<in> set (view v). P (entry_prefix ?ref e = 0)} = {m \<in> set ns. P (low m)}" for P
      using low by (force simp: v(3) entry_prefix_def image_iff)
    show thesis
      using that [OF _ rt(1-3)] v(1) rt(4,5) part [of "\<lambda>b. b"] part [of Not] by simp
  qed
qed

lemma table_bounds_two: "table_bounds 2 0 = \<lparr>range_start = 0, range_end = 1\<rparr>"
  "table_bounds 2 1 = \<lparr>range_start = 1, range_end = 160\<rparr>"
  by (simp_all add: table_bounds_def)

lemma assert_bounds_two:
  assumes "wf_table rt" "length (buckets rt) = 2"
  shows "assert_bounds rt 0 0 1 = Ok ()" "assert_bounds rt 1 1 160 = Ok ()"
    and "wf_vec (entries (buckets rt ! 0))" "wf_vec (entries (buckets rt ! 1))"
  using wf_tableD(5,6) [OF assms(1), of 0] wf_tableD(5,6) [OF assms(1), of 1] assms(2) table_bounds_two
  by (simp_all add: assert_bounds_def wf_bucket_def)

lemma test_split_bucket_passes:
  assumes "length ids = 8" "\<forall>j \<in> set (ref # i # ids). wf_id j" "i[0 := 0] \<noteq> (ids ! 4)[0 := 0]"
  shows "test_split_bucket ref ids i clk = Ok ()"
proof -
  let ?bs = "[0x80, 0xC0, 0xE0, 0xF0, 0, 0x40, 0x60, 0x70] :: u8 list"
  let ?ns = "first_bytes ?bs (map contact ids)" and ?n = "with_first 0 (contact i)"
  obtain a b c d e f g h where ids: "ids = [a, b, c, d, e, f, g, h]"
    using assms(1) by (auto simp: numeral_eq_Suc length_Suc_conv)
  have wf: "wf_id i" "\<forall>j \<in> set ids. wf_id j" using assms(2) by simp_all
  have new: "contact_id ?n \<notin> set (map contact_id ?ns)"
    using assms(3) wf unfolding first_bytes_ids ids by (simp add: first_neq)
  have high: "\<forall>x \<in> set (take 4 ?bs). leading_zeros (255 XOR x) \<noteq> 0"
    "\<forall>x \<in> set (drop 4 ?bs). leading_zeros (255 XOR x) = 0"
    by code_simp+
  have bs: "length ?bs = 8" "distinct ?bs" "255 \<notin> set ?bs" "leading_zeros (255 XOR hd ?bs) \<noteq> 0"
    using high(1) by simp_all
  obtain v rt where rt: "on_entries 0 (\<lambda>v. append_vec v (plain_entries ?ns)) (table_new (ref[0 := 255])) =
      Ok (one_bucket (ref[0 := 255]) v)" "update (one_bucket (ref[0 := 255]) v) ?n Referral clk = Ok rt"
    "wf_table rt" "length (buckets rt) = 2"
    "node ` set (contents (buckets rt ! 0)) = insert ?n {m \<in> set ?ns. leading_zeros (255 XOR contact_id m ! 0) = 0}"
    "node ` set (contents (buckets rt ! 1)) = {m \<in> set ?ns. leading_zeros (255 XOR contact_id m ! 0) \<noteq> 0}"
    by (rule split_table [OF assms(1) bs(1-3) assms(2) new bs(4)])
  note two = assert_bounds_two [OF rt(3,4)]
  have "\<forall>m \<in> set (drop 4 ?ns @ [?n]). assert_in rt 0 m = Ok ()"
    using rt(4,5) two(3) high(2) wf by (simp add: assert_in_iff ids first_bytes_def nth_first)
  moreover have "\<forall>m \<in> set (take 4 ?ns). assert_in rt 1 m = Ok ()"
    using rt(4,6) two(4) high(1) wf by (simp add: assert_in_iff ids first_bytes_def nth_first)
  ultimately show ?thesis
    using rt(1,2,4) two(1,2) by (simp add: test_split_bucket_def Let_def statements_Ok_iff assert_eq_def) auto
qed

lemma test_split_alone_passes:
  assumes "length ids = 8" "\<forall>j \<in> set (ref # i # ids). wf_id j"
  shows "test_split_alone ref ids i clk = Ok ()"
proof -
  let ?bs = "[0x80, 0xC0, 0xE0, 0xF0, 0xF8, 0xFC, 0xFE, 0x81] :: u8 list"
  let ?ns = "first_bytes ?bs (map contact ids)" and ?n = "with_first 0 (contact i)"
  obtain a b c d e f g h where ids: "ids = [a, b, c, d, e, f, g, h]"
    using assms(1) by (auto simp: numeral_eq_Suc length_Suc_conv)
  have wf: "wf_id i" "\<forall>j \<in> set ids. wf_id j" using assms(2) by simp_all
  have new: "contact_id ?n \<notin> set (map contact_id ?ns)"
    using wf unfolding first_bytes_ids ids by (simp add: first_neq)
  have high: "\<forall>x \<in> set ?bs. leading_zeros (255 XOR x) \<noteq> 0"
    by code_simp
  have bs: "length ?bs = 8" "distinct ?bs" "255 \<notin> set ?bs" "leading_zeros (255 XOR hd ?bs) \<noteq> 0"
    using high by simp_all
  obtain v rt where rt: "on_entries 0 (\<lambda>v. append_vec v (plain_entries ?ns)) (table_new (ref[0 := 255])) =
      Ok (one_bucket (ref[0 := 255]) v)" "update (one_bucket (ref[0 := 255]) v) ?n Referral clk = Ok rt"
    "wf_table rt" "length (buckets rt) = 2"
    "node ` set (contents (buckets rt ! 0)) = insert ?n {m \<in> set ?ns. leading_zeros (255 XOR contact_id m ! 0) = 0}"
    "node ` set (contents (buckets rt ! 1)) = {m \<in> set ?ns. leading_zeros (255 XOR contact_id m ! 0) \<noteq> 0}"
    by (rule split_table [OF assms(1) bs(1-3) assms(2) new bs(4)])
  note two = assert_bounds_two [OF rt(3,4)]
  have "leading_zeros (255 XOR contact_id m ! 0) \<noteq> 0" if "m \<in> set ?ns" for m
    using first_bytes_mem(2) [OF that wf(2)] high by blast
  then have "\<forall>m \<in> set ?ns. assert_in rt 1 m = Ok ()"
    using rt(4,6) two(4) by (simp add: assert_in_iff)
  moreover have "assert_in rt 0 ?n = Ok ()"
    using rt(4,5) two(3) by (simp add: assert_in_iff)
  ultimately show ?thesis
    using rt(1,2,4) two(1,2)
    by (simp add: test_split_alone_def Let_def statements_Ok_iff assert_eq_def)
qed

lemma test_discard_node_passes:
  assumes "length ids = 8" "\<forall>j \<in> set (i # ids). wf_id j" "i[0 := 255] \<notin> set (map (\<lambda>j. j[0 := 255]) ids)"
    and "distinct (map (\<lambda>j. j[0 := 255]) ids)"
    and "\<forall>j. within_minute t0 (now j)" "clock_within_minute t0 clk"
  shows "test_discard_node ids i now clk = Ok ()"
proof -
  let ?ref = "replicate 20 0 :: node_id" and ?r = "\<lambda>lo hi. \<lparr>range_start = lo, range_end = hi\<rparr>"
  let ?n = "with_first 255 (contact i)"
  define ns where "ns = map (with_first 255 \<circ> contact) ids"
  let ?es = "seen_entries ns now"
  have ns: "length ns = 8" using assms(1) by (simp add: ns_def)
  let ?rt = "\<lparr>buckets = [bucket_new (?r 0 1), bucket_new (?r 1 160)], reference_id = ?ref\<rparr>"
  have start: "holds (buckets ?rt) [?r 0 1, ?r 1 160] [[], []]"
    by (simp add: holds_def bucket_new_def)
  obtain rt where rt: "push_all (zip (replicate 8 0) ?es) ?rt = Ok rt" "reference_id rt = ?ref"
    "holds (buckets rt) [?r 0 1, ?r 1 160] [?es, []]"
    using push_all_holds [OF start, of "zip (replicate 8 0) ?es"] fill_first [of ?es "[]" "[[]]"] ns
    by auto
  have zero: "wf_id ?ref" "?ref = ?ref[0 := 0]" using list_update_id [of ?ref 0] by (simp_all add: wf_id_def)
  have "leading_zeros (0 XOR 255) = 0" by code_simp
  then have far: "common_prefix_length ?ref (j[0 := 255]) = 0" if "wf_id j" for j
    using prefix_first [OF zero(1) that, of 0 255] zero(2) by simp
  have ids: "map entry_id ?es = map (\<lambda>j. j[0 := 255]) ids"
  proof -
    have "map entry_id ?es = map contact_id (map node ?es)" by (simp only: map_map comp_def)
    also have "\<dots> = map (\<lambda>j. j[0 := 255]) ids" unfolding map_node_seen_entries by (simp add: ns_def)
    finally show ?thesis .
  qed
  have es: "entry_id e \<in> set (map (\<lambda>j. j[0 := 255]) ids)" if "e \<in> set ?es" for e
    unfolding ids [symmetric] set_map using that by (rule imageI)
  have prefixes: "wf_id (entry_id e) \<and> entry_prefix ?ref e = 0" if "e \<in> set ?es" for e
    using es [OF that] far assms(2) by (auto simp: entry_prefix_def wf_id_first)
  have bs: "length (buckets rt) = 2" "bounds (buckets rt ! 0) = ?r 0 1" "bounds (buckets rt ! 1) = ?r 1 160"
    "contents (buckets rt ! 0) = ?es" "contents (buckets rt ! 1) = []"
    "wf_vec (entries (buckets rt ! 0))" "wf_vec (entries (buckets rt ! 1))"
    using rt(3) by (auto simp: holds_def map_eq_Cons_conv)
  have "wf_bucket ?ref (buckets rt ! 0)"
    using prefixes bs assms(4) by (intro wf_bucketI) (auto simp: ids contains_def)
  moreover have "wf_bucket ?ref (buckets rt ! 1)"
    using bs(7) by (intro wf_bucketI) (simp_all only: bs(5) list.map distinct.simps list.set empty_iff)
  ultimately have wf: "wf_table rt"
    unfolding wf_table_def rt(2) using bs zero(1) by (auto simp: less_Suc_eq numeral_2_eq_2 table_bounds_def)
  have can: "can_update rt ?n"
    using wf assms(2) first_neq [of i ?ref 255 0] zero rt(2) by (auto simp: can_update_def wf_id_first)
  have home: "home ?ref ?n k = 0" for k using far [of i] assms(2) by (simp add: home_def bucket_index_def)
  have T: "abs_table rt = [mset ?es, {#}]"
    using bs by (intro nth_equalityI) (auto simp: abs_table_nth less_Suc_eq numeral_2_eq_2)
  have unknown: "entry_id e \<noteq> contact_id ?n" if "e \<in> set ?es" for e
    using es [OF that] assms(3) by auto
  have good: "\<not> bad_at clk j e" if e: "e \<in> set ?es" for j e
  proof -
    obtain k where "k < length ns" "e = ?es ! k" using e by (auto simp: in_set_conv_nth)
    then have "last_response e = Some (now (2 * k + 1))" by (simp only: seen_entries_nth) simp
    moreover have "response_now clk j - now (2 * k + 1) < minutes 16"
      using assms(5,6) by (auto simp: clock_within_minute_def minutes_def
          intro!: order_less_trans [OF within_minute_less [of t0]])
    ultimately show ?thesis using rating_recent by (simp add: bad_at_def)
  qed
  obtain rt' where rt': "update rt ?n Referral clk = Ok rt'" "wf_table rt'"
    "table_step ?ref ?n Referral clk (abs_table rt) (abs_table rt')"
    using update_step [OF can, of Referral clk] rt(2) by (auto simp: makes_step_def)
  from rt'(3) have "abs_table rt' = abs_table rt"
    by cases (use home unknown good ns in \<open>auto simp: T BUCKET_SIZE_def\<close>)
  then have T': "abs_table rt' = [mset ?es, {#}]" by (simp only: T)
  have two: "length (buckets rt') = 2" using length_abs_table [of rt'] by (simp add: T')
  then have two: "length (buckets rt') = 2" "mset (contents (buckets rt' ! 0)) = mset ?es"
    "mset (contents (buckets rt' ! 1)) = {#}"
    using abs_table_nth [of 0 rt'] abs_table_nth [of 1 rt'] by (simp_all add: T')
  note vecs = assert_bounds_two(3,4) [OF rt'(2) two(1)]
  have len: "vec_length (entries (buckets rt ! 0)) = 8" "vec_length (entries (buckets rt' ! 0)) = 8"
    using length_view [OF bs(6)] length_view [OF vecs(1)] bs(4) mset_eq_length [OF two(2)] ns by simp_all
  have "?n \<notin> node ` set (contents (buckets rt' ! 0))"
    using unknown mset_eq_setD [OF two(2)] by force
  moreover have "?n \<notin> node ` set (contents (buckets rt' ! 1))"
    using two(3) by (metis empty_iff image_empty set_mset_empty set_mset_mset)
  ultimately have "assert_not_in rt' 0 ?n = Ok ()" "assert_not_in rt' 1 ?n = Ok ()"
    using vecs two by (simp_all add: assert_in_iff)
  with rt(1) rt'(1) bs(1) two(1) len show ?thesis
    by (simp add: test_discard_node_def Let_def statements_Ok_iff assert_eq_def assert_entries_def ns_def)
qed

end
