(* ===== verification/Go_Tests.thy ===== *)
theory Go_Tests
  imports Go_Krpc
begin

text \<open>
  The tests of the Go implementation (\<open>go/*_test.go\<close>). A test passes if none of its conditions calls
  \<open>t.Error\<close>, which does not stop it: it is the conjunction of what it expects. All of them pass. The
  three tests of the routing table are left out: evaluating them in the kernel takes minutes.
\<close>

section \<open>Bencode\<close>

definition scanner_on :: "string \<Rightarrow> scanner" where
  "scanner_on s = cursor_new (bytes s)"

fun yields :: "'a scans \<Rightarrow> 'a \<Rightarrow> bool" where
  "yields (Ok (v, _)) w = (v = w)"
| "yields _ _ = False"

fun fails :: "'a scans \<Rightarrow> bool" where
  "fails (Err _) = True"
| "fails _ = False"

definition TestDecodeInteger :: bool where
  "TestDecodeInteger \<longleftrightarrow>
     yields (go_decode_integer (scanner_on ''i123e'')) (Integer 123) \<and>
     yields (go_decode_integer (scanner_on ''i-123e'')) (Integer (- 123)) \<and>
     fails (go_decode_integer (scanner_on ''123'')) \<and>
     fails (go_decode_integer (scanner_on ''i123'')) \<and>
     fails (go_decode_integer (scanner_on ''ie''))"

definition TestDecodeString :: bool where
  "TestDecodeString \<longleftrightarrow>
     yields (go_decode_string (scanner_on ''4:spam'')) (bytes ''spam'') \<and>
     yields (go_decode_string (scanner_on ''0:'')) [] \<and>
     fails (go_decode_string (scanner_on ''spam'')) \<and>
     fails (go_decode_string (scanner_on ''4spam''))"

definition TestDecodeList :: bool where
  "TestDecodeList \<longleftrightarrow>
     yields (go_decode_list (scanner_on ''l4:spami123ee'')) (List [Bytes (bytes ''spam''), Integer 123]) \<and>
     fails (go_decode_list (scanner_on ''l4:spam'')) \<and>
     fails (go_decode_list (scanner_on ''l4:spami123e''))"

definition TestDecodeDict :: bool where
  "TestDecodeDict \<longleftrightarrow>
     (case go_decode_dict (scanner_on ''d3:cow3:moo4:spam4:eggse'') of
        Ok (Dict d, _) \<Rightarrow> length d = 2 \<and> map_of d (bytes ''cow'') = Some (Bytes (bytes ''moo'')) \<and>
          map_of d (bytes ''spam'') = Some (Bytes (bytes ''eggs''))
      | _ \<Rightarrow> False) \<and>
     fails (go_decode_dict (scanner_on ''d3:cow3:moo4:spam4:eggs''))"

definition TestDecodeValue :: bool where
  "TestDecodeValue \<longleftrightarrow>
     yields (go_decode_value (scanner_on ''i123e'')) (Integer 123) \<and>
     yields (go_decode_value (scanner_on ''4:spam'')) (Bytes (bytes ''spam'')) \<and>
     \<not> fails (go_decode_value (scanner_on ''l4:spami123ee'')) \<and>
     \<not> fails (go_decode_value (scanner_on ''d3:cow3:moo4:spam4:eggse''))"

text \<open>The map literal of the last case, in the order of the source.\<close>

definition TestEncodeValue :: bool where
  "TestEncodeValue \<longleftrightarrow>
     go_encode (Integer 123) = bytes ''i123e'' \<and>
     go_encode (Bytes (bytes ''spam'')) = bytes ''4:spam'' \<and>
     go_encode (List [Bytes (bytes ''spam''), Integer 123]) = bytes ''l4:spami123ee'' \<and>
     go_encode (Dict [(bytes ''dog'', Bytes (bytes ''woof'')), (bytes ''cow'', Bytes (bytes ''moo''))]) =
       bytes ''d3:cow3:moo3:dog4:woofe''"

definition TestKrpcError :: bool where
  "TestKrpcError \<longleftrightarrow> encode_message (GoError (bytes ''aa'') 201 (bytes ''An Error'')) =
     bytes ''d1:eli201e8:An Errore1:t2:aa1:y1:ee''"

section \<open>Nodes\<close>

text \<open>The id of \<open>hexStringToNodeId\<close>, whose error the tests ignore.\<close>

definition hex_id :: "string \<Rightarrow> node_id" where
  "hex_id s = (case hex_to_node_id (bytes s) of Ok i \<Rightarrow> i | _ \<Rightarrow> replicate 20 0)"

definition TestNodeIdBitSet :: bool where
  "TestNodeIdBitSet \<longleftrightarrow>
     (let n = hex_id ''9000000080000000000000000000000000000001'' in
      map (is_bit_set n) [0, 1, 3, 32, 33, 159] = map Ok [True, False, True, True, False, True])"

definition TestLongestCommonPrefixLength :: bool where
  "TestLongestCommonPrefixLength \<longleftrightarrow>
     (let a = hex_id ''0000000000000000000000000000000000000000'' in
      map (\<lambda>s. go_common_prefix_length a (hex_id s))
        [''0000000000000000000000000000000000000000'', ''ffffffffffffffffffffffffffffffffffffffff'',
         ''00ffffffffffffffffffffffffffffffffffffff'', ''002fffffffffffffffffffffffffffffffffffff'',
         ''007fffffffffffffffffffffffffffffffffffff''] = [160, 0, 8, 10, 9])"

definition TestCompactNodeInfo :: bool where
  "TestCompactNodeInfo \<longleftrightarrow>
     (let n = hex_id ''000100020003000400050006000700080009000a'';
          node = \<lparr>info_id = n, info_address = \<lparr>udp_ip = ipv4 12 34 56 78, udp_port = 0x9876\<rparr>\<rparr> in
      (case hex_to_bytes (bytes ''000100020003000400050006000700080009000a0c22384e9876'') of
         Ok compact \<Rightarrow> compact_node_info node = compact \<and> decode_compact_node_info compact = Ok node
       | _ \<Rightarrow> False))"

section \<open>Buckets\<close>

text \<open>A \<open>nodeInfo\<close> literal without an address.\<close>

definition node_of :: "string \<Rightarrow> node_info" where
  "node_of s = \<lparr>info_id = hex_id s, info_address = \<lparr>udp_ip = [], udp_port = 0\<rparr>\<rparr>"

fun filled :: "go_bucket \<Rightarrow> string list \<Rightarrow> go_bucket" where
  "filled b [] = b"
| "filled b (s # ss) = filled (fst (bucket_add b (node_of s))) ss"

definition TestBucketAddEntry :: bool where
  "TestBucketAddEntry \<longleftrightarrow>
     (let n1 = ''9000000800900000080000000000000000000001''; n2 = ''9000000800900000080000000000000000000002'';
          n3 = ''9000000800900000080000000000000000000003'';
          (b1, s1) = bucket_add (new_bucket 2) (node_of n1);
          (b2, s2) = bucket_add b1 (node_of n2);
          (b3, s3) = bucket_add b2 (node_of n3) in
      s1 \<and> s2 \<and> \<not> s3 \<and> contains_node_id (bucket_entries b3) (hex_id n1) \<and>
      contains_node_id (bucket_entries b3) (hex_id n2) \<and> \<not> contains_node_id (bucket_entries b3) (hex_id n3))"

definition TestBucketGetEntryByIdOrReturnAll :: bool where
  "TestBucketGetEntryByIdOrReturnAll \<longleftrightarrow>
     (let n1 = ''9000000800900000080000000000000000000001''; n2 = ''9000000800900000080000000000000000000002'';
          n3 = ''9000000800900000080000000000000000000003''; b = filled (new_bucket 8) [n1, n2];
          (result, exact) = get_entry_or_all b (hex_id n3) in
      get_entry_or_all b (hex_id n1) = ([node_of n1], True) \<and>
      get_entry_or_all b (hex_id n2) = ([node_of n2], True) \<and> \<not> exact \<and> length result = 2)"

definition TestSplitAt :: bool where
  "TestSplitAt \<longleftrightarrow>
     (let n1 = ''0000000000000000000000000000000000000001''; n2 = ''f000000000000000000000000000000000000002'';
          b = filled (new_bucket 8) [n1, n2, ''0000000000000000000000000000000000000003'',
            ''0000000000000000000000000000000000000004'', ''f000000000000000000000000000000000000005''] in
      (case split_at b 0 of
         Ok (zero, one) \<Rightarrow> length (bucket_entries zero) = 3 \<and> length (bucket_entries one) = 2 \<and>
           contains_node_id (bucket_entries zero) (hex_id n1) \<and> contains_node_id (bucket_entries one) (hex_id n2)
       | _ \<Rightarrow> False))"

section \<open>All tests pass\<close>

lemma go_bencode_tests:
  "TestDecodeInteger" "TestDecodeString" "TestDecodeList" "TestDecodeDict" "TestDecodeValue"
  "TestEncodeValue" "TestKrpcError"
  by code_simp+

lemma bit_test: "TestNodeIdBitSet"
  by code_simp

lemma prefix_test: "TestLongestCommonPrefixLength"
  by code_simp

lemma compact_test: "TestCompactNodeInfo"
proof -
  have "hex_id ''000100020003000400050006000700080009000a'' =
      [0, 1, 0, 2, 0, 3, 0, 4, 0, 5, 0, 6, 0, 7, 0, 8, 0, 9, 0, 10]"
    "hex_to_bytes (bytes ''000100020003000400050006000700080009000a0c22384e9876'') =
      Ok [0, 1, 0, 2, 0, 3, 0, 4, 0, 5, 0, 6, 0, 7, 0, 8, 0, 9, 0, 10, 12, 34, 56, 78, 0x98, 0x76]"
    by code_simp+
  then show ?thesis
    by (simp add: TestCompactNodeInfo_def compact_node_info_def decode_compact_node_info_def to4_def ipv4_def
        v4_prefix_def put_u16_def get_u16_def)
qed

lemma bucket_test: "TestBucketAddEntry"
  by code_simp

lemma get_test: "TestBucketGetEntryByIdOrReturnAll"
  by code_simp

lemma split_test: "TestSplitAt"
  by code_simp

end
