(* ===== verification/Spec2Isabelle.thy ===== *)
theory Spec2Isabelle
  imports Bencode_Local Bencode_Display Bencode_Cost Main_Runs Go_Interop Bencode_Tests Fixed_Vec_Tests
    Routing_Tests Go_Tests
begin

text \<open>
  A verification library for the two implementations of a BitTorrent DHT node (BEP 5): the one in
  Rust, under \<open>rust/src/\<close>, and the older one in Go, under \<open>go/\<close>. The Rust program has these parts: a bencode codec (\<open>bencode.rs\<close>), a vector of at most
  eight items in an array of \<open>MaybeUninit\<close> slots (\<open>fixed_vec.rs\<close>), and in \<open>main.rs\<close> the 160-bit
  node ids and their XOR metric, the routing table of k-buckets, the KRPC messages, a network thread and
  a terminal user interface, which exchange commands and messages over two channels. The network thread uses
  the KRPC requests and the codec; the routing table uses the node ids and the fixed vector; the
  response reader uses the codec's values and the node ids. The routing table and the message
  handlers are not yet called by the program's main loop. The Go program has a bencode codec, node
  ids, a routing table and KRPC messages of its own; its client answers queries and sends pings,
  whose answers it enters into the table.

  \<^bold>\<open>Conventions.\<close> A call that may panic or touch uninitialised memory returns an \<open>outcome\<close> (\<open>Ok\<close>,
  \<open>Err\<close>, \<open>Crash\<close>): every \<open>assert!\<close>, \<open>expect\<close>, \<open>unwrap\<close>, \<open>unreachable!\<close>, index, slice and checked
  arithmetic operation of the source is a branch of the model. \<open>&mut self\<close> methods return the
  changed value. \<open>i64\<close> is a 64-bit word, \<open>u8\<close> an 8-bit word; \<open>usize\<close> and \<open>u32\<close> are natural numbers
  with the overflow check written out. Clock readings, random bytes, datagrams and the results of
  socket calls are parameters.

  \<^bold>\<open>Theories and sources.\<close>
  \<^item> \<open>Prelude\<close>: outcomes, checked arithmetic, slices, \<open>Iterator::position\<close>.
  \<^item> \<open>Ordered_Map\<close>: \<open>BTreeMap\<close>. The locales \<open>dict\<close> and \<open>ordered_dict\<close> are the contract its clients
    use (last binding wins, iteration in key order), interpreted on the model.
  \<^item> \<open>Bencode\<close>: the enum \<open>Bencode\<close>, \<open>Dict\<close> and \<open>Bencode::encode\<close>. \<open>Bencode_Decode\<close>: \<open>Cursor\<close>, \<open>Decoder\<close>
    and \<open>Bencode::decode\<close>, the mutually recursive functions with the proof that each value read
    shortens the rest. \<open>Bencode_Props\<close>: \<open>parse_int\<close> and byte strings as functions of the unread
    bytes, no panics, well-formed results. \<open>Bencode_Roundtrip\<close>: decoding what was encoded, and
    that re-encoding never grows. \<open>Bencode_Local\<close>: the decoder looks at the bytes it consumes
    only; the locale \<open>codec\<close>, interpreted on the two functions; the properties of the codec.
    \<open>Bencode_Cost\<close>: the number and the depth of the decoder's recursive calls.
  \<^item> \<open>Utf8\<close>: Rust's strings, \<open>as_bytes\<close>, \<open>from_utf8\<close> and \<open>from_utf8_lossy\<close>. \<open>Bencode_Display\<close>:
    \<open>fmt_bytes\<close> and the \<open>Display\<close> instance.
  \<^item> \<open>Fixed_Vec\<close>: \<open>FixedVec\<close>, with the locale \<open>bounded_vec\<close> for what the routing table needs.
  \<^item> \<open>Node_Id\<close>, \<open>Node_Distance\<close>: the module \<open>node_id\<close>; the locale \<open>prefix_metric\<close>; prefix lengths
    order the XOR metric.
  \<^item> \<open>Routing_Table\<close>: \<open>RoutingEntry\<close>, \<open>Bucket\<close>, \<open>RoutingTable::find\<close> and \<open>update\<close>.
    \<open>Routing_Invariant\<close>: the buckets tile the prefix lengths and every contact is in its bucket;
    splitting a bucket. \<open>Routing_Update\<close>: the step relation \<open>table_step\<close> of the abstract table and
    the proof that \<open>update\<close> makes such a step. \<open>Routing_Examples\<close>: concrete tables.
    \<open>Routing_Reachable\<close>: the table as a finite map, the reachable tables, and what an update keeps.
    \<open>Routing_Find\<close>: the order of the search, and how near its results are.
  \<^item> \<open>Krpc\<close>: \<open>krpc_request\<close>, \<open>FindNodeResponse::from_bencode\<close>, \<open>krpc_handle\<close>. \<open>Net_Loop\<close>: the network
    thread of \<open>main\<close> as a function from rounds of input to its state.
  \<^item> \<open>Socket_Addr\<close>: the standard library's parser for \<open>SocketAddrV4\<close>. \<open>Channel\<close>: what \<open>main\<close> uses of
    \<open>std::sync::mpsc\<close>, with the locale \<open>fifo\<close> for the order of delivery. \<open>Main_App\<close>: \<open>main\<close> as a
    whole, the user interface's callbacks, its message loop and the network thread over the two
    channels; a run is any interleaving of these events. \<open>Main_Runs\<close>: the properties of runs.
  \<^item> \<open>Go_Bencode\<close>: \<open>go/bencode.go\<close>, the scanner, the decoder, the encoder and \<open>String\<close>. \<open>Go_Codec\<close>: the Go
    codec compared with the Rust one and its round trip; it interprets the locale \<open>codec\<close> too.
    \<open>Go_Node\<close>: \<open>go/node_info.go\<close>. \<open>Go_Routing\<close>: \<open>go/routing_bucket.go\<close> and \<open>go/routing_table.go\<close>, the
    invariant of the table and what \<open>addEntry\<close> does. \<open>Go_Find\<close>: \<open>findNode\<close>, and tables filled by any
    entries. \<open>Go_Krpc\<close>: \<open>go/krpc_message.go\<close> and the query handlers. \<open>Go_Client\<close>: \<open>go/krpc_runtime.go\<close>
    and \<open>go/dht_client.go\<close> as a step relation of the client's goroutines, with its invariant.
    \<open>Go_Interop\<close>: a Rust and a Go node exchanging datagrams.
  \<^item> \<open>Go_Tests\<close>: the tests of the Go files but those of \<open>go/routing_table_test.go\<close>, as definitions
    that hold.
  \<^item> \<open>Bencode_Tests\<close>, \<open>Fixed_Vec_Tests\<close>, \<open>Routing_Tests\<close>, over \<open>Test_Support\<close>: the unit tests of the three
    files (\<open>mod tests\<close>) as definitions, and a lemma \<open>test_\<dots>_passes\<close> for each. The ids a test draws are
    parameters: the lemmas hold for every draw in which the ids that must differ do, and for every
    clock that advances by less than a minute during the test.

  \<^bold>\<open>What the properties show.\<close> The codec round-trips every value, is total on every input, accepts
  non-canonical input but returns only values with ascending keys, rejects truncated encodings
  and is uniquely decodable. The fixed vector refines a list as the routing table uses it; three
  theorems pin down the defects of its appending methods (overwritten and uninitialised items,
  double drops, a panic on a full vector). The routing table keeps its invariant under all
  updates with other ids, refines the k-bucket discipline, gives up only bad entries, and finds
  every node it holds; the properties also state where it departs from its purpose (the own id
  panics, a nearer contact may be left out of a search, a query-only node gives way at once).
  The reader of \<open>find_node\<close> responses is equivalent to one without removals, and
  misreads compact node infos. The network thread panics exactly on undecodable datagrams. In every
  interleaving the program delivers commands and messages in order, its thread behaves as it does
  alone, and everything under way can be delivered while the thread lives; after its panic nothing
  is, while the user interface goes on. The user interface panics exactly on texts that are no
  addresses, its default among them. The thread also panics if its socket cannot be set up.

  The Go codec reads and writes what the Rust one does, up to the smallest integer and signs in
  front of string lengths, but panics on a length that wraps. The Go table keeps each contact for
  which there is room, and its search may leave out bucket 0. The Go client never blocks its
  receiver, gives a call only the answer with its transaction id, and completes pings with another
  Go client; a Rust node's query is answered with an error, and a Go node's ping to a Rust node is
  not answered.

  \<^bold>\<open>Bounds and termination.\<close> There is no fuel: all functions are total. The decoder terminates by the
  number of unread bytes, the search by the offset, draining a bucket by the items left, \<open>addEntryRec\<close>
  by the buckets the table may still get. The decoder's calls nest at most once per input byte. The
  model assumes Rust's own limit of \<open>isize::MAX\<close> bytes for a slice (\<open>wf_bytes\<close>), a 64-bit
  \<open>usize\<close> and a 64-bit \<open>int\<close> in Go.

  \<^bold>\<open>Not modelled.\<close> The cursive library (layout, key dispatch, editing: its callbacks are the events
  of a run, an edit sets the text of the top dialog), how long a round or a frame takes, the end of
  the process when the user quits (a run is then over), whether the call stack is large
  enough for the depth that \<open>Bencode_Cost\<close> bounds, the \<open>Debug\<close> instances, and \<open>go/main.go\<close> with the log
  lines of the Go client (input and output).
\<close>

end
